theory Spec2Isabelle
  imports Complex_Main
begin

text \<open>
  The repository holds two notebooks in one file, \<^verbatim>\<open>paper/compress.ipynb\<close>: a cell that
  rewrites a NetCDF trajectory dataset with narrower number types, and a series of cells that
  derive, with a computer-algebra system, the moments of the separation densities of several
  relative-dispersion regimes. Both are embedded below: the first as a function on an explicit
  file store, the second as real functions of the notebook's positive symbols.
\<close>

section \<open>The dtype downcast cell\<close>

subsection \<open>Datasets, data arrays and the file store\<close>

text \<open>
  A dataset is a table of named variables, some of which are marked as coordinates, with a
  dictionary of attributes. A variable has dimension names, an element type, its values and
  attributes of its own. The element values are kept abstract (a type parameter \<open>'v\<close>);
  the array library's element conversion is the parameter \<open>cast\<close> of the operations below.
  A data array is one named variable together with the coordinates that lie on its dimensions.
  Attribute values are texts, as in the files the notebook prints. The value of an attribute
  access \<^verbatim>\<open>dset.name\<close> is an \<open>object\<close>: a data array, the index of a dimension that has no
  variable of its own (the positions along that dimension, whose values are not represented,
  because the union of arrays refuses it), or the text of a global attribute.
  The cell reads and writes files and prints: the world is the file store and what was
  printed. Every exception the cell can raise is a value of \<open>error\<close>; an
  \<^verbatim>\<open>AttributeError\<close> names the type of the object and the attribute it lacks.
\<close>

datatype dtype = Int64 | Int32 | Float64 | Float32 | Datetime64

record 'v variable =
  var_dims :: "string list"
  var_dtype :: dtype
  var_data :: "'v list"
  var_attrs :: "string \<rightharpoonup> string"

record 'v dataset =
  ds_variables :: "string \<rightharpoonup> 'v variable"
  ds_coord_names :: "string set"
  ds_attrs :: "string \<rightharpoonup> string"

record 'v dataarray =
  da_name :: string
  da_variable :: "'v variable"
  da_coords :: "string \<rightharpoonup> 'v variable"

datatype 'v object = DataArray "'v dataarray" | DimensionIndex string dtype | StrValue string

datatype error =
    FileNotFoundError string
  | AttributeError string string
  | ValueError string
  | TypeError string
  | MergeError string

datatype 'v printed = PrintDataset "'v dataset" | PrintStr string

record 'v world =
  files :: "string \<rightharpoonup> 'v dataset"
  stdout :: "'v printed list"

text \<open>\<^verbatim>\<open>str.upper()\<close> and \<^verbatim>\<open>str.lower()\<close> on ASCII letters.\<close>

definition upper_char :: "char \<Rightarrow> char" where
  "upper_char c = (let n = (of_char c :: nat) in if 97 \<le> n \<and> n \<le> 122 then char_of (n - 32) else c)"

definition lower_char :: "char \<Rightarrow> char" where
  "lower_char c = (let n = (of_char c :: nat) in if 65 \<le> n \<and> n \<le> 90 then char_of (n + 32) else c)"

definition upper :: "string \<Rightarrow> string" where
  "upper s = map upper_char s"

definition lower :: "string \<Rightarrow> string" where
  "lower s = map lower_char s"

subsection \<open>The array library's operations used by the cell\<close>

text \<open>
  \<^item> \<open>open_dataset\<close> reads a file of the store, or fails when there is none.
  \<^item> \<open>getattr\<close> is the attribute access \<^verbatim>\<open>dset.ID\<close>. The name is looked up among the
    variables first: the variable of that name as a data array, with the coordinates whose
    dimensions are among the variable's. Failing that it is looked up among the dimension
    names (\<open>dims\<close>: the dimensions of the dataset's variables), which gives the index of the
    dimension as an array of 64-bit integers named like the dimension; then among the global
    attributes, which gives the attribute's text. Only when all three fail is there an
    \<^verbatim>\<open>AttributeError\<close> for the dataset. (Methods and properties of the dataset class
    would come before all of these; none of the six names of the cell is one.)
  \<^item> \<open>astype\<close> converts the values of a data array and keeps its coordinates and attributes;
    \<open>astype_object\<close> is the method call \<^verbatim>\<open>.astype(t)\<close> on the value of an attribute access:
    a text has no such method, which is an \<^verbatim>\<open>AttributeError\<close> for \<^verbatim>\<open>str\<close>.
  \<^item> \<open>merge\<close> goes through the objects from left to right, refuses (\<^verbatim>\<open>TypeError\<close>) what is
    not an array, and turns every data array into a dataset (refused with a
    \<^verbatim>\<open>ValueError\<close> when the array is named like one of its coordinates; the array's
    attributes become the dataset's); it then unites the datasets from left to right; two
    different variables under one name are a conflict; the attributes are those of the first
    object. The index of a dimension is a data variable named like its own dimension, and a
    variable named like a dimension of the result must be a coordinate: the union of a list
    that holds such an index is refused with a \<^verbatim>\<open>MergeError\<close> (unable to determine if
    these variables should be coordinates or not in the merged result).
  \<^item> \<open>to_netcdf\<close> writes the dataset to the path, overwriting; a variable with an encoding
    \<^verbatim>\<open>dtype\<close> different from its own is converted on the way.
\<close>

definition open_dataset :: "'v world \<Rightarrow> string \<Rightarrow> error + 'v dataset" where
  "open_dataset w path = (case files w path of None \<Rightarrow> Inl (FileNotFoundError path) | Some ds \<Rightarrow> Inr ds)"

definition print :: "'v printed \<Rightarrow> 'v world \<Rightarrow> 'v world" where
  "print x w = w\<lparr>stdout := stdout w @ [x]\<rparr>"

definition construct_dataarray :: "'v dataset \<Rightarrow> string \<Rightarrow> 'v variable \<Rightarrow> 'v dataarray" where
  "construct_dataarray ds k v =
     \<lparr>da_name = k, da_variable = v,
      da_coords = (\<lambda>c. if c \<in> ds_coord_names ds then
                          (case ds_variables ds c of
                             Some cv \<Rightarrow> if set (var_dims cv) \<subseteq> set (var_dims v) then Some cv else None
                           | None \<Rightarrow> None)
                        else None)\<rparr>"

definition dims :: "'v dataset \<Rightarrow> string set" where
  "dims ds = {d. \<exists>k v. ds_variables ds k = Some v \<and> d \<in> set (var_dims v)}"

definition getattr :: "'v dataset \<Rightarrow> string \<Rightarrow> error + 'v object" where
  "getattr ds k =
     (case ds_variables ds k of
        Some v \<Rightarrow> Inr (DataArray (construct_dataarray ds k v))
      | None \<Rightarrow>
          if k \<in> dims ds then Inr (DimensionIndex k Int64)
          else (case ds_attrs ds k of
                  Some s \<Rightarrow> Inr (StrValue s)
                | None \<Rightarrow> Inl (AttributeError ''Dataset'' k)))"

definition astype :: "(dtype \<Rightarrow> 'v \<Rightarrow> 'v) \<Rightarrow> dtype \<Rightarrow> 'v dataarray \<Rightarrow> 'v dataarray" where
  "astype cast d a =
     a\<lparr>da_variable := (da_variable a)\<lparr>var_dtype := d, var_data := map (cast d) (var_data (da_variable a))\<rparr>\<rparr>"

definition astype_object :: "(dtype \<Rightarrow> 'v \<Rightarrow> 'v) \<Rightarrow> dtype \<Rightarrow> 'v object \<Rightarrow> error + 'v object" where
  "astype_object cast d ob =
     (case ob of
        DataArray a \<Rightarrow> Inr (DataArray (astype cast d a))
      | DimensionIndex k t \<Rightarrow> Inr (DimensionIndex k d)
      | StrValue s \<Rightarrow> Inl (AttributeError ''str'' ''astype''))"

definition to_dataset :: "'v dataarray \<Rightarrow> error + 'v dataset" where
  "to_dataset a =
     (if da_name a \<in> dom (da_coords a) then Inl (ValueError (da_name a))
      else Inr \<lparr>ds_variables = (da_coords a)(da_name a \<mapsto> da_variable a),
               ds_coord_names = dom (da_coords a),
               ds_attrs = var_attrs (da_variable a)\<rparr>)"

definition merge_two :: "'v dataset \<Rightarrow> 'v dataset \<Rightarrow> error + 'v dataset" where
  "merge_two d1 d2 =
     (if \<exists>k \<in> dom (ds_variables d1) \<inter> dom (ds_variables d2). ds_variables d1 k \<noteq> ds_variables d2 k
      then Inl (MergeError ''conflicting values'')
      else Inr \<lparr>ds_variables = ds_variables d1 ++ ds_variables d2,
                ds_coord_names = ds_coord_names d1 \<union> ds_coord_names d2,
                ds_attrs = ds_attrs d1\<rparr>)"

fun merge_datasets :: "'v dataset \<Rightarrow> 'v dataset list \<Rightarrow> error + 'v dataset" where
  "merge_datasets acc [] = Inr acc"
| "merge_datasets acc (d # ds) =
     (case merge_two acc d of Inl e \<Rightarrow> Inl e | Inr acc' \<Rightarrow> merge_datasets acc' ds)"

fun to_datasets :: "'v object list \<Rightarrow> error + 'v dataset list" where
  "to_datasets [] = Inr []"
| "to_datasets (DataArray a # obs) =
     (case to_dataset a of Inl e \<Rightarrow> Inl e
      | Inr d \<Rightarrow> (case to_datasets obs of Inl e \<Rightarrow> Inl e | Inr ds \<Rightarrow> Inr (d # ds)))"
| "to_datasets (DimensionIndex k t # obs) = to_datasets obs"
| "to_datasets (StrValue s # obs) = Inl (TypeError ''objects must be an iterable containing only Dataset(s), DataArray(s), and dictionaries.'')"

fun is_dimension_index :: "'v object \<Rightarrow> bool" where
  "is_dimension_index (DimensionIndex k t) = True"
| "is_dimension_index _ = False"

definition merge :: "'v object list \<Rightarrow> error + 'v dataset" where
  "merge objects =
     (case to_datasets objects of
        Inl e \<Rightarrow> Inl e
      | Inr dss \<Rightarrow>
          (case (case dss of
                   [] \<Rightarrow> Inr \<lparr>ds_variables = Map.empty, ds_coord_names = {}, ds_attrs = Map.empty\<rparr>
                 | d # ds \<Rightarrow> merge_datasets d ds) of
             Inl e \<Rightarrow> Inl e
           | Inr merged \<Rightarrow>
               if list_ex is_dimension_index objects
               then Inl (MergeError ''unable to determine if these variables should be coordinates or not in the merged result'')
               else Inr merged))"

definition encode_variable :: "(dtype \<Rightarrow> 'v \<Rightarrow> 'v) \<Rightarrow> dtype option \<Rightarrow> 'v variable \<Rightarrow> 'v variable" where
  "encode_variable cast enc v =
     (case enc of
        None \<Rightarrow> v
      | Some d \<Rightarrow> if d \<noteq> var_dtype v then v\<lparr>var_dtype := d, var_data := map (cast d) (var_data v)\<rparr> else v)"

definition to_netcdf ::
  "(dtype \<Rightarrow> 'v \<Rightarrow> 'v) \<Rightarrow> 'v dataset \<Rightarrow> string \<Rightarrow> (string \<rightharpoonup> dtype) \<Rightarrow> 'v world \<Rightarrow> 'v world" where
  "to_netcdf cast ds path encoding w =
     w\<lparr>files := (files w)(path \<mapsto>
        ds\<lparr>ds_variables := (\<lambda>k. map_option (encode_variable cast (encoding k)) (ds_variables ds k))\<rparr>)\<rparr>"

subsection \<open>The cell\<close>

text \<open>
  \<^verbatim>\<open>
  dname = 'laser'; suffix = '_drogued_remove_first'
  dset = xr.open_dataset(f'/Data/{dname.upper()}/{dname}64{suffix}.nc')
  print(dset)
  print( newline )
  dset2 = xr.merge([dset.ID.astype(np.int32), dset.rowsize.astype(np.int32),
            dset.ve.astype(np.float32),
            dset.vn.astype(np.float32),
            dset.longitude.astype(np.float32),
            dset.latitude.astype(np.float32)])
  dset2.attrs['title'] = f'{dname} experiment'
  print(dset2)
  dset2.to_netcdf(f'../data/{dname}32{suffix}.nc', engine='netcdf4',
                  encoding={"ve": {"dtype": "float32", "zlib": True}, ... "latitude": ...})
  \<close>
  The list elements are evaluated from left to right (\<open>element\<close> is one of them,
  \<^verbatim>\<open>dset.name.astype(t)\<close>), so the first element that raises ends the cell.
  \<open>dname\<close> and \<open>suffix\<close> are the two assignments at the top of the cell (the notebook
  has a second pair, \<^verbatim>\<open>'glad'\<close> and the empty suffix, commented out); they are arguments here.
\<close>

definition element ::
  "(dtype \<Rightarrow> 'v \<Rightarrow> 'v) \<Rightarrow> 'v dataset \<Rightarrow> string \<Rightarrow> dtype \<Rightarrow> error + 'v object" where
  "element cast dset k d =
     (case getattr dset k of Inl e \<Rightarrow> Inl e | Inr ob \<Rightarrow> astype_object cast d ob)"

definition downcast_list :: "(dtype \<Rightarrow> 'v \<Rightarrow> 'v) \<Rightarrow> 'v dataset \<Rightarrow> error + 'v object list" where
  "downcast_list cast dset =
     (case element cast dset ''ID'' Int32 of Inl e \<Rightarrow> Inl e | Inr a1 \<Rightarrow>
      case element cast dset ''rowsize'' Int32 of Inl e \<Rightarrow> Inl e | Inr a2 \<Rightarrow>
      case element cast dset ''ve'' Float32 of Inl e \<Rightarrow> Inl e | Inr a3 \<Rightarrow>
      case element cast dset ''vn'' Float32 of Inl e \<Rightarrow> Inl e | Inr a4 \<Rightarrow>
      case element cast dset ''longitude'' Float32 of Inl e \<Rightarrow> Inl e | Inr a5 \<Rightarrow>
      case element cast dset ''latitude'' Float32 of Inl e \<Rightarrow> Inl e | Inr a6 \<Rightarrow>
      Inr [a1, a2, a3, a4, a5, a6])"

definition encoding :: "string \<rightharpoonup> dtype" where
  "encoding = [''ve'' \<mapsto> Float32, ''vn'' \<mapsto> Float32, ''longitude'' \<mapsto> Float32, ''latitude'' \<mapsto> Float32]"

definition compress_cell ::
  "(dtype \<Rightarrow> 'v \<Rightarrow> 'v) \<Rightarrow> string \<Rightarrow> string \<Rightarrow> 'v world \<Rightarrow> (error + unit) \<times> 'v world" where
  "compress_cell cast dname suffix w =
     (case open_dataset w (''/Data/'' @ upper dname @ ''/'' @ dname @ ''64'' @ suffix @ ''.nc'') of
        Inl e \<Rightarrow> (Inl e, w)
      | Inr dset \<Rightarrow>
          let w1 = print (PrintDataset dset) w;
              w2 = print (PrintStr [CHR 0x0A]) w1
          in (case downcast_list cast dset of
                Inl e \<Rightarrow> (Inl e, w2)
              | Inr objects \<Rightarrow>
                  (case merge objects of
                     Inl e \<Rightarrow> (Inl e, w2)
                   | Inr merged \<Rightarrow>
                       let dset2 = merged\<lparr>ds_attrs := (ds_attrs merged)(''title'' \<mapsto> dname @ '' experiment'')\<rparr>;
                           w3 = print (PrintDataset dset2) w2
                       in (Inr (), to_netcdf cast dset2 (''../data/'' @ dname @ ''32'' @ suffix @ ''.nc'')
                                     encoding w3))))"

subsection \<open>What the cell writes\<close>

text \<open>
  The six variables the cell names and their target types, the coordinates that travel with
  them, and the two paths.
\<close>

definition targeted :: "string list" where
  "targeted = [''ID'', ''rowsize'', ''ve'', ''vn'', ''longitude'', ''latitude'']"

definition target_dtype :: "string \<Rightarrow> dtype" where
  "target_dtype k = (if k = ''ID'' \<or> k = ''rowsize'' then Int32 else Float32)"

definition carried_coords :: "'v dataset \<Rightarrow> string set" where
  "carried_coords dset =
     {c. c \<in> ds_coord_names dset \<and>
         (\<exists>k \<in> set targeted. \<exists>v cv. ds_variables dset k = Some v \<and> ds_variables dset c = Some cv \<and>
             set (var_dims cv) \<subseteq> set (var_dims v))}"

definition in_path :: "string \<Rightarrow> string \<Rightarrow> string" where
  "in_path dname suffix = ''/Data/'' @ upper dname @ ''/'' @ dname @ ''64'' @ suffix @ ''.nc''"

definition out_path :: "string \<Rightarrow> string \<Rightarrow> string" where
  "out_path dname suffix = ''../data/'' @ dname @ ''32'' @ suffix @ ''.nc''"

lemma merge_two_le:
  assumes "ds_variables d1 \<subseteq>\<^sub>m g" "ds_variables d2 \<subseteq>\<^sub>m g"
  shows "merge_two d1 d2 = Inr \<lparr>ds_variables = ds_variables d1 ++ ds_variables d2,
                ds_coord_names = ds_coord_names d1 \<union> ds_coord_names d2,
                ds_attrs = ds_attrs d1\<rparr>"
proof -
  have "ds_variables d1 k = ds_variables d2 k"
    if "k \<in> dom (ds_variables d1) \<inter> dom (ds_variables d2)" for k
    using that assms unfolding map_le_def by (metis IntD1 IntD2)
  thus ?thesis unfolding merge_two_def by simp
qed

lemma merge_datasets_le:
  assumes "ds_variables acc \<subseteq>\<^sub>m g" "\<forall>d \<in> set ds. ds_variables d \<subseteq>\<^sub>m g"
  shows "\<exists>r. merge_datasets acc ds = Inr r \<and> ds_variables r \<subseteq>\<^sub>m g
           \<and> dom (ds_variables r) = dom (ds_variables acc) \<union> (\<Union>d \<in> set ds. dom (ds_variables d))
           \<and> ds_coord_names r = ds_coord_names acc \<union> (\<Union>d \<in> set ds. ds_coord_names d)
           \<and> ds_attrs r = ds_attrs acc"
  using assms
proof (induction ds arbitrary: acc)
  case Nil
  then show ?case by simp
next
  case (Cons d ds)
  let ?acc' = "\<lparr>ds_variables = ds_variables acc ++ ds_variables d,
                ds_coord_names = ds_coord_names acc \<union> ds_coord_names d,
                ds_attrs = ds_attrs acc\<rparr>"
  have d: "ds_variables d \<subseteq>\<^sub>m g" using Cons.prems(2) by simp
  have m: "merge_two acc d = Inr ?acc'" by (rule merge_two_le[OF Cons.prems(1) d])
  have le: "ds_variables ?acc' \<subseteq>\<^sub>m g"
    using Cons.prems(1) d by (simp add: map_add_le_mapI)
  from Cons.IH[OF le] Cons.prems(2)
  obtain r where r: "merge_datasets ?acc' ds = Inr r" "ds_variables r \<subseteq>\<^sub>m g"
    "dom (ds_variables r) = dom (ds_variables ?acc') \<union> (\<Union>d \<in> set ds. dom (ds_variables d))"
    "ds_coord_names r = ds_coord_names ?acc' \<union> (\<Union>d \<in> set ds. ds_coord_names d)"
    "ds_attrs r = ds_attrs ?acc'"
    by auto
  show ?case
  proof (intro exI[of _ r] conjI)
    show "merge_datasets acc (d # ds) = Inr r" using m r(1) by simp
    show "ds_variables r \<subseteq>\<^sub>m g" by fact
    show "dom (ds_variables r) = dom (ds_variables acc) \<union> (\<Union>d \<in> set (d # ds). dom (ds_variables d))"
      using r(3) by auto
    show "ds_coord_names r = ds_coord_names acc \<union> (\<Union>d \<in> set (d # ds). ds_coord_names d)"
      using r(4) by auto
    show "ds_attrs r = ds_attrs acc" using r(5) by simp
  qed
qed

definition converted :: "(dtype \<Rightarrow> 'v \<Rightarrow> 'v) \<Rightarrow> dtype \<Rightarrow> 'v variable \<Rightarrow> 'v variable" where
  "converted cast d v = v\<lparr>var_dtype := d, var_data := map (cast d) (var_data v)\<rparr>"

definition expected_variables :: "(dtype \<Rightarrow> 'v \<Rightarrow> 'v) \<Rightarrow> 'v dataset \<Rightarrow> string \<rightharpoonup> 'v variable" where
  "expected_variables cast dset k =
     (if k \<in> set targeted then map_option (converted cast (target_dtype k)) (ds_variables dset k)
      else if k \<in> ds_coord_names dset then ds_variables dset k else None)"

definition downcast_object :: "(dtype \<Rightarrow> 'v \<Rightarrow> 'v) \<Rightarrow> 'v dataset \<Rightarrow> string \<Rightarrow> 'v dataarray" where
  "downcast_object cast dset k =
     astype cast (target_dtype k) (construct_dataarray dset k (the (ds_variables dset k)))"

fun elements ::
  "(dtype \<Rightarrow> 'v \<Rightarrow> 'v) \<Rightarrow> 'v dataset \<Rightarrow> string list \<Rightarrow> error + 'v object list" where
  "elements cast dset [] = Inr []"
| "elements cast dset (k # ks) =
     (case element cast dset k (target_dtype k) of
        Inl e \<Rightarrow> Inl e
      | Inr a \<Rightarrow> (case elements cast dset ks of Inl e \<Rightarrow> Inl e | Inr as \<Rightarrow> Inr (a # as)))"

lemma downcast_list_elements: "downcast_list cast dset = elements cast dset targeted"
  by (simp add: downcast_list_def targeted_def target_dtype_def split: sum.splits)

lemma element_present:
  "ds_variables dset k = Some v \<Longrightarrow>
     element cast dset k d = Inr (DataArray (astype cast d (construct_dataarray dset k v)))"
  by (simp add: element_def getattr_def astype_object_def)

lemma element_dimension:
  "ds_variables dset k = None \<Longrightarrow> k \<in> dims dset \<Longrightarrow>
     element cast dset k d = Inr (DimensionIndex k d)"
  by (simp add: element_def getattr_def astype_object_def)

lemma element_absent:
  "ds_variables dset k = None \<Longrightarrow> k \<notin> dims dset \<Longrightarrow>
     element cast dset k d =
       Inl (case ds_attrs dset k of None \<Rightarrow> AttributeError ''Dataset'' k
            | Some s \<Rightarrow> AttributeError ''str'' ''astype'')"
  by (simp add: element_def getattr_def astype_object_def split: option.splits)

lemma elements_success:
  assumes "\<forall>k \<in> set ks. k \<in> dom (ds_variables dset)"
  shows "elements cast dset ks = Inr (map (\<lambda>k. DataArray (downcast_object cast dset k)) ks)"
  using assms
proof (induction ks)
  case Nil
  show ?case by simp
next
  case (Cons k ks)
  from Cons.prems obtain v where v: "ds_variables dset k = Some v" by auto
  have "elements cast dset ks = Inr (map (\<lambda>k. DataArray (downcast_object cast dset k)) ks)"
    using Cons by simp
  thus ?case by (simp add: element_present[OF v] downcast_object_def v)
qed

lemma downcast_list_success:
  assumes "\<forall>k \<in> set targeted. k \<in> dom (ds_variables dset)"
  shows "downcast_list cast dset = Inr (map (\<lambda>k. DataArray (downcast_object cast dset k)) targeted)"
  unfolding downcast_list_elements by (rule elements_success[OF assms])

lemma to_datasets_map:
  assumes "\<forall>k \<in> set ks. to_dataset (f k) = Inr (h k)"
  shows "to_datasets (map (\<lambda>k. DataArray (f k)) ks) = Inr (map h ks)"
  using assms by (induction ks) simp_all

lemma no_dimension_index_map:
  "list_ex is_dimension_index (map (\<lambda>k. DataArray (f k)) ks) = False"
  by (induction ks) simp_all

definition object_dataset :: "(dtype \<Rightarrow> 'v \<Rightarrow> 'v) \<Rightarrow> 'v dataset \<Rightarrow> string \<Rightarrow> 'v dataset" where
  "object_dataset cast dset k =
     (let a = downcast_object cast dset k in
      \<lparr>ds_variables = (da_coords a)(k \<mapsto> da_variable a),
       ds_coord_names = dom (da_coords a),
       ds_attrs = var_attrs (da_variable a)\<rparr>)"

lemma to_dataset_downcast_object:
  assumes "k \<notin> ds_coord_names dset"
  shows "to_dataset (downcast_object cast dset k) = Inr (object_dataset cast dset k)"
proof -
  have "k \<notin> dom (da_coords (downcast_object cast dset k))"
    using assms by (auto simp: downcast_object_def astype_def construct_dataarray_def split: if_splits)
  moreover have "da_name (downcast_object cast dset k) = k"
    by (simp add: downcast_object_def astype_def construct_dataarray_def)
  ultimately show ?thesis by (simp add: to_dataset_def object_dataset_def Let_def)
qed

lemma object_dataset_le:
  assumes "k \<in> set targeted" "ds_variables dset k = Some v"
    and "\<forall>k \<in> set targeted. k \<in> dom (ds_variables dset) \<longrightarrow> k \<notin> ds_coord_names dset"
  shows "ds_variables (object_dataset cast dset k) \<subseteq>\<^sub>m expected_variables cast dset"
  unfolding map_le_def
proof
  fix c assume c: "c \<in> dom (ds_variables (object_dataset cast dset k))"
  show "ds_variables (object_dataset cast dset k) c = expected_variables cast dset c"
  proof (cases "c = k")
    case True
    thus ?thesis using assms(1,2)
      by (simp add: object_dataset_def Let_def downcast_object_def astype_def
          construct_dataarray_def expected_variables_def converted_def)
  next
    case False
    with c have cc: "c \<in> ds_coord_names dset" and cd: "c \<in> dom (ds_variables dset)"
      by (auto simp: object_dataset_def Let_def downcast_object_def astype_def
          construct_dataarray_def split: if_splits option.splits)
    hence "c \<notin> set targeted" using assms(3) by auto
    thus ?thesis using False c cc
      by (auto simp: object_dataset_def Let_def downcast_object_def astype_def
          construct_dataarray_def expected_variables_def split: option.splits if_splits)
  qed
qed

lemma object_dataset_dom:
  assumes "ds_variables dset k = Some v"
  shows "dom (ds_variables (object_dataset cast dset k)) =
      insert k {c. c \<in> ds_coord_names dset \<and> (\<exists>cv. ds_variables dset c = Some cv \<and>
             set (var_dims cv) \<subseteq> set (var_dims v))}"
    and "ds_coord_names (object_dataset cast dset k) =
      {c. c \<in> ds_coord_names dset \<and> (\<exists>cv. ds_variables dset c = Some cv \<and>
             set (var_dims cv) \<subseteq> set (var_dims v))}"
    and "ds_attrs (object_dataset cast dset k) = var_attrs v"
  using assms
  by (auto simp: object_dataset_def Let_def downcast_object_def astype_def
          construct_dataarray_def split: option.splits if_splits)

lemma to_dataset_coordinate:
  assumes "ds_variables dset k = Some v" "k \<in> ds_coord_names dset"
  shows "to_dataset (downcast_object cast dset k) = Inl (ValueError k)"
proof -
  have "k \<in> dom (da_coords (downcast_object cast dset k))"
    using assms by (simp add: downcast_object_def astype_def construct_dataarray_def dom_def)
  moreover have "da_name (downcast_object cast dset k) = k"
    by (simp add: downcast_object_def astype_def construct_dataarray_def)
  ultimately show ?thesis by (simp add: to_dataset_def)
qed

lemma merge_objects:
  assumes t: "\<forall>k \<in> set targeted. k \<in> dom (ds_variables dset) \<and> k \<notin> ds_coord_names dset"
  shows "\<exists>r. merge (map (\<lambda>k. DataArray (downcast_object cast dset k)) targeted) = Inr r
           \<and> ds_variables r \<subseteq>\<^sub>m expected_variables cast dset
           \<and> dom (ds_variables r) = set targeted \<union> carried_coords dset
           \<and> ds_coord_names r = carried_coords dset
           \<and> ds_attrs r = var_attrs (the (ds_variables dset ''ID''))"
proof -
  let ?od = "object_dataset cast dset"
  have nc: "\<forall>k \<in> set targeted. k \<notin> ds_coord_names dset" using t by simp
  have v: "\<exists>v. ds_variables dset k = Some v" if "k \<in> set targeted" for k
    using t that by auto
  have td: "to_datasets (map (\<lambda>k. DataArray (downcast_object cast dset k)) targeted)
      = Inr (map ?od targeted)"
    by (rule to_datasets_map) (simp add: to_dataset_downcast_object nc)
  have tl: "map ?od targeted = ?od ''ID'' # map ?od (tl targeted)" by (simp add: targeted_def)
  have m: "merge (map (\<lambda>k. DataArray (downcast_object cast dset k)) targeted)
      = (case merge_datasets (?od ''ID'') (map ?od (tl targeted)) of
           Inl e \<Rightarrow> Inl e | Inr merged \<Rightarrow> Inr merged)"
    unfolding merge_def td no_dimension_index_map by (simp add: tl split: sum.splits)
  have nc': "\<forall>k \<in> set targeted. k \<in> dom (ds_variables dset) \<longrightarrow> k \<notin> ds_coord_names dset"
    using nc by simp
  have le: "ds_variables (?od k) \<subseteq>\<^sub>m expected_variables cast dset" if "k \<in> set targeted" for k
    using v[OF that] object_dataset_le[OF that _ nc'] by blast
  have id: "''ID'' \<in> set targeted" by (simp add: targeted_def)
  have sub: "set (tl targeted) \<subseteq> set targeted" by (simp add: targeted_def)
  have "\<forall>d \<in> set (map ?od (tl targeted)). ds_variables d \<subseteq>\<^sub>m expected_variables cast dset"
    using le sub by auto
  from merge_datasets_le[OF le[OF id] this]
  obtain r where r0: "merge_datasets (?od ''ID'') (map ?od (tl targeted)) = Inr r
    \<and> ds_variables r \<subseteq>\<^sub>m expected_variables cast dset
    \<and> dom (ds_variables r) = dom (ds_variables (?od ''ID'')) \<union>
        (\<Union>d \<in> set (map ?od (tl targeted)). dom (ds_variables d))
    \<and> ds_coord_names r = ds_coord_names (?od ''ID'') \<union>
        (\<Union>d \<in> set (map ?od (tl targeted)). ds_coord_names d)
    \<and> ds_attrs r = ds_attrs (?od ''ID'')" ..
  note r = r0[THEN conjunct1] r0[THEN conjunct2, THEN conjunct1]
    r0[THEN conjunct2, THEN conjunct2, THEN conjunct1]
    r0[THEN conjunct2, THEN conjunct2, THEN conjunct2, THEN conjunct1]
    r0[THEN conjunct2, THEN conjunct2, THEN conjunct2, THEN conjunct2]
  have all: "insert ''ID'' (set (tl targeted)) = set targeted" by (simp add: targeted_def)
  have dom_eq: "dom (ds_variables r) = (\<Union>k \<in> set targeted. dom (ds_variables (?od k)))"
    unfolding r(3) all[symmetric] by auto
  have cn_eq: "ds_coord_names r = (\<Union>k \<in> set targeted. ds_coord_names (?od k))"
    unfolding r(4) all[symmetric] by auto
  have d1: "(\<Union>k \<in> set targeted. dom (ds_variables (?od k))) = set targeted \<union> carried_coords dset"
  proof (intro set_eqI iffI)
    fix c assume "c \<in> (\<Union>k \<in> set targeted. dom (ds_variables (?od k)))"
    then obtain k where k: "k \<in> set targeted" "c \<in> dom (ds_variables (?od k))" by blast
    from v[OF k(1)] obtain vk where vk: "ds_variables dset k = Some vk" by blast
    from k(2) show "c \<in> set targeted \<union> carried_coords dset"
      unfolding object_dataset_dom(1)[OF vk] carried_coords_def using k(1) vk by auto
  next
    fix c assume "c \<in> set targeted \<union> carried_coords dset"
    then consider "c \<in> set targeted" | "c \<in> carried_coords dset" by blast
    thus "c \<in> (\<Union>k \<in> set targeted. dom (ds_variables (?od k)))"
    proof cases
      case 1
      from v[OF 1] obtain vc where vc: "ds_variables dset c = Some vc" by blast
      have "c \<in> dom (ds_variables (?od c))"
        unfolding object_dataset_dom(1)[OF vc] by simp
      thus ?thesis by (rule UN_I[OF 1])
    next
      case 2
      then obtain k vk cv where k: "k \<in> set targeted" "ds_variables dset k = Some vk"
        "c \<in> ds_coord_names dset" "ds_variables dset c = Some cv"
        "set (var_dims cv) \<subseteq> set (var_dims vk)"
        unfolding carried_coords_def by blast
      have "c \<in> dom (ds_variables (?od k))"
        unfolding object_dataset_dom(1)[OF k(2)] using k(3-5) by simp
      thus ?thesis by (rule UN_I[OF k(1)])
    qed
  qed
  have d2: "(\<Union>k \<in> set targeted. ds_coord_names (?od k)) = carried_coords dset"
  proof (intro set_eqI iffI)
    fix c assume "c \<in> (\<Union>k \<in> set targeted. ds_coord_names (?od k))"
    then obtain k where k: "k \<in> set targeted" "c \<in> ds_coord_names (?od k)" by blast
    from v[OF k(1)] obtain vk where vk: "ds_variables dset k = Some vk" by blast
    from k(2) show "c \<in> carried_coords dset"
      unfolding object_dataset_dom(2)[OF vk] carried_coords_def using k(1) vk by auto
  next
    fix c assume "c \<in> carried_coords dset"
    then obtain k vk cv where k: "k \<in> set targeted" "ds_variables dset k = Some vk"
        "c \<in> ds_coord_names dset" "ds_variables dset c = Some cv"
        "set (var_dims cv) \<subseteq> set (var_dims vk)"
      unfolding carried_coords_def by blast
    have "c \<in> ds_coord_names (?od k)"
      unfolding object_dataset_dom(2)[OF k(2)] using k(3-5) by simp
    thus "c \<in> (\<Union>k \<in> set targeted. ds_coord_names (?od k))" by (rule UN_I[OF k(1)])
  qed
  from v[OF id] obtain vid where vid: "ds_variables dset ''ID'' = Some vid" by blast
  have at: "ds_attrs r = var_attrs (the (ds_variables dset ''ID''))"
    unfolding r(5) object_dataset_dom(3)[OF vid] using vid by simp
  show ?thesis
  proof (intro exI[of _ r] conjI)
    show "merge (map (\<lambda>k. DataArray (downcast_object cast dset k)) targeted) = Inr r"
      using m r(1) by simp
    show "ds_variables r \<subseteq>\<^sub>m expected_variables cast dset" by (rule r(2))
    show "dom (ds_variables r) = set targeted \<union> carried_coords dset" using dom_eq d1 by simp
    show "ds_coord_names r = carried_coords dset" using cn_eq d2 by simp
    show "ds_attrs r = var_attrs (the (ds_variables dset ''ID''))" by (rule at)
  qed
qed

lemma lower_upper_char: "lower_char (upper_char c) = lower_char c"
proof (cases "97 \<le> (of_char c :: nat) \<and> (of_char c :: nat) \<le> 122")
  case True
  define n where "n = (of_char c :: nat)"
  have n: "97 \<le> n" "n \<le> 122" using True by (simp_all add: n_def)
  have u: "upper_char c = char_of (n - 32)" using True by (simp add: upper_char_def n_def Let_def)
  have o: "(of_char (char_of (n - 32) :: char) :: nat) = n - 32" using n by simp
  have rg: "65 \<le> n - 32 \<and> n - 32 \<le> 90" using n by arith
  have "lower_char (char_of (n - 32)) = char_of (n - 32 + 32)"
    unfolding lower_char_def Let_def o using rg by simp
  also have "n - 32 + 32 = n" using n by simp
  also have "char_of n = c" by (simp add: n_def)
  finally have "lower_char (upper_char c) = c" unfolding u .
  moreover have "lower_char c = c" using True by (simp add: lower_char_def Let_def)
  ultimately show ?thesis by simp
next
  case False
  hence "upper_char c = c" by (auto simp: upper_char_def Let_def)
  thus ?thesis by simp
qed

lemma lower_upper: "lower (upper s) = lower s"
  by (simp add: lower_def upper_def lower_upper_char)

lemma encoding_targeted: "encoding k = Some d \<Longrightarrow> k \<in> set targeted \<and> d = Float32 \<and> target_dtype k = Float32"
  by (auto simp: encoding_def targeted_def target_dtype_def split: if_splits)

lemma downcast_written_output_aux:
  assumes f: "files w (in_path dname suffix) = Some dset"
    and t: "\<forall>k \<in> set targeted. k \<in> dom (ds_variables dset) \<and> k \<notin> ds_coord_names dset"
  shows "\<exists>w' out. compress_cell cast dname suffix w = (Inr (), w')
      \<and> files w' = (files w)(out_path dname suffix \<mapsto> out)
      \<and> (\<forall>k \<in> set targeted.
            ds_variables out k = map_option (converted cast (target_dtype k)) (ds_variables dset k))
      \<and> (\<forall>c \<in> carried_coords dset. c \<in> ds_coord_names out \<and> ds_variables out c = ds_variables dset c)
      \<and> (\<forall>k. k \<notin> set targeted \<and> k \<notin> carried_coords dset \<longrightarrow> ds_variables out k = None)
      \<and> ds_attrs out ''title'' = Some (dname @ '' experiment'')"
proof -
  from merge_objects[OF t, of cast] obtain r where r0:
    "merge (map (\<lambda>k. DataArray (downcast_object cast dset k)) targeted) = Inr r
           \<and> ds_variables r \<subseteq>\<^sub>m expected_variables cast dset
           \<and> dom (ds_variables r) = set targeted \<union> carried_coords dset
           \<and> ds_coord_names r = carried_coords dset
           \<and> ds_attrs r = var_attrs (the (ds_variables dset ''ID''))" ..
  note r = r0[THEN conjunct1] r0[THEN conjunct2, THEN conjunct1]
    r0[THEN conjunct2, THEN conjunct2, THEN conjunct1]
    r0[THEN conjunct2, THEN conjunct2, THEN conjunct2, THEN conjunct1]
  have dl: "downcast_list cast dset = Inr (map (\<lambda>k. DataArray (downcast_object cast dset k)) targeted)"
    by (rule downcast_list_success) (use t in simp)
  define dset2 where "dset2 = r\<lparr>ds_attrs := (ds_attrs r)(''title'' \<mapsto> dname @ '' experiment'')\<rparr>"
  define w3 where "w3 = print (PrintDataset dset2) (print (PrintStr [CHR 0x0A]) (print (PrintDataset dset) w))"
  define out where "out = dset2\<lparr>ds_variables :=
      (\<lambda>k. map_option (encode_variable cast (encoding k)) (ds_variables dset2 k))\<rparr>"
  have run: "compress_cell cast dname suffix w
      = (Inr (), to_netcdf cast dset2 (out_path dname suffix) encoding w3)"
    using f unfolding compress_cell_def open_dataset_def in_path_def out_path_def
    by (simp add: dl r(1) Let_def dset2_def w3_def)
  have fl: "files (to_netcdf cast dset2 (out_path dname suffix) encoding w3)
      = (files w)(out_path dname suffix \<mapsto> out)"
    by (simp add: to_netcdf_def w3_def print_def out_def)
  have rv: "ds_variables r k = expected_variables cast dset k"
    if "k \<in> set targeted \<union> carried_coords dset" for k
    using r(2,3) that unfolding map_le_def by blast
  have rn: "ds_variables r k = None" if "k \<notin> set targeted" "k \<notin> carried_coords dset" for k
    using r(3) that by blast
  have enc: "map_option (encode_variable cast (encoding k)) (expected_variables cast dset k)
      = expected_variables cast dset k" for k
  proof (cases "encoding k")
    case None
    thus ?thesis by (cases "expected_variables cast dset k") (simp_all add: encode_variable_def)
  next
    case (Some d)
    from encoding_targeted[OF this] have k: "k \<in> set targeted" "d = Float32" "target_dtype k = Float32"
      by simp_all
    show ?thesis using Some k
      by (cases "ds_variables dset k")
         (simp_all add: expected_variables_def encode_variable_def converted_def)
  qed
  have ov: "ds_variables out k = expected_variables cast dset k"
    if "k \<in> set targeted \<union> carried_coords dset" for k
    using rv[OF that] enc[of k] by (simp add: out_def dset2_def)
  have cc: "c \<notin> set targeted" "c \<in> ds_coord_names dset" if "c \<in> carried_coords dset" for c
    using that t by (auto simp: carried_coords_def)
  show ?thesis
  proof (intro exI[of _ "to_netcdf cast dset2 (out_path dname suffix) encoding w3"] exI[of _ out]
      conjI ballI allI impI)
    show "compress_cell cast dname suffix w
      = (Inr (), to_netcdf cast dset2 (out_path dname suffix) encoding w3)" by (rule run)
    show "files (to_netcdf cast dset2 (out_path dname suffix) encoding w3)
      = (files w)(out_path dname suffix \<mapsto> out)" by (rule fl)
    show "ds_variables out k = map_option (converted cast (target_dtype k)) (ds_variables dset k)"
      if "k \<in> set targeted" for k
      using ov[of k] that by (simp add: expected_variables_def)
    show "c \<in> ds_coord_names out" if "c \<in> carried_coords dset" for c
      using that r(4) by (simp add: out_def dset2_def)
    show "ds_variables out c = ds_variables dset c" if "c \<in> carried_coords dset" for c
      using ov[of c] cc[OF that] that by (simp add: expected_variables_def)
    show "ds_variables out k = None" if "k \<notin> set targeted \<and> k \<notin> carried_coords dset" for k
      using rn[of k] that by (simp add: out_def dset2_def)
    show "ds_attrs out ''title'' = Some (dname @ '' experiment'')"
      by (simp add: out_def dset2_def)
  qed
qed

lemma elements_absent:
  assumes "\<exists>k \<in> set ks. ds_variables dset k = None \<and> k \<notin> dims dset"
  shows "\<exists>k \<in> set ks. ds_variables dset k = None \<and> k \<notin> dims dset
           \<and> elements cast dset ks =
               Inl (case ds_attrs dset k of None \<Rightarrow> AttributeError ''Dataset'' k
                    | Some s \<Rightarrow> AttributeError ''str'' ''astype'')"
  using assms
proof (induction ks)
  case Nil
  thus ?case by simp
next
  case (Cons k ks)
  show ?case
  proof (cases "ds_variables dset k = None \<and> k \<notin> dims dset")
    case True
    hence "elements cast dset (k # ks) =
        Inl (case ds_attrs dset k of None \<Rightarrow> AttributeError ''Dataset'' k
             | Some s \<Rightarrow> AttributeError ''str'' ''astype'')"
      by (simp add: element_absent)
    thus ?thesis using True by (intro bexI[of _ k]) simp_all
  next
    case False
    with Cons.prems have "\<exists>k \<in> set ks. ds_variables dset k = None \<and> k \<notin> dims dset" by auto
    from Cons.IH[OF this] obtain j where j: "j \<in> set ks" "ds_variables dset j = None" "j \<notin> dims dset"
      "elements cast dset ks =
         Inl (case ds_attrs dset j of None \<Rightarrow> AttributeError ''Dataset'' j
              | Some s \<Rightarrow> AttributeError ''str'' ''astype'')"
      by blast
    have "\<exists>a. element cast dset k (target_dtype k) = Inr a"
    proof (cases "ds_variables dset k")
      case None
      with False have "k \<in> dims dset" by simp
      thus ?thesis using element_dimension[OF None] by blast
    next
      case (Some v)
      thus ?thesis using element_present[OF Some] by blast
    qed
    then obtain a where a: "element cast dset k (target_dtype k) = Inr a" ..
    have "elements cast dset (k # ks) =
         Inl (case ds_attrs dset j of None \<Rightarrow> AttributeError ''Dataset'' j
              | Some s \<Rightarrow> AttributeError ''str'' ''astype'')"
      by (simp add: a j(4))
    thus ?thesis using j(1-3) by (intro bexI[of _ j]) simp_all
  qed
qed

definition object_of :: "(dtype \<Rightarrow> 'v \<Rightarrow> 'v) \<Rightarrow> 'v dataset \<Rightarrow> string \<Rightarrow> 'v object" where
  "object_of cast dset k =
     (case ds_variables dset k of
        Some v \<Rightarrow> DataArray (downcast_object cast dset k)
      | None \<Rightarrow> DimensionIndex k (target_dtype k))"

lemma object_of_None:
  "ds_variables dset k = None \<Longrightarrow> object_of cast dset k = DimensionIndex k (target_dtype k)"
  by (simp add: object_of_def)

lemma object_of_Some:
  "ds_variables dset k = Some v \<Longrightarrow> object_of cast dset k = DataArray (downcast_object cast dset k)"
  by (simp add: object_of_def)

lemma elements_dimensions:
  assumes "\<forall>k \<in> set ks. ds_variables dset k = None \<longrightarrow> k \<in> dims dset"
  shows "elements cast dset ks = Inr (map (object_of cast dset) ks)"
  using assms
proof (induction ks)
  case Nil
  show ?case by simp
next
  case (Cons k ks)
  hence r: "elements cast dset ks = Inr (map (object_of cast dset) ks)" by simp
  show ?case
  proof (cases "ds_variables dset k")
    case None
    hence "k \<in> dims dset" using Cons.prems by simp
    from element_dimension[OF None this, of cast "target_dtype k"]
    show ?thesis by (simp add: r object_of_None[OF None])
  next
    case (Some v)
    from element_present[OF Some, of cast "target_dtype k"]
    show ?thesis by (simp add: r object_of_Some[OF Some] downcast_object_def Some)
  qed
qed

lemma dimension_index_object_of:
  "list_ex is_dimension_index (map (object_of cast dset) ks) = (\<exists>k \<in> set ks. ds_variables dset k = None)"
  by (induction ks) (auto simp: object_of_def split: option.splits)

lemma to_datasets_coordinate:
  assumes "\<exists>k \<in> set ks. k \<in> dom (ds_variables dset) \<and> k \<in> ds_coord_names dset"
  shows "\<exists>k \<in> set ks. k \<in> dom (ds_variables dset) \<and> k \<in> ds_coord_names dset
           \<and> to_datasets (map (object_of cast dset) ks) = Inl (ValueError k)"
  using assms
proof (induction ks)
  case Nil
  thus ?case by simp
next
  case (Cons k ks)
  show ?case
  proof (cases "ds_variables dset k")
    case None
    with Cons.prems have "\<exists>k \<in> set ks. k \<in> dom (ds_variables dset) \<and> k \<in> ds_coord_names dset"
      by auto
    from Cons.IH[OF this] obtain j where j: "j \<in> set ks" "j \<in> dom (ds_variables dset)"
      "j \<in> ds_coord_names dset" "to_datasets (map (object_of cast dset) ks) = Inl (ValueError j)"
      by blast
    have "to_datasets (map (object_of cast dset) (k # ks)) = Inl (ValueError j)"
      by (simp add: object_of_None[OF None] j(4))
    thus ?thesis using j(1-3) by (intro bexI[of _ j]) simp_all
  next
    case (Some v)
    show ?thesis
    proof (cases "k \<in> ds_coord_names dset")
      case True
      have "to_datasets (map (object_of cast dset) (k # ks)) = Inl (ValueError k)"
        by (simp add: object_of_Some[OF Some] to_dataset_coordinate[OF Some True])
      thus ?thesis using True Some by (intro bexI[of _ k]) auto
    next
      case False
      with Cons.prems have "\<exists>k \<in> set ks. k \<in> dom (ds_variables dset) \<and> k \<in> ds_coord_names dset"
        by auto
      from Cons.IH[OF this] obtain j where j: "j \<in> set ks" "j \<in> dom (ds_variables dset)"
        "j \<in> ds_coord_names dset" "to_datasets (map (object_of cast dset) ks) = Inl (ValueError j)"
        by blast
      have "to_datasets (map (object_of cast dset) (k # ks)) = Inl (ValueError j)"
        by (simp add: object_of_Some[OF Some] to_dataset_downcast_object[OF False] j(4))
      thus ?thesis using j(1-3) by (intro bexI[of _ j]) simp_all
    qed
  qed
qed

lemma to_datasets_object_of:
  assumes "\<forall>k \<in> set ks. k \<in> dom (ds_variables dset) \<longrightarrow> k \<notin> ds_coord_names dset"
  shows "to_datasets (map (object_of cast dset) ks)
     = Inr (map (object_dataset cast dset) (filter (\<lambda>k. ds_variables dset k \<noteq> None) ks))"
  using assms
proof (induction ks)
  case Nil
  show ?case by simp
next
  case (Cons k ks)
  hence r: "to_datasets (map (object_of cast dset) ks)
     = Inr (map (object_dataset cast dset) (filter (\<lambda>k. ds_variables dset k \<noteq> None) ks))"
    by simp
  show ?case
  proof (cases "ds_variables dset k")
    case None
    thus ?thesis by (simp add: object_of_None r)
  next
    case (Some v)
    hence "k \<notin> ds_coord_names dset" using Cons.prems by auto
    thus ?thesis by (simp add: object_of_Some[OF Some] Some r to_dataset_downcast_object)
  qed
qed

lemma merge_dimension_index:
  assumes a: "\<exists>k \<in> set targeted. ds_variables dset k = None"
    and nc: "\<forall>k \<in> set targeted. k \<in> dom (ds_variables dset) \<longrightarrow> k \<notin> ds_coord_names dset"
  shows "merge (map (object_of cast dset) targeted)
     = Inl (MergeError ''unable to determine if these variables should be coordinates or not in the merged result'')"
proof -
  let ?od = "object_dataset cast dset"
  let ?ps = "filter (\<lambda>k. ds_variables dset k \<noteq> None) targeted"
  have td: "to_datasets (map (object_of cast dset) targeted) = Inr (map ?od ?ps)"
    by (rule to_datasets_object_of[OF nc])
  have le: "ds_variables (?od k) \<subseteq>\<^sub>m expected_variables cast dset" if "k \<in> set ?ps" for k
  proof -
    from that obtain v where "k \<in> set targeted" "ds_variables dset k = Some v" by auto
    thus ?thesis by (rule object_dataset_le[OF _ _ nc])
  qed
  have m: "\<exists>r. (case map ?od ?ps of
                   [] \<Rightarrow> Inr \<lparr>ds_variables = Map.empty, ds_coord_names = {}, ds_attrs = Map.empty\<rparr>
                 | d # ds \<Rightarrow> merge_datasets d ds) = Inr r"
  proof (cases ?ps)
    case Nil
    thus ?thesis by simp
  next
    case (Cons p ps)
    have mem: "p \<in> set ?ps" "set ps \<subseteq> set ?ps" unfolding Cons by auto
    have p: "ds_variables (?od p) \<subseteq>\<^sub>m expected_variables cast dset"
      by (rule le[OF mem(1)])
    have "\<forall>d \<in> set (map ?od ps). ds_variables d \<subseteq>\<^sub>m expected_variables cast dset"
    proof
      fix d assume "d \<in> set (map ?od ps)"
      then obtain k where k: "k \<in> set ps" "d = ?od k" by auto
      from k(1) mem(2) have "k \<in> set ?ps" by (rule subsetD[rotated])
      from le[OF this] show "ds_variables d \<subseteq>\<^sub>m expected_variables cast dset"
        by (simp only: k(2))
    qed
    from merge_datasets_le[OF p this]
    have "\<exists>r. merge_datasets (?od p) (map ?od ps) = Inr r"
      by (elim exE conjE) (erule exI)
    thus ?thesis by (simp only: Cons list.map list.case)
  qed
  then obtain r where r: "(case map ?od ?ps of
                   [] \<Rightarrow> Inr \<lparr>ds_variables = Map.empty, ds_coord_names = {}, ds_attrs = Map.empty\<rparr>
                 | d # ds \<Rightarrow> merge_datasets d ds) = Inr r" ..
  have di: "list_ex is_dimension_index (map (object_of cast dset) targeted)"
    unfolding dimension_index_object_of by (rule a)
  show ?thesis unfolding merge_def td by (simp only: sum.case r di if_True)
qed

lemma merge_coordinate:
  assumes "\<exists>k \<in> set targeted. k \<in> dom (ds_variables dset) \<and> k \<in> ds_coord_names dset"
  shows "\<exists>k \<in> set targeted. k \<in> dom (ds_variables dset) \<and> k \<in> ds_coord_names dset
           \<and> merge (map (object_of cast dset) targeted) = Inl (ValueError k)"
proof -
  from to_datasets_coordinate[OF assms, of cast] obtain k where k: "k \<in> set targeted"
    "k \<in> dom (ds_variables dset)" "k \<in> ds_coord_names dset"
    "to_datasets (map (object_of cast dset) targeted) = Inl (ValueError k)"
    by blast
  have "merge (map (object_of cast dset) targeted) = Inl (ValueError k)"
    by (simp add: merge_def k(4))
  thus ?thesis using k(1-3) by (intro bexI[of _ k]) simp_all
qed

subsection \<open>Results of the cell and example datasets\<close>

text \<open>
  \<open>laser_example\<close> has the shape the notebook prints for the LASER file (two coordinates on
  \<open>obs\<close>, two variables on \<open>traj\<close>, four on \<open>obs\<close>), with integers standing for the element
  values and a conversion that wraps to 32 bits for \<open>Int32\<close>. \<open>drogue_example\<close> has one
  more data variable; \<open>missing_example\<close> lacks \<open>vn\<close>; \<open>dimension_example\<close> lacks the
  variable \<open>vn\<close> and has a variable \<open>depth\<close> on a dimension named \<open>vn\<close>;
  \<open>attribute_example\<close> lacks the variable \<open>vn\<close> and has a global attribute \<open>vn\<close>.
\<close>

definition written_variable :: "'v world \<Rightarrow> string \<Rightarrow> string \<Rightarrow> 'v variable option" where
  "written_variable w path k = (case files w path of None \<Rightarrow> None | Some ds \<Rightarrow> ds_variables ds k)"

definition written_attr :: "'v world \<Rightarrow> string \<Rightarrow> string \<Rightarrow> string option" where
  "written_attr w path k = (case files w path of None \<Rightarrow> None | Some ds \<Rightarrow> ds_attrs ds k)"

definition example_cast :: "dtype \<Rightarrow> int \<Rightarrow> int" where
  "example_cast d v = (case d of Int32 \<Rightarrow> (v + 2 ^ 31) mod 2 ^ 32 - 2 ^ 31 | _ \<Rightarrow> v)"

definition example_variable :: "string list \<Rightarrow> dtype \<Rightarrow> int list \<Rightarrow> int variable" where
  "example_variable ds t xs = \<lparr>var_dims = ds, var_dtype = t, var_data = xs, var_attrs = Map.empty\<rparr>"

definition laser_example :: "int dataset" where
  "laser_example =
     \<lparr>ds_variables =
        [''ids'' \<mapsto> example_variable [''obs''] Int64 [4, 4, 5],
         ''time'' \<mapsto> example_variable [''obs''] Datetime64 [100, 200, 100],
         ''ID'' \<mapsto> (example_variable [''traj''] Int64 [4, 5])
                    \<lparr>var_attrs := [''long_name'' \<mapsto> ''Buoy ID'', ''units'' \<mapsto> ''-'']\<rparr>,
         ''rowsize'' \<mapsto> example_variable [''traj''] Int64 [2, 4294967297],
         ''ve'' \<mapsto> example_variable [''obs''] Float64 [44, 43, 39],
         ''vn'' \<mapsto> example_variable [''obs''] Float64 [367, 357, 349],
         ''longitude'' \<mapsto> example_variable [''obs''] Float64 [-8769, -8769, -8808],
         ''latitude'' \<mapsto> example_variable [''obs''] Float64 [2904, 2905, 2829]],
      ds_coord_names = {''ids'', ''time''},
      ds_attrs = [''title'' \<mapsto> ''LASER experiment'']\<rparr>"

definition world_of :: "int dataset \<Rightarrow> int world" where
  "world_of ds = \<lparr>files = [''/Data/LASER/laser64_drogued_remove_first.nc'' \<mapsto> ds], stdout = []\<rparr>"

definition drogue_example :: "int dataset" where
  "drogue_example =
     laser_example\<lparr>ds_variables :=
       (ds_variables laser_example)(''drogue'' \<mapsto> example_variable [''obs''] Int64 [1, 1, 0])\<rparr>"

definition missing_example :: "int dataset" where
  "missing_example = laser_example\<lparr>ds_variables := (ds_variables laser_example)(''vn'' := None)\<rparr>"

definition dimension_example :: "int dataset" where
  "dimension_example =
     missing_example\<lparr>ds_variables :=
       (ds_variables missing_example)(''depth'' \<mapsto> example_variable [''vn''] Float64 [0, 15])\<rparr>"

definition attribute_example :: "int dataset" where
  "attribute_example =
     missing_example\<lparr>ds_attrs := (ds_attrs missing_example)(''vn'' \<mapsto> ''northward velocity'')\<rparr>"

lemma in_path_laser:
  "in_path ''laser'' ''_drogued_remove_first'' = ''/Data/LASER/laser64_drogued_remove_first.nc''"
  by code_simp

lemma out_path_laser:
  "out_path ''laser'' ''_drogued_remove_first'' = ''../data/laser32_drogued_remove_first.nc''"
  by (simp add: out_path_def)

text \<open>
  Claim C8, as amended. On a dataset that has the six targeted variables as data variables,
  the cell succeeds and writes one file; in it each targeted variable is the original one
  converted to its target type (\<open>ID\<close>, \<open>rowsize\<close> to \<open>Int32\<close>; \<open>ve\<close>, \<open>vn\<close>,
  \<open>longitude\<close>, \<open>latitude\<close> to \<open>Float32\<close>); every coordinate lying on the dimensions of
  a targeted variable (for the LASER file: \<open>ids\<close> and \<open>time\<close>) is a coordinate of the output
  and is unchanged; no other variable is written; and the attribute \<open>title\<close> is \<open>dname\<close>
  followed by \<open>" experiment"\<close>, which for a lower-case \<open>dname\<close> is the lower-cased
  experiment name (the upper-cased directory name of the input path).
\<close>

theorem downcast_written_output:
  assumes "files w (in_path dname suffix) = Some dset"
    and "\<forall>k \<in> set targeted. k \<in> dom (ds_variables dset) \<and> k \<notin> ds_coord_names dset"
  shows "\<exists>w' out. compress_cell cast dname suffix w = (Inr (), w')
      \<and> files w' = (files w)(out_path dname suffix \<mapsto> out)
      \<and> (\<forall>k \<in> set targeted.
            ds_variables out k = map_option (converted cast (target_dtype k)) (ds_variables dset k))
      \<and> (\<forall>c \<in> carried_coords dset. c \<in> ds_coord_names out \<and> ds_variables out c = ds_variables dset c)
      \<and> (\<forall>k. k \<notin> set targeted \<and> k \<notin> carried_coords dset \<longrightarrow> ds_variables out k = None)
      \<and> ds_attrs out ''title'' = Some (dname @ '' experiment'')
      \<and> (lower dname = dname \<longrightarrow> ds_attrs out ''title'' = Some (lower (upper dname) @ '' experiment''))"
proof -
  from downcast_written_output_aux[OF assms, of cast] obtain w' out where o:
    "compress_cell cast dname suffix w = (Inr (), w')
      \<and> files w' = (files w)(out_path dname suffix \<mapsto> out)
      \<and> (\<forall>k \<in> set targeted.
            ds_variables out k = map_option (converted cast (target_dtype k)) (ds_variables dset k))
      \<and> (\<forall>c \<in> carried_coords dset. c \<in> ds_coord_names out \<and> ds_variables out c = ds_variables dset c)
      \<and> (\<forall>k. k \<notin> set targeted \<and> k \<notin> carried_coords dset \<longrightarrow> ds_variables out k = None)
      \<and> ds_attrs out ''title'' = Some (dname @ '' experiment'')"
    by (elim exE)
  hence "ds_attrs out ''title'' = Some (dname @ '' experiment'')" by simp
  hence "lower dname = dname \<longrightarrow> ds_attrs out ''title'' = Some (lower (upper dname) @ '' experiment'')"
    by (simp add: lower_upper)
  with o show ?thesis by (intro exI[of _ w'] exI[of _ out]) simp
qed

lemma laser_example_targeted:
  "\<forall>k \<in> set targeted. k \<in> dom (ds_variables laser_example) \<and> k \<notin> ds_coord_names laser_example"
  by (simp add: targeted_def laser_example_def)

lemma laser_example_carried: "''ids'' \<in> carried_coords laser_example"
  unfolding carried_coords_def
  by (simp add: targeted_def laser_example_def example_variable_def)

lemma missing_example_absent:
  "k \<in> set targeted \<and> ds_variables missing_example k = None \<longleftrightarrow> k = ''vn''"
  by (auto simp: targeted_def missing_example_def laser_example_def)

lemma missing_example_dims: "''vn'' \<notin> dims missing_example"
  by (auto simp: dims_def missing_example_def laser_example_def example_variable_def
      split: if_splits)

lemma missing_example_attrs: "ds_attrs missing_example ''vn'' = None"
  by (simp add: missing_example_def laser_example_def)

lemma dimension_example_absent:
  "k \<in> set targeted \<and> ds_variables dimension_example k = None \<longleftrightarrow> k = ''vn''"
  by (auto simp: targeted_def dimension_example_def missing_example_def laser_example_def)

lemma dimension_example_dims: "''vn'' \<in> dims dimension_example"
  unfolding dims_def
  by (auto simp: dimension_example_def example_variable_def intro!: exI[of _ "''depth''"])

lemma dimension_example_coords:
  "k \<in> set targeted \<Longrightarrow> k \<notin> ds_coord_names dimension_example"
  by (auto simp: targeted_def dimension_example_def missing_example_def laser_example_def)

lemma attribute_example_absent:
  "k \<in> set targeted \<and> ds_variables attribute_example k = None \<longleftrightarrow> k = ''vn''"
  by (auto simp: targeted_def attribute_example_def missing_example_def laser_example_def)

lemma attribute_example_dims: "''vn'' \<notin> dims attribute_example"
  by (auto simp: dims_def attribute_example_def missing_example_def laser_example_def
      example_variable_def split: if_splits)

lemma attribute_example_attrs: "ds_attrs attribute_example ''vn'' = Some ''northward velocity''"
  by (simp add: attribute_example_def)

theorem downcast_written_output_witness:
  "files (world_of laser_example) (in_path ''laser'' ''_drogued_remove_first'') = Some laser_example
   \<and> fst (compress_cell example_cast ''laser'' ''_drogued_remove_first'' (world_of laser_example)) = Inr ()
   \<and> written_variable
        (snd (compress_cell example_cast ''laser'' ''_drogued_remove_first'' (world_of laser_example)))
        ''../data/laser32_drogued_remove_first.nc'' ''rowsize''
       = Some (example_variable [''traj''] Int32 [2, 1])
   \<and> written_variable
        (snd (compress_cell example_cast ''laser'' ''_drogued_remove_first'' (world_of laser_example)))
        ''../data/laser32_drogued_remove_first.nc'' ''ids''
       = Some (example_variable [''obs''] Int64 [4, 4, 5])
   \<and> written_attr
        (snd (compress_cell example_cast ''laser'' ''_drogued_remove_first'' (world_of laser_example)))
        ''../data/laser32_drogued_remove_first.nc'' ''title''
       = Some ''laser experiment''"
proof -
  have f: "files (world_of laser_example) (in_path ''laser'' ''_drogued_remove_first'') = Some laser_example"
    by (simp add: in_path_laser world_of_def)
  from downcast_written_output[OF f laser_example_targeted, of example_cast]
  obtain w' out where o: "compress_cell example_cast ''laser'' ''_drogued_remove_first'' (world_of laser_example) = (Inr (), w')"
    "files w' = (files (world_of laser_example))(out_path ''laser'' ''_drogued_remove_first'' \<mapsto> out)"
    "\<forall>k \<in> set targeted.
        ds_variables out k = map_option (converted example_cast (target_dtype k)) (ds_variables laser_example k)"
    "\<forall>c \<in> carried_coords laser_example. c \<in> ds_coord_names out \<and> ds_variables out c = ds_variables laser_example c"
    "ds_attrs out ''title'' = Some (''laser'' @ '' experiment'')"
    by (elim exE conjE)
  have rs: "ds_variables out ''rowsize'' = Some (example_variable [''traj''] Int32 [2, 1])"
    using o(3) by (simp add: targeted_def target_dtype_def laser_example_def converted_def
        example_variable_def example_cast_def)
  have ids: "ds_variables out ''ids'' = Some (example_variable [''obs''] Int64 [4, 4, 5])"
    using o(4) laser_example_carried by (auto simp: laser_example_def)
  show ?thesis
    using f rs ids o(5) unfolding o(1) written_variable_def written_attr_def
    by (simp add: o(2) out_path_laser)
qed

text \<open>
  The claim as first stated also promises that any variable the cell does not target is unchanged
  in the written file. The merge list names six variables only: a seventh data variable of the
  input, such as \<open>drogue\<close> here, is not in the written file at all.
\<close>

theorem downcast_drops_other_variables:
  "fst (compress_cell example_cast ''laser'' ''_drogued_remove_first'' (world_of drogue_example)) = Inr ()
   \<and> written_variable (world_of drogue_example) ''/Data/LASER/laser64_drogued_remove_first.nc'' ''drogue''
       = Some (example_variable [''obs''] Int64 [1, 1, 0])
   \<and> files (snd (compress_cell example_cast ''laser'' ''_drogued_remove_first'' (world_of drogue_example)))
        ''../data/laser32_drogued_remove_first.nc'' \<noteq> None
   \<and> written_variable
        (snd (compress_cell example_cast ''laser'' ''_drogued_remove_first'' (world_of drogue_example)))
        ''../data/laser32_drogued_remove_first.nc'' ''drogue'' = None"
proof -
  have f: "files (world_of drogue_example) (in_path ''laser'' ''_drogued_remove_first'') = Some drogue_example"
    by (simp add: in_path_laser world_of_def)
  have t: "\<forall>k \<in> set targeted. k \<in> dom (ds_variables drogue_example) \<and> k \<notin> ds_coord_names drogue_example"
    by (simp add: targeted_def drogue_example_def laser_example_def)
  have nt: "''drogue'' \<notin> set targeted \<and> ''drogue'' \<notin> carried_coords drogue_example"
    by (simp add: targeted_def carried_coords_def drogue_example_def laser_example_def)
  from downcast_written_output_aux[OF f t, of example_cast]
  obtain w' out where o: "compress_cell example_cast ''laser'' ''_drogued_remove_first'' (world_of drogue_example) = (Inr (), w')"
    "files w' = (files (world_of drogue_example))(out_path ''laser'' ''_drogued_remove_first'' \<mapsto> out)"
    "\<forall>k. k \<notin> set targeted \<and> k \<notin> carried_coords drogue_example \<longrightarrow> ds_variables out k = None"
    by (elim exE conjE)
  have d: "ds_variables out ''drogue'' = None" using o(3) nt by blast
  have i: "written_variable (world_of drogue_example) ''/Data/LASER/laser64_drogued_remove_first.nc'' ''drogue''
       = Some (example_variable [''obs''] Int64 [1, 1, 0])"
    by (simp add: written_variable_def world_of_def drogue_example_def)
  show ?thesis
    using d i unfolding o(1) written_variable_def
    by (simp add: o(2) out_path_laser)
qed

text \<open>
  Claim C9. If one of the six variables named for the downcast is absent from the source
  dataset, the cell fails, and the file store is what it was: no output file has been written
  and the source file is unmodified. The error is the one of the path the program takes:
  \<^item> if one of the absent names is not a dimension name either, the first such name ends the
    evaluation of the list: an \<^verbatim>\<open>AttributeError\<close> for the dataset and that name, or, when
    the name is a global attribute, an \<^verbatim>\<open>AttributeError\<close> for \<^verbatim>\<open>str\<close> and
    \<^verbatim>\<open>astype\<close>;
  \<^item> otherwise every absent name is a dimension name, the list is built and \<^verbatim>\<open>merge\<close>
    fails: with a \<^verbatim>\<open>ValueError\<close> when one of the named variables that are present is a
    coordinate, and else with the \<^verbatim>\<open>MergeError\<close> for the index of a dimension.
\<close>

theorem downcast_missing_variable:
  assumes "files w (in_path dname suffix) = Some dset"
    and "\<exists>k \<in> set targeted. ds_variables dset k = None"
  shows "\<exists>e. fst (compress_cell cast dname suffix w) = Inl e
     \<and> files (snd (compress_cell cast dname suffix w)) = files w
     \<and> (if \<exists>k \<in> set targeted. ds_variables dset k = None \<and> k \<notin> dims dset
         then \<exists>k \<in> set targeted. ds_variables dset k = None \<and> k \<notin> dims dset
                \<and> e = (case ds_attrs dset k of
                           None \<Rightarrow> AttributeError ''Dataset'' k
                         | Some s \<Rightarrow> AttributeError ''str'' ''astype'')
         else if \<exists>k \<in> set targeted. k \<in> dom (ds_variables dset) \<and> k \<in> ds_coord_names dset
         then \<exists>k \<in> set targeted. k \<in> dom (ds_variables dset) \<and> k \<in> ds_coord_names dset
                \<and> e = ValueError k
         else e = MergeError ''unable to determine if these variables should be coordinates or not in the merged result'')"
proof -
  define w2 where "w2 = print (PrintStr [CHR 0x0A]) (print (PrintDataset dset) w)"
  have fw: "files w2 = files w" by (simp add: w2_def print_def)
  have fail: "compress_cell cast dname suffix w = (Inl e, w2)"
    if "downcast_list cast dset = Inl e" for e
    using assms(1) that unfolding compress_cell_def open_dataset_def in_path_def
    by (simp add: Let_def w2_def)
  have fail2: "compress_cell cast dname suffix w = (Inl e, w2)"
    if "downcast_list cast dset = Inr obs" "merge obs = Inl e" for e obs
    using assms(1) that unfolding compress_cell_def open_dataset_def in_path_def
    by (simp add: Let_def w2_def)
  show ?thesis
  proof (cases "\<exists>k \<in> set targeted. ds_variables dset k = None \<and> k \<notin> dims dset")
    case True
    from elements_absent[OF True, of cast] obtain k where k: "k \<in> set targeted"
      "ds_variables dset k = None" "k \<notin> dims dset"
      "elements cast dset targeted =
         Inl (case ds_attrs dset k of None \<Rightarrow> AttributeError ''Dataset'' k
              | Some s \<Rightarrow> AttributeError ''str'' ''astype'')"
      by blast
    let ?e = "case ds_attrs dset k of None \<Rightarrow> AttributeError ''Dataset'' k
              | Some s \<Rightarrow> AttributeError ''str'' ''astype''"
    have run: "compress_cell cast dname suffix w = (Inl ?e, w2)"
      by (rule fail) (simp only: downcast_list_elements k(4))
    have "\<exists>k \<in> set targeted. ds_variables dset k = None \<and> k \<notin> dims dset
                \<and> ?e = (case ds_attrs dset k of
                           None \<Rightarrow> AttributeError ''Dataset'' k
                         | Some s \<Rightarrow> AttributeError ''str'' ''astype'')"
      using k(1-3) by (intro bexI[of _ k]) simp_all
    hence ex: "\<exists>j \<in> set targeted. ds_variables dset j = None \<and> j \<notin> dims dset
                \<and> ?e = (case ds_attrs dset j of
                           None \<Rightarrow> AttributeError ''Dataset'' j
                         | Some s \<Rightarrow> AttributeError ''str'' ''astype'')" .
    show ?thesis unfolding if_P[OF True]
    proof (intro exI[of _ ?e] conjI)
      show "fst (compress_cell cast dname suffix w) = Inl ?e" by (simp only: run fst_conv)
      show "files (snd (compress_cell cast dname suffix w)) = files w"
        by (simp only: run snd_conv fw)
      show "\<exists>j \<in> set targeted. ds_variables dset j = None \<and> j \<notin> dims dset
                \<and> ?e = (case ds_attrs dset j of
                           None \<Rightarrow> AttributeError ''Dataset'' j
                         | Some s \<Rightarrow> AttributeError ''str'' ''astype'')" by (rule ex)
    qed
  next
    case False
    hence d: "\<forall>k \<in> set targeted. ds_variables dset k = None \<longrightarrow> k \<in> dims dset" by blast
    have dl: "downcast_list cast dset = Inr (map (object_of cast dset) targeted)"
      unfolding downcast_list_elements by (rule elements_dimensions[OF d])
    show ?thesis
    proof (cases "\<exists>k \<in> set targeted. k \<in> dom (ds_variables dset) \<and> k \<in> ds_coord_names dset")
      case c: True
      from merge_coordinate[OF c, of cast] obtain k where k: "k \<in> set targeted"
        "k \<in> dom (ds_variables dset)" "k \<in> ds_coord_names dset"
        "merge (map (object_of cast dset) targeted) = Inl (ValueError k)"
        by blast
      have run: "compress_cell cast dname suffix w = (Inl (ValueError k), w2)"
        by (rule fail2[OF dl k(4)])
      have "\<exists>j \<in> set targeted. j \<in> dom (ds_variables dset) \<and> j \<in> ds_coord_names dset
                \<and> ValueError k = ValueError j"
        using k(1-3) by (intro bexI[of _ k]) simp_all
      hence ex: "\<exists>j \<in> set targeted. j \<in> dom (ds_variables dset) \<and> j \<in> ds_coord_names dset
                \<and> ValueError k = ValueError j" .
      show ?thesis unfolding if_not_P[OF False] if_P[OF c]
      proof (intro exI[of _ "ValueError k"] conjI)
        show "fst (compress_cell cast dname suffix w) = Inl (ValueError k)"
          by (simp only: run fst_conv)
        show "files (snd (compress_cell cast dname suffix w)) = files w"
          by (simp only: run snd_conv fw)
        show "\<exists>j \<in> set targeted. j \<in> dom (ds_variables dset) \<and> j \<in> ds_coord_names dset
                \<and> ValueError k = ValueError j" by (rule ex)
      qed
    next
      case c: False
      hence nc: "\<forall>k \<in> set targeted. k \<in> dom (ds_variables dset) \<longrightarrow> k \<notin> ds_coord_names dset"
        by blast
      have run: "compress_cell cast dname suffix w
          = (Inl (MergeError ''unable to determine if these variables should be coordinates or not in the merged result''), w2)"
        by (rule fail2[OF dl merge_dimension_index[OF assms(2) nc]])
      show ?thesis unfolding if_not_P[OF False] if_not_P[OF c]
      proof (intro exI[of _ "MergeError ''unable to determine if these variables should be coordinates or not in the merged result''"] conjI)
        show "fst (compress_cell cast dname suffix w)
            = Inl (MergeError ''unable to determine if these variables should be coordinates or not in the merged result'')"
          by (simp only: run fst_conv)
        show "files (snd (compress_cell cast dname suffix w)) = files w"
          by (simp only: run snd_conv fw)
      qed (rule refl)
    qed
  qed
qed

theorem downcast_missing_variable_witness:
  "files (world_of missing_example) (in_path ''laser'' ''_drogued_remove_first'') = Some missing_example
   \<and> ds_variables missing_example ''vn'' = None
   \<and> fst (compress_cell example_cast ''laser'' ''_drogued_remove_first'' (world_of missing_example))
          = Inl (AttributeError ''Dataset'' ''vn'')
   \<and> files (snd (compress_cell example_cast ''laser'' ''_drogued_remove_first'' (world_of missing_example)))
          = files (world_of missing_example)
   \<and> fst (compress_cell example_cast ''laser'' ''_drogued_remove_first'' (world_of dimension_example))
          = Inl (MergeError ''unable to determine if these variables should be coordinates or not in the merged result'')
   \<and> files (snd (compress_cell example_cast ''laser'' ''_drogued_remove_first'' (world_of dimension_example)))
          = files (world_of dimension_example)
   \<and> fst (compress_cell example_cast ''laser'' ''_drogued_remove_first'' (world_of attribute_example))
          = Inl (AttributeError ''str'' ''astype'')
   \<and> files (snd (compress_cell example_cast ''laser'' ''_drogued_remove_first'' (world_of attribute_example)))
          = files (world_of attribute_example)"
proof -
  have f: "files (world_of ds) (in_path ''laser'' ''_drogued_remove_first'') = Some ds" for ds :: "int dataset"
    by (simp add: in_path_laser world_of_def)
  have m: "ds_variables missing_example ''vn'' = None" by (simp add: missing_example_def)
  have v1: "''vn'' \<in> set targeted \<and> ds_variables missing_example ''vn'' = None"
    by (simp only: missing_example_absent)
  have a1: "\<exists>k \<in> set targeted. ds_variables missing_example k = None"
    by (rule bexI[of _ "''vn''"]) (simp_all only: v1)
  have b1: "\<exists>k \<in> set targeted. ds_variables missing_example k = None \<and> k \<notin> dims missing_example"
    by (rule bexI[of _ "''vn''"]) (simp_all only: v1 missing_example_dims simp_thms)
  from downcast_missing_variable[OF f a1, of example_cast]
  obtain e1 where e1:
    "fst (compress_cell example_cast ''laser'' ''_drogued_remove_first'' (world_of missing_example)) = Inl e1"
    "files (snd (compress_cell example_cast ''laser'' ''_drogued_remove_first'' (world_of missing_example)))
          = files (world_of missing_example)"
    "\<exists>k \<in> set targeted. ds_variables missing_example k = None \<and> k \<notin> dims missing_example
        \<and> e1 = (case ds_attrs missing_example k of
                   None \<Rightarrow> AttributeError ''Dataset'' k
                 | Some s \<Rightarrow> AttributeError ''str'' ''astype'')"
    unfolding if_P[OF b1] by (elim exE conjE)
  from e1(3) obtain k1 where k1: "k1 \<in> set targeted \<and> ds_variables missing_example k1 = None"
    "e1 = (case ds_attrs missing_example k1 of
                   None \<Rightarrow> AttributeError ''Dataset'' k1
                 | Some s \<Rightarrow> AttributeError ''str'' ''astype'')"
    by (elim bexE conjE) simp
  have "k1 = ''vn''" using k1(1) by (simp only: missing_example_absent)
  hence r1: "e1 = AttributeError ''Dataset'' ''vn''"
    using k1(2) by (simp add: missing_example_attrs)
  have v2: "''vn'' \<in> set targeted \<and> ds_variables dimension_example ''vn'' = None"
    by (simp only: dimension_example_absent)
  have a2: "\<exists>k \<in> set targeted. ds_variables dimension_example k = None"
    by (rule bexI[of _ "''vn''"]) (simp_all only: v2)
  have b2: "\<not> (\<exists>k \<in> set targeted. ds_variables dimension_example k = None \<and> k \<notin> dims dimension_example)"
  proof
    assume "\<exists>k \<in> set targeted. ds_variables dimension_example k = None \<and> k \<notin> dims dimension_example"
    then obtain k where k: "k \<in> set targeted" "ds_variables dimension_example k = None"
      "k \<notin> dims dimension_example" by (elim bexE conjE)
    from k(1,2) have "k \<in> set targeted \<and> ds_variables dimension_example k = None" by (rule conjI)
    hence "k = ''vn''" by (simp only: dimension_example_absent)
    with k(3) dimension_example_dims show False by simp
  qed
  have c2: "\<not> (\<exists>k \<in> set targeted. k \<in> dom (ds_variables dimension_example)
      \<and> k \<in> ds_coord_names dimension_example)"
  proof
    assume "\<exists>k \<in> set targeted. k \<in> dom (ds_variables dimension_example)
      \<and> k \<in> ds_coord_names dimension_example"
    then obtain k where k: "k \<in> set targeted" "k \<in> ds_coord_names dimension_example"
      by (elim bexE conjE)
    from dimension_example_coords[OF k(1)] k(2) show False by (rule notE)
  qed
  from downcast_missing_variable[OF f a2, of example_cast]
  obtain e2 where e2:
    "fst (compress_cell example_cast ''laser'' ''_drogued_remove_first'' (world_of dimension_example)) = Inl e2"
    "files (snd (compress_cell example_cast ''laser'' ''_drogued_remove_first'' (world_of dimension_example)))
          = files (world_of dimension_example)"
    "e2 = MergeError ''unable to determine if these variables should be coordinates or not in the merged result''"
    unfolding if_not_P[OF b2] if_not_P[OF c2] by (elim exE conjE)
  have v3: "''vn'' \<in> set targeted \<and> ds_variables attribute_example ''vn'' = None"
    by (simp only: attribute_example_absent)
  have a3: "\<exists>k \<in> set targeted. ds_variables attribute_example k = None"
    by (rule bexI[of _ "''vn''"]) (simp_all only: v3)
  have b3: "\<exists>k \<in> set targeted. ds_variables attribute_example k = None \<and> k \<notin> dims attribute_example"
    by (rule bexI[of _ "''vn''"]) (simp_all only: v3 attribute_example_dims simp_thms)
  from downcast_missing_variable[OF f a3, of example_cast]
  obtain e3 where e3:
    "fst (compress_cell example_cast ''laser'' ''_drogued_remove_first'' (world_of attribute_example)) = Inl e3"
    "files (snd (compress_cell example_cast ''laser'' ''_drogued_remove_first'' (world_of attribute_example)))
          = files (world_of attribute_example)"
    "\<exists>k \<in> set targeted. ds_variables attribute_example k = None \<and> k \<notin> dims attribute_example
        \<and> e3 = (case ds_attrs attribute_example k of
                   None \<Rightarrow> AttributeError ''Dataset'' k
                 | Some s \<Rightarrow> AttributeError ''str'' ''astype'')"
    unfolding if_P[OF b3] by (elim exE conjE)
  from e3(3) obtain k3 where k3: "k3 \<in> set targeted \<and> ds_variables attribute_example k3 = None"
    "e3 = (case ds_attrs attribute_example k3 of
                   None \<Rightarrow> AttributeError ''Dataset'' k3
                 | Some s \<Rightarrow> AttributeError ''str'' ''astype'')"
    by (elim bexE conjE) simp
  have "k3 = ''vn''" using k3(1) by (simp only: attribute_example_absent)
  hence r3: "e3 = AttributeError ''str'' ''astype''"
    using k3(2) by (simp add: attribute_example_attrs)
  show ?thesis
    by (simp only: f m e1(1,2) r1 e2 e3(1,2) r3 simp_thms)
qed

section \<open>The symbolic-algebra facility\<close>

text \<open>
  The second notebook declares positive real symbols and calls the computer-algebra operations
  \<^verbatim>\<open>integrate(e, (r, 0, oo))\<close> and \<^verbatim>\<open>diff(e, t)\<close>. A symbol declared
  \<^verbatim>\<open>real=True, positive=True\<close> is a real number \<open>0 < x\<close>, and an expression in the
  symbols is a function of them. The floating-point literals of the notebook (\<^verbatim>\<open>1.0\<close>,
  \<^verbatim>\<open>2.0**5\<close>, \<^verbatim>\<open>1.0/2.0\<close>, ...) are read as the real numbers they denote, and a power with
  a floating-point exponent as \<open>powr\<close>.

  The value of a definite integral over \<open>(0, \<infinity>)\<close> is given by an antiderivative on the open
  half-line and its limits at both ends: the improper integral of the fundamental theorem of
  calculus. The value is unique (\<open>has_integral_0_oo_unique\<close>), so \<open>integrate_0_oo f\<close> is
  the value of the integral whenever it exists in this sense.
\<close>

definition has_integral_0_oo :: "(real \<Rightarrow> real) \<Rightarrow> real \<Rightarrow> bool" where
  "has_integral_0_oo f L \<longleftrightarrow>
     (\<exists>F a b. (\<forall>x. 0 < x \<longrightarrow> (F has_real_derivative f x) (at x)) \<and>
        (F \<longlongrightarrow> a) (at_right 0) \<and> (F \<longlongrightarrow> b) at_top \<and> L = b - a)"

definition integrate_0_oo :: "(real \<Rightarrow> real) \<Rightarrow> real" where
  "integrate_0_oo f = (THE L. has_integral_0_oo f L)"

lemma antiderivative_const_diff:
  fixes H :: "real \<Rightarrow> real"
  assumes d: "\<And>x. 0 < x \<Longrightarrow> (H has_real_derivative 0) (at x)"
    and x: "0 < x" and y: "0 < y"
  shows "H x = H y"
proof -
  have aux: "H v = H u" if "0 < u" "u < v" for u v
  proof (rule DERIV_isconst2[of u v H])
    show "u < v" by fact
    show "continuous_on {u..v} H"
    proof (rule DERIV_continuous_on)
      fix z assume "z \<in> {u..v}"
      hence "0 < z" using that by simp
      thus "(H has_real_derivative 0) (at z within {u..v})"
        using d has_field_derivative_at_within by blast
    qed
    show "(H has_real_derivative 0) (at z)" if "u < z" "z < v" for z
      using d that \<open>0 < u\<close> by simp
    show "u \<le> v" "v \<le> v" using that by simp_all
  qed
  show ?thesis using aux[of x y] aux[of y x] x y by (cases x y rule: linorder_cases) auto
qed

lemma has_integral_0_oo_unique:
  assumes "has_integral_0_oo f L" "has_integral_0_oo f L'"
  shows "L = L'"
proof -
  from assms(1) obtain F a b where F: "\<And>x. 0 < x \<Longrightarrow> (F has_real_derivative f x) (at x)"
    "(F \<longlongrightarrow> a) (at_right 0)" "(F \<longlongrightarrow> b) at_top" "L = b - a"
    unfolding has_integral_0_oo_def by blast
  from assms(2) obtain G a' b' where G: "\<And>x. 0 < x \<Longrightarrow> (G has_real_derivative f x) (at x)"
    "(G \<longlongrightarrow> a') (at_right 0)" "(G \<longlongrightarrow> b') at_top" "L' = b' - a'"
    unfolding has_integral_0_oo_def by blast
  define H where "H = (\<lambda>x. F x - G x)"
  have dH: "(H has_real_derivative 0) (at x)" if "0 < x" for x
    using DERIV_diff[OF F(1)[OF that] G(1)[OF that]] by (simp add: H_def)
  have cH: "H x = H 1" if "0 < x" for x
    using antiderivative_const_diff[of H x 1] dH that by simp
  have l0: "(H \<longlongrightarrow> a - a') (at_right 0)"
    unfolding H_def by (intro tendsto_diff F G)
  have l0': "(H \<longlongrightarrow> H 1) (at_right 0)"
  proof -
    have "\<forall>\<^sub>F x in at_right 0. H 1 = H x"
      unfolding eventually_at_right_field
    proof (intro exI[of _ 1] conjI allI impI)
      show "H 1 = H y" if "0 < y" for y using cH[OF that] by (rule sym)
    qed simp
    thus ?thesis by (rule tendsto_cong[THEN iffD1, OF _ tendsto_const])
  qed
  have l1: "(H \<longlongrightarrow> b - b') at_top"
    unfolding H_def by (intro tendsto_diff F G)
  have l1': "(H \<longlongrightarrow> H 1) at_top"
  proof -
    have "\<forall>\<^sub>F x in at_top. H 1 = H x"
      unfolding eventually_at_top_dense
    proof (intro exI[of _ 0] allI impI)
      show "H 1 = H y" if "0 < y" for y using cH[OF that] by (rule sym)
    qed
    thus ?thesis by (rule tendsto_cong[THEN iffD1, OF _ tendsto_const])
  qed
  have "a - a' = H 1" using tendsto_unique[OF _ l0 l0'] by simp
  moreover have "b - b' = H 1" using tendsto_unique[OF _ l1 l1'] by simp
  ultimately show ?thesis using F(4) G(4) by simp
qed

lemma integrate_0_oo_eq: "has_integral_0_oo f L \<Longrightarrow> integrate_0_oo f = L"
  unfolding integrate_0_oo_def by (rule the_equality) (auto intro: has_integral_0_oo_unique)

lemma has_integral_0_oo_cong:
  assumes "has_integral_0_oo f L" "\<And>x. 0 < x \<Longrightarrow> f x = g x"
  shows "has_integral_0_oo g L"
proof -
  from assms(1) obtain F a b where F: "\<forall>x. 0 < x \<longrightarrow> (F has_real_derivative f x) (at x)"
    "(F \<longlongrightarrow> a) (at_right 0)" "(F \<longlongrightarrow> b) at_top" "L = b - a"
    unfolding has_integral_0_oo_def by blast
  have "\<forall>x. 0 < x \<longrightarrow> (F has_real_derivative g x) (at x)"
    using F(1) assms(2) by simp
  thus ?thesis unfolding has_integral_0_oo_def using F(2-4) by blast
qed

lemma has_integral_0_oo_cmult:
  assumes "has_integral_0_oo f L"
  shows "has_integral_0_oo (\<lambda>x. c * f x) (c * L)"
proof -
  from assms obtain F a b where F: "\<And>x. 0 < x \<Longrightarrow> (F has_real_derivative f x) (at x)"
    "(F \<longlongrightarrow> a) (at_right 0)" "(F \<longlongrightarrow> b) at_top" "L = b - a"
    unfolding has_integral_0_oo_def by blast
  show ?thesis unfolding has_integral_0_oo_def
  proof (intro exI conjI allI impI)
    show "((\<lambda>x. c * F x) has_real_derivative c * f x) (at x)" if "0 < x" for x
      using DERIV_cmult[OF F(1)[OF that], of c] by simp
    show "((\<lambda>x. c * F x) \<longlongrightarrow> c * a) (at_right 0)" by (intro tendsto_intros F)
    show "((\<lambda>x. c * F x) \<longlongrightarrow> c * b) at_top" by (intro tendsto_intros F)
    show "c * L = c * b - c * a" using F(4) by (simp add: right_diff_distrib)
  qed
qed

lemma has_integral_0_oo_nonneg:
  assumes "has_integral_0_oo f L" "\<And>x. 0 < x \<Longrightarrow> 0 \<le> f x"
  shows "0 \<le> L"
proof -
  from assms(1) obtain F a b where F: "\<And>x. 0 < x \<Longrightarrow> (F has_real_derivative f x) (at x)"
    "(F \<longlongrightarrow> a) (at_right 0)" "(F \<longlongrightarrow> b) at_top" "L = b - a"
    unfolding has_integral_0_oo_def by blast
  have mono: "F u \<le> F v" if "0 < u" "u \<le> v" for u v
  proof (rule DERIV_nonneg_imp_nondecreasing[OF that(2)])
    fix x assume "u \<le> x" "x \<le> v"
    hence x: "0 < x" using that(1) by simp
    show "\<exists>y. (F has_real_derivative y) (at x) \<and> 0 \<le> y"
      using F(1)[OF x] assms(2)[OF x] by blast
  qed
  have "a \<le> F 1"
  proof (rule tendsto_upperbound[OF F(2)])
    show "\<forall>\<^sub>F x in at_right 0. F x \<le> F 1"
      unfolding eventually_at_right_field
    proof (intro exI[of _ 1] conjI allI impI)
      show "F y \<le> F 1" if "0 < y" "y < 1" for y using mono[of y 1] that by simp
    qed simp
  qed simp
  moreover have "F 1 \<le> b"
  proof (rule tendsto_lowerbound[OF F(3)])
    show "\<forall>\<^sub>F x in at_top. F 1 \<le> F x"
      unfolding eventually_at_top_linorder
    proof (intro exI[of _ 1] allI impI)
      show "F 1 \<le> F y" if "1 \<le> y" for y using mono[of 1 y] that by simp
    qed
  qed simp
  ultimately show ?thesis using F(4) by simp
qed

text \<open>\<^verbatim>\<open>diff(e, t)\<close>: the derivative of an expression with respect to one symbol.\<close>

definition diff :: "(real \<Rightarrow> real) \<Rightarrow> real \<Rightarrow> real" where
  "diff f t = (THE D. (f has_real_derivative D) (at t))"

lemma diff_eq: "(f has_real_derivative D) (at t) \<Longrightarrow> diff f t = D"
  unfolding diff_def by (rule the_equality) (auto intro: DERIV_unique)

lemma diff_eq_on_pos:
  assumes "0 < t" "\<And>s. 0 < s \<Longrightarrow> f s = g s" "(g has_real_derivative D) (at t)"
  shows "diff f t = D"
proof (rule diff_eq)
  have "\<forall>\<^sub>F s in nhds t. f s = g s"
    unfolding eventually_nhds
  proof (intro exI[of _ "{0<..}"] conjI ballI)
    show "open {0::real<..}" by simp
    show "t \<in> {0<..}" using assms(1) by simp
    show "f s = g s" if "s \<in> {0<..}" for s using that assms(2) by simp
  qed
  from DERIV_cong_ev[THEN iffD2, OF refl this refl assms(3)]
  show "(f has_real_derivative D) (at t)" .
qed

subsection \<open>The integrals of \<open>v ^ n * exp (- c * v)\<close> and the substitution \<open>v = r powr \<alpha>\<close>\<close>

primrec gamma_anti :: "real \<Rightarrow> nat \<Rightarrow> real \<Rightarrow> real" where
  "gamma_anti c 0 v = - exp (- c * v) / c"
| "gamma_anti c (Suc n) v = - (v ^ Suc n * exp (- c * v)) / c + (real (Suc n) / c) * gamma_anti c n v"

lemma gamma_anti_deriv:
  assumes "c \<noteq> 0"
  shows "((\<lambda>v. gamma_anti c n v) has_real_derivative v ^ n * exp (- c * v)) (at v)"
proof (induction n)
  case 0
  have "((\<lambda>v. - exp (- c * v) / c) has_real_derivative exp (- c * v)) (at v)"
    using assms by (auto intro!: derivative_eq_intros)
  thus ?case by simp
next
  case (Suc n)
  have pw: "real n * v ^ (n - Suc 0) * v = real n * v ^ n"
    by (cases n) simp_all
  have "((\<lambda>v. - (v ^ Suc n * exp (- c * v)) / c + (real (Suc n) / c) * gamma_anti c n v)
      has_real_derivative
       - ((v ^ n + real n * v ^ (n - Suc 0) * v) * exp (- c * v) + v ^ Suc n * (exp (- c * v) * (- c))) / c
         + (real (Suc n) / c) * (v ^ n * exp (- c * v))) (at v)"
    using assms by (auto intro!: derivative_eq_intros Suc simp: field_simps)
  moreover have "- ((v ^ n + real n * v ^ (n - Suc 0) * v) * exp (- c * v) + v ^ Suc n * (exp (- c * v) * (- c))) / c
         + (real (Suc n) / c) * (v ^ n * exp (- c * v)) = v ^ Suc n * exp (- c * v)"
    unfolding pw using assms by (simp add: field_simps)
  ultimately show ?case by simp
qed

lemma gamma_anti_0: "c \<noteq> 0 \<Longrightarrow> gamma_anti c n 0 = - fact n / c ^ Suc n"
proof (induction n)
  case 0
  then show ?case by simp
next
  case (Suc n)
  have "gamma_anti c (Suc n) 0 = (real (Suc n) / c) * gamma_anti c n 0" by simp
  also have "\<dots> = (real (Suc n) / c) * (- fact n / c ^ Suc n)" using Suc by simp
  also have "\<dots> = - fact (Suc n) / c ^ Suc (Suc n)" by simp
  finally show ?case .
qed

lemma pow_exp_limit:
  fixes c :: real assumes "0 < c"
  shows "((\<lambda>v. v ^ k * exp (- c * v)) \<longlongrightarrow> 0) at_top"
proof -
  have 1: "filterlim (\<lambda>v. c * v) at_top at_top"
    using assms  by (intro filterlim_tendsto_pos_mult_at_top[OF tendsto_const] filterlim_ident) 
  have 2: "((\<lambda>v. (c * v) ^ k / exp (c * v)) \<longlongrightarrow> 0) at_top"
    using filterlim_compose[OF tendsto_power_div_exp_0 1] .
  have "((\<lambda>v. (1 / c ^ k) * ((c * v) ^ k / exp (c * v))) \<longlongrightarrow> (1 / c ^ k) * 0) at_top"
    by (intro tendsto_mult tendsto_const 2)
  moreover have "(1 / c ^ k) * ((c * v) ^ k / exp (c * v)) = v ^ k * exp (- c * v)" for v
    using assms by (simp add: power_mult_distrib exp_minus field_simps)
  ultimately show ?thesis by simp
qed

lemma gamma_anti_top:
  assumes "0 < c"
  shows "(gamma_anti c n \<longlongrightarrow> 0) at_top"
proof (induction n)
  case 0
  have "((\<lambda>v. - (v ^ 0 * exp (- c * v)) / c) \<longlongrightarrow> - 0 / c) at_top"
    by (intro tendsto_intros pow_exp_limit assms) (use assms in simp)
  moreover have "(\<lambda>v. - (v ^ 0 * exp (- c * v)) / c) = gamma_anti c 0" by (simp add: fun_eq_iff)
  ultimately show ?case by simp
next
  case (Suc n)
  have "((\<lambda>v. - (v ^ Suc n * exp (- c * v)) / c + (real (Suc n) / c) * gamma_anti c n v)
          \<longlongrightarrow> - 0 / c + (real (Suc n) / c) * 0) at_top"
    by (intro tendsto_intros pow_exp_limit assms Suc) (use assms in simp)
  moreover have "(\<lambda>v. - (v ^ Suc n * exp (- c * v)) / c + (real (Suc n) / c) * gamma_anti c n v)
     = gamma_anti c (Suc n)" by (simp add: fun_eq_iff)
  ultimately show ?case by simp
qed

lemma has_integral_0_oo_gamma:
  assumes "0 < c"
  shows "has_integral_0_oo (\<lambda>v. v ^ n * exp (- c * v)) (fact n / c ^ Suc n)"
  unfolding has_integral_0_oo_def
proof (intro exI conjI allI impI)
  show "(gamma_anti c n has_real_derivative v ^ n * exp (- c * v)) (at v)" for v
    using gamma_anti_deriv[of c n v] assms by simp
  have "(gamma_anti c n has_real_derivative 0 ^ n * exp (- c * 0)) (at 0)"
    using gamma_anti_deriv[of c n 0] assms by simp
  hence "isCont (gamma_anti c n) 0" by (rule DERIV_isCont)
  hence "(gamma_anti c n \<longlongrightarrow> gamma_anti c n 0) (at 0)" by (simp add: isCont_def)
  thus "(gamma_anti c n \<longlongrightarrow> - fact n / c ^ Suc n) (at_right 0)"
    using assms by (simp add: gamma_anti_0 filterlim_at_split)
  show "(gamma_anti c n \<longlongrightarrow> 0) at_top" by (rule gamma_anti_top[OF assms])
  show "fact n / c ^ Suc n = 0 - (- fact n / c ^ Suc n)" by simp
qed

lemma powr_at_right_0:
  assumes "0 < (\<alpha>::real)"
  shows "filterlim (\<lambda>r. r powr \<alpha>) (at_right 0) (at_right 0)"
proof (rule tendsto_imp_filterlim_at_right)
  show "((\<lambda>r. r powr \<alpha>) \<longlongrightarrow> 0) (at_right 0)"
  proof (rule tendsto_zero_powrI[OF _ tendsto_const _ assms])
    show "((\<lambda>r::real. r) \<longlongrightarrow> 0) (at_right 0)" by (simp add: tendsto_ident_at filterlim_at_split)
    show "\<forall>\<^sub>F r in at_right 0. 0 \<le> (r::real)"
      unfolding eventually_at_right_field by (intro exI[of _ 1]) simp
  qed
  show "\<forall>\<^sub>F r in at_right 0. 0 < r powr \<alpha>"
    unfolding eventually_at_right_field by (intro exI[of _ 1]) simp
qed

lemma powr_at_top:
  assumes "0 < (\<alpha>::real)"
  shows "filterlim (\<lambda>r. r powr \<alpha>) at_top at_top"
proof -
  have 1: "filterlim (\<lambda>r. \<alpha> * ln r) at_top at_top"
    using assms by (intro filterlim_tendsto_pos_mult_at_top[OF tendsto_const] ln_at_top)
  have 2: "filterlim (\<lambda>r. exp (\<alpha> * ln r)) at_top at_top"
    using filterlim_compose[OF exp_at_top 1] .
  have "\<forall>\<^sub>F r in at_top. exp (\<alpha> * ln r) = r powr \<alpha>"
    unfolding eventually_at_top_dense by (intro exI[of _ 0]) (simp add: powr_def)
  from filterlim_cong[THEN iffD1, OF refl refl this 2] show ?thesis .
qed

lemma has_integral_0_oo_powr_subst:
  assumes "has_integral_0_oo g L" "0 < \<alpha>"
  shows "has_integral_0_oo (\<lambda>r. g (r powr \<alpha>) * (\<alpha> * r powr (\<alpha> - 1))) L"
proof -
  from assms(1) obtain F a b where F: "\<And>x. 0 < x \<Longrightarrow> (F has_real_derivative g x) (at x)"
    "(F \<longlongrightarrow> a) (at_right 0)" "(F \<longlongrightarrow> b) at_top" "L = b - a"
    unfolding has_integral_0_oo_def by blast
  show ?thesis unfolding has_integral_0_oo_def
  proof (intro exI conjI allI impI)
    fix r :: real assume r: "0 < r"
    have "0 < r powr \<alpha>" using r by simp
    from DERIV_chain'[OF has_real_derivative_powr[OF r, of \<alpha>] F(1)[OF this]]
    show "((\<lambda>r. F (r powr \<alpha>)) has_real_derivative g (r powr \<alpha>) * (\<alpha> * r powr (\<alpha> - 1))) (at r)" .
  next
    show "((\<lambda>r. F (r powr \<alpha>)) \<longlongrightarrow> a) (at_right 0)"
      by (rule filterlim_compose[OF F(2) powr_at_right_0[OF assms(2)]])
    show "((\<lambda>r. F (r powr \<alpha>)) \<longlongrightarrow> b) at_top"
      by (rule filterlim_compose[OF F(3) powr_at_top[OF assms(2)]])
    show "L = b - a" by fact
  qed
qed

lemma has_integral_0_oo_powr_exp:
  assumes "0 < \<alpha>" "0 < c"
  shows "has_integral_0_oo (\<lambda>r. r powr (\<alpha> * real (Suc m) - 1) * exp (- c * r powr \<alpha>))
           (fact m / (\<alpha> * c ^ Suc m))"
proof -
  have "has_integral_0_oo (\<lambda>v. (1 / \<alpha>) * (v ^ m * exp (- c * v))) ((1 / \<alpha>) * (fact m / c ^ Suc m))"
    by (rule has_integral_0_oo_cmult[OF has_integral_0_oo_gamma[OF assms(2)]])
  from has_integral_0_oo_powr_subst[OF this assms(1)]
  have "has_integral_0_oo (\<lambda>r. (1 / \<alpha>) * ((r powr \<alpha>) ^ m * exp (- c * r powr \<alpha>)) * (\<alpha> * r powr (\<alpha> - 1)))
          ((1 / \<alpha>) * (fact m / c ^ Suc m))" .
  moreover have "(1 / \<alpha>) * ((r powr \<alpha>) ^ m * exp (- c * r powr \<alpha>)) * (\<alpha> * r powr (\<alpha> - 1))
      = r powr (\<alpha> * real (Suc m) - 1) * exp (- c * r powr \<alpha>)" if "0 < r" for r
  proof -
    have "(r powr \<alpha>) ^ m * r powr (\<alpha> - 1) = r powr (\<alpha> * real m) * r powr (\<alpha> - 1)"
      using that by (simp add: powr_realpow[symmetric] powr_powr)
    also have "\<dots> = r powr (\<alpha> * real (Suc m) - 1)"
      by (simp add: powr_add[symmetric] algebra_simps)
    finally have "(r powr \<alpha>) ^ m * r powr (\<alpha> - 1) = r powr (\<alpha> * real (Suc m) - 1)" .
    thus ?thesis using assms(1) by (simp add: mult_ac)
  qed
  ultimately have "has_integral_0_oo (\<lambda>r. r powr (\<alpha> * real (Suc m) - 1) * exp (- c * r powr \<alpha>))
          ((1 / \<alpha>) * (fact m / c ^ Suc m))"
    by (rule has_integral_0_oo_cong)
  moreover have "(1 / \<alpha>) * (fact m / c ^ Suc m) = fact m / (\<alpha> * c ^ Suc m)" by simp
  ultimately show ?thesis by simp
qed

lemma integrate_0_oo_powr_exp:
  assumes "0 < \<alpha>" "0 < c"
    and "\<And>r. 0 < r \<Longrightarrow> f r = C * (r powr (\<alpha> * real (Suc m) - 1) * exp (- c * r powr \<alpha>))"
  shows "integrate_0_oo f = C * (fact m / (\<alpha> * c ^ Suc m))"
proof (rule integrate_0_oo_eq)
  have "has_integral_0_oo (\<lambda>r. C * (r powr (\<alpha> * real (Suc m) - 1) * exp (- c * r powr \<alpha>)))
          (C * (fact m / (\<alpha> * c ^ Suc m)))"
    by (rule has_integral_0_oo_cmult[OF has_integral_0_oo_powr_exp[OF assms(1,2)]])
  thus "has_integral_0_oo f (C * (fact m / (\<alpha> * c ^ Suc m)))"
    by (rule has_integral_0_oo_cong) (simp add: assms(3))
qed

section \<open>Asymptotic diffusive regime (notebook section 2.2)\<close>

text \<open>
  \<^verbatim>\<open>
  p = 1.0 / (4*pi*k2*t) * exp(- (r**2)/(4*k2*t)) # asymptotic PDF
  ra = 2 * pi * integrate(p * r       , (r, 0, oo))
  r2 = 2 * pi * integrate(p * r**3    , (r, 0, oo))
  r4 = 2 * pi * integrate(p * r**5    , (r, 0, oo))
  rn = 2 * pi * integrate(p * r**(n+1), (r, 0, oo))
  Ku = r4 / r2**2.0
  K2 = diff(r2, t) / 2
  \<close>
\<close>

definition p_asym_diffusive :: "real \<Rightarrow> real \<Rightarrow> real \<Rightarrow> real" where
  "p_asym_diffusive k2 t r = 1 / (4 * pi * k2 * t) * exp (- (r ^ 2) / (4 * k2 * t))"

definition ra_asym_diffusive :: "real \<Rightarrow> real \<Rightarrow> real" where
  "ra_asym_diffusive k2 t = 2 * pi * integrate_0_oo (\<lambda>r. p_asym_diffusive k2 t r * r)"

definition r2_asym_diffusive :: "real \<Rightarrow> real \<Rightarrow> real" where
  "r2_asym_diffusive k2 t = 2 * pi * integrate_0_oo (\<lambda>r. p_asym_diffusive k2 t r * r ^ 3)"

definition r4_asym_diffusive :: "real \<Rightarrow> real \<Rightarrow> real" where
  "r4_asym_diffusive k2 t = 2 * pi * integrate_0_oo (\<lambda>r. p_asym_diffusive k2 t r * r ^ 5)"

definition rn_asym_diffusive :: "real \<Rightarrow> real \<Rightarrow> real \<Rightarrow> real" where
  "rn_asym_diffusive k2 t n = 2 * pi * integrate_0_oo (\<lambda>r. p_asym_diffusive k2 t r * r powr (n + 1))"

definition Ku_asym_diffusive :: "real \<Rightarrow> real \<Rightarrow> real" where
  "Ku_asym_diffusive k2 t = r4_asym_diffusive k2 t / r2_asym_diffusive k2 t powr 2"

definition K2_asym_diffusive :: "real \<Rightarrow> real \<Rightarrow> real" where
  "K2_asym_diffusive k2 t = diff (\<lambda>t. r2_asym_diffusive k2 t) t / 2"

lemma powr_odd: "0 < r \<Longrightarrow> r powr (2 * real (Suc m) - 1) = r ^ (2 * m + 1)"
proof -
  assume r: "0 < r"
  have "2 * real (Suc m) - 1 = real (2 * m + 1)" by simp
  thus ?thesis using powr_realpow[OF r, of "2 * m + 1"] by simp
qed

lemma asym_diffusive_integrand:
  assumes "0 < k2" "0 < t" "0 < r" 
  shows "p_asym_diffusive k2 t r * r ^ (2 * m + 1)
     = 1 / (4 * pi * k2 * t) * (r powr (2 * real (Suc m) - 1) * exp (- (1 / (4 * k2 * t)) * r powr 2))"
  unfolding powr_odd[OF assms(3)] using assms by (simp add: p_asym_diffusive_def)

lemma asym_diffusive_moment:
  assumes "0 < k2" "0 < t"
  shows "2 * pi * integrate_0_oo (\<lambda>r. p_asym_diffusive k2 t r * r ^ (2 * m + 1))
     = fact m * (4 * k2 * t) ^ m"
proof -
  have c: "0 < 1 / (4 * k2 * t)" using assms by simp
  have "integrate_0_oo (\<lambda>r. p_asym_diffusive k2 t r * r ^ (2 * m + 1))
     = 1 / (4 * pi * k2 * t) * (fact m / (2 * (1 / (4 * k2 * t)) ^ Suc m))"
    by (rule integrate_0_oo_powr_exp[OF _ c asym_diffusive_integrand[OF assms]]) simp
  also have "2 * pi * \<dots> = fact m * (4 * k2 * t) ^ m"
    using assms by (simp add: power_one_over field_simps)
  finally show ?thesis by simp
qed

lemma ra_asym_diffusive_eq: "0 < k2 \<Longrightarrow> 0 < t \<Longrightarrow> ra_asym_diffusive k2 t = 1"
  using asym_diffusive_moment[of k2 t 0] by (simp add: ra_asym_diffusive_def)

lemma r2_asym_diffusive_eq: "0 < k2 \<Longrightarrow> 0 < t \<Longrightarrow> r2_asym_diffusive k2 t = 4 * k2 * t"
  using asym_diffusive_moment[of k2 t 1] by (simp add: r2_asym_diffusive_def)

lemma r4_asym_diffusive_eq: "0 < k2 \<Longrightarrow> 0 < t \<Longrightarrow> r4_asym_diffusive k2 t = 32 * k2 ^ 2 * t ^ 2"
  using asym_diffusive_moment[of k2 t 2] by (simp add: r4_asym_diffusive_def power_mult_distrib fact_numeral)

text \<open>
  Claim C2. In the asymptotic diffusive regime, for all positive \<open>k2\<close> and \<open>t\<close>, the second
  moment is \<open>4 k2 t\<close>, the fourth moment is \<open>32 k2\<^sup>2 t\<^sup>2\<close>, and the kurtosis
  \<open>Ku = r4 / r2\<^sup>2\<close> is exactly 2, whatever \<open>k2\<close> and \<open>t\<close> are.
\<close>

theorem asym_diffusive_moments:
  assumes "0 < k2" "0 < t"
  shows "r2_asym_diffusive k2 t = 4 * k2 * t \<and> r4_asym_diffusive k2 t = 32 * k2 ^ 2 * t ^ 2
     \<and> Ku_asym_diffusive k2 t = 2"
proof -
  have "Ku_asym_diffusive k2 t = 32 * k2 ^ 2 * t ^ 2 / (4 * k2 * t) powr 2"
    by (simp add: Ku_asym_diffusive_def r2_asym_diffusive_eq r4_asym_diffusive_eq assms)
  also have "(4 * k2 * t) powr 2 = (4 * k2 * t) ^ 2" using assms by (simp add: powr_numeral)
  also have "32 * k2 ^ 2 * t ^ 2 / (4 * k2 * t) ^ 2 = 2" using assms by (simp add: power_mult_distrib)
  finally show ?thesis by (simp add: r2_asym_diffusive_eq r4_asym_diffusive_eq assms)
qed

theorem asym_diffusive_moments_witness:
  "r2_asym_diffusive 1 1 = 4 * 1 * 1 \<and> r4_asym_diffusive 1 1 = 32 * 1 ^ 2 * 1 ^ 2
     \<and> Ku_asym_diffusive 1 1 = 2"
  using asym_diffusive_moments[of 1 1] by simp

text \<open>
  Claim C3. In the asymptotic diffusive regime the effective diffusivity
  \<open>K2 = (d r2 / dt) / 2\<close> is \<open>2 k2\<close> for all positive \<open>k2\<close> and \<open>t\<close>: a constant that does
  not depend on \<open>t\<close>.
\<close>

theorem asym_diffusive_K2:
  assumes "0 < k2" "0 < t"
  shows "K2_asym_diffusive k2 t = 2 * k2"
proof -
  have "((\<lambda>s. 4 * k2 * s) has_real_derivative 4 * k2) (at t)"
    by (auto intro!: derivative_eq_intros)
  from diff_eq_on_pos[OF assms(2) _ this, of "\<lambda>t. r2_asym_diffusive k2 t"]
  have "diff (\<lambda>t. r2_asym_diffusive k2 t) t = 4 * k2"
    using r2_asym_diffusive_eq[OF assms(1)] by simp
  thus ?thesis by (simp add: K2_asym_diffusive_def)
qed

theorem asym_diffusive_K2_witness: "K2_asym_diffusive 1 1 = 2 * 1"
  using asym_diffusive_K2[of 1 1] by simp

section \<open>Asymptotic Garrett--Munk regime (notebook section 2.4)\<close>

text \<open>
  \<^verbatim>\<open>
  fst = 2.0**5 / (3.0 * pi * (lmbd * t)**4.0)
  scd = exp(-4.0*r**(1.0/2.0)/(lmbd * t))
  p = fst * scd
  \<close>
  followed by the same six lines for \<open>ra\<close>, \<open>r2\<close>, \<open>r4\<close>, \<open>rn\<close>, \<open>Ku\<close> and \<open>K2\<close>.
\<close>

definition fst_asym_GM :: "real \<Rightarrow> real \<Rightarrow> real" where
  "fst_asym_GM lmbd t = 2 ^ 5 / (3 * pi * (lmbd * t) powr 4)"

definition scd_asym_GM :: "real \<Rightarrow> real \<Rightarrow> real \<Rightarrow> real" where
  "scd_asym_GM lmbd t r = exp (- 4 * r powr (1 / 2) / (lmbd * t))"

definition p_asym_GM :: "real \<Rightarrow> real \<Rightarrow> real \<Rightarrow> real" where
  "p_asym_GM lmbd t r = fst_asym_GM lmbd t * scd_asym_GM lmbd t r"

definition ra_asym_GM :: "real \<Rightarrow> real \<Rightarrow> real" where
  "ra_asym_GM lmbd t = 2 * pi * integrate_0_oo (\<lambda>r. p_asym_GM lmbd t r * r)"

definition r2_asym_GM :: "real \<Rightarrow> real \<Rightarrow> real" where
  "r2_asym_GM lmbd t = 2 * pi * integrate_0_oo (\<lambda>r. p_asym_GM lmbd t r * r ^ 3)"

definition r4_asym_GM :: "real \<Rightarrow> real \<Rightarrow> real" where
  "r4_asym_GM lmbd t = 2 * pi * integrate_0_oo (\<lambda>r. p_asym_GM lmbd t r * r ^ 5)"

definition rn_asym_GM :: "real \<Rightarrow> real \<Rightarrow> real \<Rightarrow> real" where
  "rn_asym_GM lmbd t n = 2 * pi * integrate_0_oo (\<lambda>r. p_asym_GM lmbd t r * r powr (n + 1))"

definition Ku_asym_GM :: "real \<Rightarrow> real \<Rightarrow> real" where
  "Ku_asym_GM lmbd t = r4_asym_GM lmbd t / r2_asym_GM lmbd t powr 2"

definition K2_asym_GM :: "real \<Rightarrow> real \<Rightarrow> real" where
  "K2_asym_GM lmbd t = diff (\<lambda>t. r2_asym_GM lmbd t) t / 2"

definition K_asym_GM :: "real \<Rightarrow> real \<Rightarrow> real" where
  "K_asym_GM lmbd r =
     (let a = 3.28125; b = 4 in 1 / 2 * a powr (1 / b) * b * lmbd * r powr ((2 * b - 2) / b))"

lemma powr_half_exponent: "0 < r \<Longrightarrow> r powr (1 / 2 * real (Suc (2 * k + 1)) - 1) = r ^ k"
proof -
  assume r: "0 < r"
  have "1 / 2 * real (Suc (2 * k + 1)) - 1 = real k" by (simp add: add_divide_distrib)
  thus ?thesis using powr_realpow[OF r, of k] by simp
qed

lemma asym_GM_integrand:
  assumes "0 < lmbd" "0 < t" "0 < r"
  shows "p_asym_GM lmbd t r * r ^ k
     = fst_asym_GM lmbd t * (r powr (1 / 2 * real (Suc (2 * k + 1)) - 1) * exp (- (4 / (lmbd * t)) * r powr (1 / 2)))"
  unfolding powr_half_exponent[OF assms(3)]
  by (simp add: p_asym_GM_def scd_asym_GM_def)

lemma asym_GM_moment:
  assumes "0 < lmbd" "0 < t"
  shows "2 * pi * integrate_0_oo (\<lambda>r. p_asym_GM lmbd t r * r ^ Suc j)
     = 128 / 3 * fact (2 * j + 3) * (lmbd * t) ^ (2 * j) / 16 ^ (j + 2)"
proof -
  define u where "u = lmbd * t"
  define F :: real where "F = fact (2 * j + 3)"
  define P where "P = u ^ (2 * j)"
  define Q :: real where "Q = 16 ^ (j + 2)"
  have u: "0 < u" using assms by (simp add: u_def)
  have P: "0 < P" and Q: "0 < Q" using u by (simp_all add: P_def Q_def)
  have c: "0 < 4 / (lmbd * t)" using assms by simp
  have m: "2 * Suc j + 1 = 2 * j + 3" by simp
  have "integrate_0_oo (\<lambda>r. p_asym_GM lmbd t r * r ^ Suc j)
     = fst_asym_GM lmbd t * (fact (2 * Suc j + 1) / (1 / 2 * (4 / (lmbd * t)) ^ Suc (2 * Suc j + 1)))"
    by (rule integrate_0_oo_powr_exp[OF _ c asym_GM_integrand[OF assms]]) simp
  hence I: "integrate_0_oo (\<lambda>r. p_asym_GM lmbd t r * r ^ Suc j)
     = fst_asym_GM lmbd t * (F / (1 / 2 * (4 / u) ^ Suc (2 * j + 3)))"
    unfolding m F_def u_def .
  have f: "fst_asym_GM lmbd t = 32 / (3 * pi * u ^ 4)"
    using u by (simp add: fst_asym_GM_def u_def powr_numeral)
  have "Suc (2 * j + 3) = 2 * (j + 2)" by simp
  hence "(4::real) ^ Suc (2 * j + 3) = (4 ^ 2) ^ (j + 2)"
    by (simp only: power_mult)
  hence four: "(4::real) ^ Suc (2 * j + 3) = Q" by (simp add: Q_def)
  have "Suc (2 * j + 3) = 2 * j + 4" by simp
  hence "u ^ Suc (2 * j + 3) = u ^ (2 * j) * u ^ 4"
    by (simp only: power_add)
  hence up: "u ^ Suc (2 * j + 3) = P * u ^ 4" by (simp add: P_def)
  have e: "(4 / u) ^ Suc (2 * j + 3) = Q / (P * u ^ 4)"
    unfolding power_divide four up ..
  have "2 * pi * (32 / (3 * pi * u ^ 4) * (F / (1 / 2 * (Q / (P * u ^ 4))))) = 128 / 3 * F * P / Q"
    using u P Q by (simp add: field_simps)
  thus ?thesis unfolding I f e unfolding F_def P_def Q_def u_def .
qed

lemma ra_asym_GM_eq: "0 < lmbd \<Longrightarrow> 0 < t \<Longrightarrow> ra_asym_GM lmbd t = 1"
  using asym_GM_moment[of lmbd t 0] by (simp add: ra_asym_GM_def fact_numeral)

lemma r2_asym_GM_eq: "0 < lmbd \<Longrightarrow> 0 < t \<Longrightarrow> r2_asym_GM lmbd t = 105 / 32 * lmbd ^ 4 * t ^ 4"
  using asym_GM_moment[of lmbd t 2] by (simp add: r2_asym_GM_def fact_numeral power_mult_distrib)

lemma r4_asym_GM_eq:
  "0 < lmbd \<Longrightarrow> 0 < t \<Longrightarrow> r4_asym_GM lmbd t = 1703116800 / 16777216 * lmbd ^ 8 * t ^ 8"
  using asym_GM_moment[of lmbd t 4] by (simp add: r4_asym_GM_def fact_numeral power_mult_distrib)

lemma Ku_asym_GM_eq:
  assumes "0 < lmbd" "0 < t" shows "Ku_asym_GM lmbd t = 66 / 7"
proof -
  have pos: "0 < 105 / 32 * lmbd ^ 4 * t ^ 4" using assms by simp
  have "Ku_asym_GM lmbd t = (1703116800 / 16777216 * lmbd ^ 8 * t ^ 8) / (105 / 32 * lmbd ^ 4 * t ^ 4) powr 2"
    by (simp add: Ku_asym_GM_def r2_asym_GM_eq r4_asym_GM_eq assms)
  also have "(105 / 32 * lmbd ^ 4 * t ^ 4) powr 2 = (105 / 32 * lmbd ^ 4 * t ^ 4) ^ 2"
    using pos by (simp add: powr_numeral)
  also have "(1703116800 / 16777216 * lmbd ^ 8 * t ^ 8) / (105 / 32 * lmbd ^ 4 * t ^ 4) ^ 2 = 66 / 7"
    using assms by (simp add: power_mult_distrib field_simps)
  finally show ?thesis .
qed

lemma K2_asym_GM_eq:
  assumes "0 < lmbd" "0 < t" shows "K2_asym_GM lmbd t = 105 / 16 * lmbd ^ 4 * t ^ 3"
proof -
  have "((\<lambda>s. 105 / 32 * lmbd ^ 4 * s ^ 4) has_real_derivative 105 / 32 * lmbd ^ 4 * (4 * t ^ 3)) (at t)"
    by (auto intro!: derivative_eq_intros)
  from diff_eq_on_pos[OF assms(2) _ this, of "\<lambda>t. r2_asym_GM lmbd t"]
  have d: "diff (\<lambda>t. r2_asym_GM lmbd t) t = 105 / 32 * lmbd ^ 4 * (4 * t ^ 3)"
    using r2_asym_GM_eq[OF assms(1)] by simp
  show ?thesis unfolding K2_asym_GM_def d by simp
qed

text \<open>
  Claim C5. In the asymptotic Garrett--Munk regime, for all positive \<open>\<lambda>\<close> and \<open>t\<close>, the second
  moment is \<open>3.28125 \<lambda>\<^sup>4 t\<^sup>4\<close> and the kurtosis is exactly \<open>66/7\<close>, whatever \<open>\<lambda>\<close> and \<open>t\<close>
  are.
\<close>

theorem asym_GM_moments:
  assumes "0 < lmbd" "0 < t"
  shows "r2_asym_GM lmbd t = 3.28125 * lmbd ^ 4 * t ^ 4 \<and> Ku_asym_GM lmbd t = 66 / 7"
  using r2_asym_GM_eq[OF assms] Ku_asym_GM_eq[OF assms] by simp

theorem asym_GM_moments_witness:
  "r2_asym_GM 1 1 = 3.28125 * 1 ^ 4 * 1 ^ 4 \<and> Ku_asym_GM 1 1 = 66 / 7"
  using asym_GM_moments[of 1 1] by simp

section \<open>Asymptotic Richardson regime (notebook section 2.8)\<close>

text \<open>
  \<^verbatim>\<open>
  fst = 1.5**5 / (4.0 * pi * (beta * t)**3.0)
  scd = exp(-9.0*r**(2.0/3.0)/(4.0 * beta * t))
  p = fst * scd
  \<close>
  followed by the same six lines for \<open>ra\<close>, \<open>r2\<close>, \<open>r4\<close>, \<open>rn\<close>, \<open>Ku\<close> and \<open>K2\<close>.
\<close>

definition fst_asym_Richardson :: "real \<Rightarrow> real \<Rightarrow> real" where
  "fst_asym_Richardson beta t = 1.5 ^ 5 / (4 * pi * (beta * t) powr 3)"

definition scd_asym_Richardson :: "real \<Rightarrow> real \<Rightarrow> real \<Rightarrow> real" where
  "scd_asym_Richardson beta t r = exp (- 9 * r powr (2 / 3) / (4 * beta * t))"

definition p_asym_Richardson :: "real \<Rightarrow> real \<Rightarrow> real \<Rightarrow> real" where
  "p_asym_Richardson beta t r = fst_asym_Richardson beta t * scd_asym_Richardson beta t r"

definition ra_asym_Richardson :: "real \<Rightarrow> real \<Rightarrow> real" where
  "ra_asym_Richardson beta t = 2 * pi * integrate_0_oo (\<lambda>r. p_asym_Richardson beta t r * r)"

definition r2_asym_Richardson :: "real \<Rightarrow> real \<Rightarrow> real" where
  "r2_asym_Richardson beta t = 2 * pi * integrate_0_oo (\<lambda>r. p_asym_Richardson beta t r * r ^ 3)"

definition r4_asym_Richardson :: "real \<Rightarrow> real \<Rightarrow> real" where
  "r4_asym_Richardson beta t = 2 * pi * integrate_0_oo (\<lambda>r. p_asym_Richardson beta t r * r ^ 5)"

definition rn_asym_Richardson :: "real \<Rightarrow> real \<Rightarrow> real \<Rightarrow> real" where
  "rn_asym_Richardson beta t n =
     2 * pi * integrate_0_oo (\<lambda>r. p_asym_Richardson beta t r * r powr (n + 1))"

definition Ku_asym_Richardson :: "real \<Rightarrow> real \<Rightarrow> real" where
  "Ku_asym_Richardson beta t = r4_asym_Richardson beta t / r2_asym_Richardson beta t powr 2"

definition K2_asym_Richardson :: "real \<Rightarrow> real \<Rightarrow> real" where
  "K2_asym_Richardson beta t = diff (\<lambda>t. r2_asym_Richardson beta t) t / 2"

definition K_asym_Richardson :: "real \<Rightarrow> real \<Rightarrow> real" where
  "K_asym_Richardson beta r =
     (let a = 5.267489; b = 3 in 1 / 2 * a powr (1 / b) * b * beta * r powr ((2 * b - 2) / b))"

lemma powr_two_thirds_exponent:
  "0 < r \<Longrightarrow> r powr (2 / 3 * real (Suc (3 * j + 2)) - 1) = r ^ (2 * j + 1)"
proof -
  assume r: "0 < r"
  have e: "2 / 3 * real (Suc (3 * j + 2)) - 1 = real (2 * j + 1)" by (simp add: field_simps)
  show ?thesis unfolding e by (rule powr_realpow[OF r])
qed

lemma asym_Richardson_integrand:
  assumes "0 < beta" "0 < t" "0 < r"
  shows "p_asym_Richardson beta t r * r ^ (2 * j + 1)
     = fst_asym_Richardson beta t *
       (r powr (2 / 3 * real (Suc (3 * j + 2)) - 1) * exp (- (9 / (4 * beta * t)) * r powr (2 / 3)))"
  unfolding powr_two_thirds_exponent[OF assms(3)]
  by (simp add: p_asym_Richardson_def scd_asym_Richardson_def)

lemma asym_Richardson_moment:
  assumes "0 < beta" "0 < t"
  shows "2 * pi * integrate_0_oo (\<lambda>r. p_asym_Richardson beta t r * r ^ (2 * j + 1))
     = 729 / 128 * fact (3 * j + 2) * (64 / 729) ^ (j + 1) * (beta * t) ^ (3 * j)"
proof -
  define u where "u = beta * t"
  define F :: real where "F = fact (3 * j + 2)"
  define P where "P = u ^ (3 * j)"
  define Q :: real where "Q = (64 / 729) ^ (j + 1)"
  have u: "0 < u" using assms by (simp add: u_def)
  have P: "0 < P" and Q: "0 < Q" using u by (simp_all add: P_def Q_def)
  have c: "0 < 9 / (4 * beta * t)" using assms by simp
  have "integrate_0_oo (\<lambda>r. p_asym_Richardson beta t r * r ^ (2 * j + 1))
     = fst_asym_Richardson beta t * (fact (3 * j + 2) / (2 / 3 * (9 / (4 * beta * t)) ^ Suc (3 * j + 2)))"
    by (rule integrate_0_oo_powr_exp[OF _ c asym_Richardson_integrand[OF assms]]) simp
  moreover have "9 / (4 * beta * t) = 1 / (4 / 9 * u)" by (simp add: u_def)
  ultimately have I: "integrate_0_oo (\<lambda>r. p_asym_Richardson beta t r * r ^ (2 * j + 1))
     = fst_asym_Richardson beta t * (F / (2 / 3 * (1 / (4 / 9 * u)) ^ Suc (3 * j + 2)))"
    unfolding F_def by simp
  have f: "fst_asym_Richardson beta t = 243 / 32 / (4 * pi * u ^ 3)"
    using u by (simp add: fst_asym_Richardson_def u_def powr_numeral power_divide)
  have "Suc (3 * j + 2) = 3 * (j + 1)" by simp
  hence "((4 / 9)::real) ^ Suc (3 * j + 2) = ((4 / 9) ^ 3) ^ (j + 1)"
    by (simp only: power_mult)
  hence four: "((4 / 9)::real) ^ Suc (3 * j + 2) = Q" by (simp add: Q_def power_divide)
  have "Suc (3 * j + 2) = 3 * j + 3" by simp
  hence "u ^ Suc (3 * j + 2) = u ^ (3 * j) * u ^ 3"
    by (simp only: power_add)
  hence up: "u ^ Suc (3 * j + 2) = P * u ^ 3" by (simp add: P_def)
  have "(1 / (4 / 9 * u)) ^ Suc (3 * j + 2) = 1 / ((4 / 9) ^ Suc (3 * j + 2) * u ^ Suc (3 * j + 2))"
    by (simp only: power_one_over power_mult_distrib)
  hence e: "(1 / (4 / 9 * u)) ^ Suc (3 * j + 2) = 1 / (Q * (P * u ^ 3))"
    unfolding four up .
  have "2 * pi * (243 / 32 / (4 * pi * u ^ 3) * (F / (2 / 3 * (1 / (Q * (P * u ^ 3)))))) = 729 / 128 * F * Q * P"
    using u P Q by (simp add: field_simps)
  thus ?thesis unfolding I f e unfolding F_def P_def Q_def u_def .
qed

lemma ra_asym_Richardson_eq: "0 < beta \<Longrightarrow> 0 < t \<Longrightarrow> ra_asym_Richardson beta t = 1"
  using asym_Richardson_moment[of beta t 0] by (simp add: ra_asym_Richardson_def fact_numeral)

lemma r2_asym_Richardson_eq:
  "0 < beta \<Longrightarrow> 0 < t \<Longrightarrow> r2_asym_Richardson beta t = 1280 / 243 * beta ^ 3 * t ^ 3"
  using asym_Richardson_moment[of beta t 1]
  by (simp add: r2_asym_Richardson_def fact_numeral power_mult_distrib power_divide)

lemma r4_asym_Richardson_eq:
  "0 < beta \<Longrightarrow> 0 < t \<Longrightarrow> r4_asym_Richardson beta t = 82575360 / 531441 * beta ^ 6 * t ^ 6"
  using asym_Richardson_moment[of beta t 2]
  by (simp add: r4_asym_Richardson_def fact_numeral power_mult_distrib power_divide)

lemma Ku_asym_Richardson_eq:
  assumes "0 < beta" "0 < t" shows "Ku_asym_Richardson beta t = 5.6"
proof -
  have pos: "0 < 1280 / 243 * beta ^ 3 * t ^ 3" using assms by simp
  have "Ku_asym_Richardson beta t
      = (82575360 / 531441 * beta ^ 6 * t ^ 6) / (1280 / 243 * beta ^ 3 * t ^ 3) powr 2"
    by (simp add: Ku_asym_Richardson_def r2_asym_Richardson_eq r4_asym_Richardson_eq assms)
  also have "(1280 / 243 * beta ^ 3 * t ^ 3) powr 2 = (1280 / 243 * beta ^ 3 * t ^ 3) ^ 2"
    using pos by (simp add: powr_numeral)
  also have "(82575360 / 531441 * beta ^ 6 * t ^ 6) / (1280 / 243 * beta ^ 3 * t ^ 3) ^ 2 = 5.6"
    using assms by (simp add: power_mult_distrib field_simps)
  finally show ?thesis .
qed

text \<open>
  Claim C6, as amended. In the asymptotic Richardson regime, for all positive \<open>\<beta>\<close> and
  \<open>t\<close>, the second moment is \<open>1280/243 \<beta>\<^sup>3 t\<^sup>3\<close> and the kurtosis is exactly \<open>5.6\<close>, whatever
  \<open>\<beta>\<close> and \<open>t\<close> are. The fifteen digits \<open>5.26748971193416\<close> the notebook prints are the
  decimal expansion of \<open>1280/243\<close> rounded at the last printed digit: the second moment
  differs from \<open>5.26748971193416 \<beta>\<^sup>3 t\<^sup>3\<close> by at most half a unit of that digit times
  \<open>\<beta>\<^sup>3 t\<^sup>3\<close>.
\<close>

theorem asym_Richardson_moments:
  assumes "0 < beta" "0 < t"
  shows "r2_asym_Richardson beta t = 1280 / 243 * beta ^ 3 * t ^ 3
     \<and> \<bar>r2_asym_Richardson beta t - 5.26748971193416 * beta ^ 3 * t ^ 3\<bar>
           \<le> 5 / 10 ^ 15 * (beta ^ 3 * t ^ 3)
     \<and> Ku_asym_Richardson beta t = 5.6"
proof -
  have "\<bar>1280 / 243 * (beta ^ 3 * t ^ 3) - 5.26748971193416 * (beta ^ 3 * t ^ 3)\<bar>
      = \<bar>1280 / 243 - 5.26748971193416\<bar> * (beta ^ 3 * t ^ 3)"
    using assms unfolding left_diff_distrib[symmetric] abs_mult by simp
  also have "\<dots> \<le> 5 / 10 ^ 15 * (beta ^ 3 * t ^ 3)"
    using assms by (intro mult_right_mono) simp_all
  finally show ?thesis
    using r2_asym_Richardson_eq[OF assms] Ku_asym_Richardson_eq[OF assms] by (simp add: mult.assoc)
qed

text \<open>
  The claim as first stated gives the second moment as \<open>5.26748971193416 \<beta>\<^sup>3 t\<^sup>3\<close>. The
  coefficient \<open>1280/243 = 5.2674897119341563...\<close> is not that decimal: at \<open>\<beta> = t = 1\<close> the
  second moment is not \<open>5.26748971193416\<close>.
\<close>

theorem asym_Richardson_decimal_differs:
  "r2_asym_Richardson 1 1 \<noteq> 5.26748971193416 * 1 ^ 3 * 1 ^ 3"
proof -
  have "r2_asym_Richardson 1 1 = 1280 / 243 * 1 ^ 3 * 1 ^ 3"
    by (rule r2_asym_Richardson_eq) simp_all
  thus ?thesis by simp
qed

theorem asym_Richardson_moments_witness:
  "r2_asym_Richardson 1 1 = 1280 / 243 * 1 ^ 3 * 1 ^ 3
     \<and> \<bar>r2_asym_Richardson 1 1 - 5.26748971193416 * 1 ^ 3 * 1 ^ 3\<bar> \<le> 5 / 10 ^ 15 * (1 ^ 3 * 1 ^ 3)
     \<and> Ku_asym_Richardson 1 1 = 5.6"
  using asym_Richardson_moments[of 1 1] by simp

section \<open>Generalized asymptotic regime (notebook section 2.6)\<close>

text \<open>
  \<^verbatim>\<open>
  a = 2
  b = 3 - a
  fst = b / (4 * pi * gamma(4 / b) * (b**2/4 * lmbd * t)**(4/b) )
  scd = exp( -4/b**2 * r**(b/2) / (lmbd * t) )
  p = fst * scd
  \<close>
  followed by the same six lines for \<open>ra\<close>, \<open>r2\<close>, \<open>r4\<close>, \<open>rn\<close>, \<open>Ku\<close> and \<open>K2\<close>.
  The spectral slope \<open>a\<close>, assigned at the top of the cell, is an argument here. The
  computer-algebra system's \<^verbatim>\<open>gamma\<close> is Euler's integral.
\<close>

definition gamma :: "real \<Rightarrow> real" where
  "gamma z = integrate_0_oo (\<lambda>u. u powr (z - 1) * exp (- u))"

lemma gamma_4: "gamma 4 = 6"
proof -
  have "has_integral_0_oo (\<lambda>v. v ^ 3 * exp (- 1 * v)) (fact 3 / 1 ^ Suc 3)"
    by (rule has_integral_0_oo_gamma) simp
  hence "has_integral_0_oo (\<lambda>u. u powr (4 - 1) * exp (- u)) (fact 3 / 1 ^ Suc 3)"
    by (rule has_integral_0_oo_cong) (simp add: powr_numeral)
  from integrate_0_oo_eq[OF this] show ?thesis by (simp add: gamma_def fact_numeral)
qed

definition b_gen_asym :: "real \<Rightarrow> real" where
  "b_gen_asym a = 3 - a"

definition fst_gen_asym :: "real \<Rightarrow> real \<Rightarrow> real \<Rightarrow> real" where
  "fst_gen_asym a lmbd t =
     (let b = b_gen_asym a in b / (4 * pi * gamma (4 / b) * (b ^ 2 / 4 * lmbd * t) powr (4 / b)))"

definition scd_gen_asym :: "real \<Rightarrow> real \<Rightarrow> real \<Rightarrow> real \<Rightarrow> real" where
  "scd_gen_asym a lmbd t r =
     (let b = b_gen_asym a in exp (- 4 / b ^ 2 * r powr (b / 2) / (lmbd * t)))"

definition p_gen_asym :: "real \<Rightarrow> real \<Rightarrow> real \<Rightarrow> real \<Rightarrow> real" where
  "p_gen_asym a lmbd t r = fst_gen_asym a lmbd t * scd_gen_asym a lmbd t r"

definition ra_gen_asym :: "real \<Rightarrow> real \<Rightarrow> real \<Rightarrow> real" where
  "ra_gen_asym a lmbd t = 2 * pi * integrate_0_oo (\<lambda>r. p_gen_asym a lmbd t r * r)"

definition r2_gen_asym :: "real \<Rightarrow> real \<Rightarrow> real \<Rightarrow> real" where
  "r2_gen_asym a lmbd t = 2 * pi * integrate_0_oo (\<lambda>r. p_gen_asym a lmbd t r * r ^ 3)"

definition r4_gen_asym :: "real \<Rightarrow> real \<Rightarrow> real \<Rightarrow> real" where
  "r4_gen_asym a lmbd t = 2 * pi * integrate_0_oo (\<lambda>r. p_gen_asym a lmbd t r * r ^ 5)"

definition rn_gen_asym :: "real \<Rightarrow> real \<Rightarrow> real \<Rightarrow> real \<Rightarrow> real" where
  "rn_gen_asym a lmbd t n =
     2 * pi * integrate_0_oo (\<lambda>r. p_gen_asym a lmbd t r * r powr (n + 1))"

definition Ku_gen_asym :: "real \<Rightarrow> real \<Rightarrow> real \<Rightarrow> real" where
  "Ku_gen_asym a lmbd t = r4_gen_asym a lmbd t / r2_gen_asym a lmbd t powr 2"

definition K2_gen_asym :: "real \<Rightarrow> real \<Rightarrow> real \<Rightarrow> real" where
  "K2_gen_asym a lmbd t = diff (\<lambda>t. r2_gen_asym a lmbd t) t / 2"

lemma fst_gen_asym_2:
  assumes "0 < lmbd" "0 < t"
  shows "fst_gen_asym 2 lmbd t = fst_asym_GM lmbd t"
proof -
  have pos: "0 < lmbd * t" using assms by simp
  have 1: "fst_gen_asym 2 lmbd t = 1 / (24 * pi * (lmbd * t / 4) powr 4)"
    by (simp add: fst_gen_asym_def b_gen_asym_def gamma_4 Let_def)
  have 2: "(lmbd * t / 4) powr 4 = (lmbd * t) ^ 4 / 256"
    using pos by (simp add: powr_numeral power_divide)
  have 3: "(lmbd * t) powr 4 = (lmbd * t) ^ 4"
    using pos by (simp add: powr_numeral)
  show ?thesis unfolding 1 2 fst_asym_GM_def 3 using pos by simp
qed

lemma scd_gen_asym_2: "scd_gen_asym 2 lmbd t r = scd_asym_GM lmbd t r"
  by (simp add: scd_gen_asym_def scd_asym_GM_def b_gen_asym_def Let_def)

lemma p_gen_asym_2:
  assumes "0 < lmbd" "0 < t"
  shows "p_gen_asym 2 lmbd t = p_asym_GM lmbd t"
  by (simp add: fun_eq_iff p_gen_asym_def p_asym_GM_def fst_gen_asym_2[OF assms] scd_gen_asym_2)

lemma r2_gen_asym_2: "0 < lmbd \<Longrightarrow> 0 < t \<Longrightarrow> r2_gen_asym 2 lmbd t = r2_asym_GM lmbd t"
  by (simp add: r2_gen_asym_def r2_asym_GM_def p_gen_asym_2)

lemma K2_gen_asym_2:
  assumes "0 < lmbd" "0 < t" shows "K2_gen_asym 2 lmbd t = 105 / 16 * lmbd ^ 4 * t ^ 3"
proof -
  have "((\<lambda>s. 105 / 32 * lmbd ^ 4 * s ^ 4) has_real_derivative 105 / 32 * lmbd ^ 4 * (4 * t ^ 3)) (at t)"
    by (auto intro!: derivative_eq_intros)
  from diff_eq_on_pos[OF assms(2) _ this, of "\<lambda>t. r2_gen_asym 2 lmbd t"]
  have d: "diff (\<lambda>t. r2_gen_asym 2 lmbd t) t = 105 / 32 * lmbd ^ 4 * (4 * t ^ 3)"
    using r2_asym_GM_eq[OF assms(1)] r2_gen_asym_2[OF assms(1)] by simp
  show ?thesis unfolding K2_gen_asym_def d by simp
qed

text \<open>
  Claim C10. With spectral slope \<open>a = 2\<close> (so \<open>b = 1\<close>) the generalized asymptotic density is
  the asymptotic Garrett--Munk density, and the two regimes have the same normalization (1),
  second moment (\<open>3.28125 \<lambda>\<^sup>4 t\<^sup>4\<close>), fourth moment (\<open>101.513671875 \<lambda>\<^sup>8 t\<^sup>8\<close>), general
  \<open>n\<close>-th moment, kurtosis (\<open>66/7\<close>) and \<open>K2\<close> (\<open>6.5625 \<lambda>\<^sup>4 t\<^sup>3\<close>), for all positive
  \<open>\<lambda>\<close>, \<open>t\<close> and \<open>n\<close>.
\<close>

theorem gen_asym_2_is_asym_GM:
  assumes "0 < lmbd" "0 < t" "0 < n"
  shows "p_gen_asym 2 lmbd t r = p_asym_GM lmbd t r
    \<and> ra_gen_asym 2 lmbd t = ra_asym_GM lmbd t \<and> ra_gen_asym 2 lmbd t = 1
    \<and> r2_gen_asym 2 lmbd t = r2_asym_GM lmbd t \<and> r2_gen_asym 2 lmbd t = 3.28125 * lmbd ^ 4 * t ^ 4
    \<and> r4_gen_asym 2 lmbd t = r4_asym_GM lmbd t
    \<and> r4_gen_asym 2 lmbd t = 101.513671875 * lmbd ^ 8 * t ^ 8
    \<and> rn_gen_asym 2 lmbd t n = rn_asym_GM lmbd t n
    \<and> Ku_gen_asym 2 lmbd t = Ku_asym_GM lmbd t \<and> Ku_gen_asym 2 lmbd t = 66 / 7
    \<and> K2_gen_asym 2 lmbd t = K2_asym_GM lmbd t \<and> K2_gen_asym 2 lmbd t = 6.5625 * lmbd ^ 4 * t ^ 3"
proof -
  note p = p_gen_asym_2[OF assms(1,2)]
  have ra: "ra_gen_asym 2 lmbd t = ra_asym_GM lmbd t"
    by (simp add: ra_gen_asym_def ra_asym_GM_def p)
  have r2: "r2_gen_asym 2 lmbd t = r2_asym_GM lmbd t"
    by (simp add: r2_gen_asym_def r2_asym_GM_def p)
  have r4: "r4_gen_asym 2 lmbd t = r4_asym_GM lmbd t"
    by (simp add: r4_gen_asym_def r4_asym_GM_def p)
  have rn: "rn_gen_asym 2 lmbd t n = rn_asym_GM lmbd t n"
    by (simp add: rn_gen_asym_def rn_asym_GM_def p)
  have Ku: "Ku_gen_asym 2 lmbd t = Ku_asym_GM lmbd t"
    by (simp add: Ku_gen_asym_def Ku_asym_GM_def r2 r4)
  have K2: "K2_gen_asym 2 lmbd t = K2_asym_GM lmbd t"
    by (simp add: K2_gen_asym_2 K2_asym_GM_eq assms)
  have "p_gen_asym 2 lmbd t r = p_asym_GM lmbd t r" by (simp add: p)
  moreover have "ra_gen_asym 2 lmbd t = 1" by (simp add: ra ra_asym_GM_eq assms)
  moreover have "r2_gen_asym 2 lmbd t = 3.28125 * lmbd ^ 4 * t ^ 4"
    by (simp add: r2 r2_asym_GM_eq assms)
  moreover have "r4_gen_asym 2 lmbd t = 101.513671875 * lmbd ^ 8 * t ^ 8"
    by (simp add: r4 r4_asym_GM_eq assms)
  moreover have "Ku_gen_asym 2 lmbd t = 66 / 7" by (simp add: Ku Ku_asym_GM_eq assms)
  moreover have "K2_gen_asym 2 lmbd t = 6.5625 * lmbd ^ 4 * t ^ 3"
    by (simp add: K2_gen_asym_2 assms)
  ultimately show ?thesis using ra r2 r4 rn Ku K2 by blast
qed

theorem gen_asym_2_is_asym_GM_witness:
  "p_gen_asym 2 1 1 1 = p_asym_GM 1 1 1
    \<and> ra_gen_asym 2 1 1 = ra_asym_GM 1 1 \<and> ra_gen_asym 2 1 1 = 1
    \<and> r2_gen_asym 2 1 1 = r2_asym_GM 1 1 \<and> r2_gen_asym 2 1 1 = 3.28125
    \<and> r4_gen_asym 2 1 1 = r4_asym_GM 1 1
    \<and> r4_gen_asym 2 1 1 = 101.513671875
    \<and> rn_gen_asym 2 1 1 1 = rn_asym_GM 1 1 1
    \<and> Ku_gen_asym 2 1 1 = Ku_asym_GM 1 1 \<and> Ku_gen_asym 2 1 1 = 66 / 7
    \<and> K2_gen_asym 2 1 1 = K2_asym_GM 1 1 \<and> K2_gen_asym 2 1 1 = 6.5625"
  using gen_asym_2_is_asym_GM[of 1 1 1 1] by simp

section \<open>Modified Bessel functions of the first kind\<close>

text \<open>
  The "full" regimes use the computer-algebra system's \<^verbatim>\<open>besseli(nu, z)\<close>, the modified Bessel
  function of the first kind, which is the series
  \<open>\<Sum>k. (z/2) ^ (2k + \<nu>) / (k! \<Gamma>(k + \<nu> + 1))\<close> (\<open>besseli\<close> below). For an order
  \<open>n = 0, 1, 2, ...\<close> and a positive argument it is \<open>(z/2) ^ n\<close> times the everywhere
  convergent power series \<open>bessel_g n\<close> in \<open>(z/2)\<^sup>2\<close>. This section derives, from the series
  alone, the integrals \<open>\<integral> s ^ (n+1) exp (- q s\<^sup>2) I\<^sub>n (c s) ds\<close> over \<open>(0, \<infinity>)\<close>.
\<close>

subsection \<open>The power series and its recurrence\<close>

definition bessel_coeff :: "nat \<Rightarrow> nat \<Rightarrow> real" where
  "bessel_coeff n k = 1 / (fact k * fact (k + n))"

definition bessel_g :: "nat \<Rightarrow> real \<Rightarrow> real" where
  "bessel_g n z = (\<Sum>k. bessel_coeff n k * z ^ k)"

lemma bessel_coeff_pos: "0 < bessel_coeff n k"
  by (simp add: bessel_coeff_def)

lemma bessel_coeff_le: "bessel_coeff n k \<le> inverse (fact k)"
proof -
  have "(1::real) \<le> fact (k + n)" by (simp add: fact_ge_1)
  hence "(fact k :: real) * 1 \<le> fact k * fact (k + n)"
    by (intro mult_left_mono) simp_all
  thus ?thesis unfolding bessel_coeff_def by (simp add: field_simps)
qed

lemma summable_bessel: "summable (\<lambda>k. bessel_coeff n k * z ^ k)"
proof (rule summable_comparison_test)
  show "summable (\<lambda>k. inverse (fact k) * \<bar>z\<bar> ^ k)" by (rule summable_exp)
  show "\<exists>N. \<forall>k\<ge>N. norm (bessel_coeff n k * z ^ k) \<le> inverse (fact k) * \<bar>z\<bar> ^ k"
  proof (intro exI[of _ 0] allI impI)
    fix k
    have "norm (bessel_coeff n k * z ^ k) = bessel_coeff n k * \<bar>z\<bar> ^ k"
      using bessel_coeff_pos[of n k] by (simp add: abs_mult power_abs)
    also have "\<dots> \<le> inverse (fact k) * \<bar>z\<bar> ^ k"
      by (intro mult_right_mono bessel_coeff_le) simp
    finally show "norm (bessel_coeff n k * z ^ k) \<le> inverse (fact k) * \<bar>z\<bar> ^ k" .
  qed
qed

lemma diffs_bessel_coeff: "diffs (bessel_coeff n) = bessel_coeff (Suc n)"
proof
  fix k
  define a where "a = real (Suc k)"
  define A :: real where "A = fact k"
  define C :: real where "C = fact (k + Suc n)"
  have pos: "0 < a" "0 < A" "0 < C" by (simp_all add: a_def A_def C_def)
  have "a / (a * A * C) = 1 / (A * C)" using pos by simp
  moreover have "(fact (Suc k) :: real) = a * A" by (simp add: a_def A_def)
  moreover have "Suc k + n = k + Suc n" by simp
  ultimately have "real (Suc k) / (fact (Suc k) * fact (Suc k + n)) = 1 / (fact k * fact (k + Suc n))"
    by (simp only: a_def A_def C_def)
  thus "diffs (bessel_coeff n) k = bessel_coeff (Suc n) k"
    by (simp add: diffs_def bessel_coeff_def)
qed

lemma bessel_g_deriv: "(bessel_g n has_real_derivative bessel_g (Suc n) z) (at z)"
proof -
  have "((\<lambda>z. \<Sum>k. bessel_coeff n k * z ^ k) has_field_derivative
      (\<Sum>k. diffs (bessel_coeff n) k * z ^ k)) (at z)"
    by (rule termdiffs_strong_converges_everywhere) (rule summable_bessel)
  thus ?thesis
    unfolding diffs_bessel_coeff bessel_g_def[abs_def] .
qed

lemma bessel_coeff_rec:
  "bessel_coeff n (Suc k) = real (Suc n) * bessel_coeff (Suc n) (Suc k) + bessel_coeff (Suc (Suc n)) k"
proof -
  define a where "a = real (Suc k)"
  define b where "b = real (k + n + 2)"
  define A :: real where "A = fact k"
  define B :: real where "B = fact (Suc k + n)"
  have pos: "0 < a" "0 < b" "0 < A" "0 < B" by (simp_all add: a_def b_def A_def B_def)
  have sn: "real (Suc n) = b - a" by (simp add: a_def b_def)
  have e1: "(fact (Suc k + Suc n) :: real) = b * B"
    by (simp add: b_def B_def algebra_simps)
  have e2: "(fact (k + Suc (Suc n)) :: real) = b * B"
    by (simp add: b_def B_def algebra_simps)
  have e3: "(fact (Suc k) :: real) = a * A" by (simp add: a_def A_def)
  have "1 / (a * A * B) = (b - a) * (1 / (a * A * (b * B))) + 1 / (A * (b * B))"
    using pos by (simp add: field_simps)
  thus ?thesis
    unfolding bessel_coeff_def e1 e2 e3 sn B_def[symmetric] A_def[symmetric] .
qed

lemma bessel_coeff_rec0: "bessel_coeff n 0 = real (Suc n) * bessel_coeff (Suc n) 0"
  by (simp add: bessel_coeff_def)

lemma bessel_g_rec:
  "bessel_g n z = real (Suc n) * bessel_g (Suc n) z + z * bessel_g (Suc (Suc n)) z"
proof -
  let ?f = "\<lambda>m k. bessel_coeff m k * z ^ k"
  have s: "summable (?f m)" for m by (rule summable_bessel)
  have h: "(\<Sum>k. ?f m (Suc k)) = bessel_g m z - bessel_coeff m 0" for m
    using suminf_split_head[OF s[of m]] by (simp add: bessel_g_def)
  have sh: "summable (\<lambda>k. ?f m (Suc k))" for m
    by (rule summable_Suc_iff[of "\<lambda>k. bessel_coeff m k * z ^ k", THEN iffD2, OF s])
  have s2: "summable (\<lambda>k. z * ?f (Suc (Suc n)) k)" by (rule summable_mult[OF s])
  have t: "?f n (Suc k) = real (Suc n) * ?f (Suc n) (Suc k) + z * ?f (Suc (Suc n)) k" for k
    unfolding bessel_coeff_rec[of n k] by (simp add: algebra_simps)
  have "bessel_g n z - bessel_coeff n 0 = (\<Sum>k. ?f n (Suc k))" by (simp only: h)
  also have "\<dots> = (\<Sum>k. real (Suc n) * ?f (Suc n) (Suc k) + z * ?f (Suc (Suc n)) k)"
    by (simp only: t)
  also have "\<dots> = (\<Sum>k. real (Suc n) * ?f (Suc n) (Suc k)) + (\<Sum>k. z * ?f (Suc (Suc n)) k)"
    by (rule suminf_add[symmetric, OF summable_mult[OF sh] s2])
  also have "(\<Sum>k. real (Suc n) * ?f (Suc n) (Suc k)) = real (Suc n) * (\<Sum>k. ?f (Suc n) (Suc k))"
    by (rule suminf_mult[OF sh])
  also have "(\<Sum>k. z * ?f (Suc (Suc n)) k) = z * bessel_g (Suc (Suc n)) z"
    unfolding bessel_g_def by (rule suminf_mult[OF s])
  finally have "bessel_g n z - bessel_coeff n 0
      = real (Suc n) * (bessel_g (Suc n) z - bessel_coeff (Suc n) 0) + z * bessel_g (Suc (Suc n)) z"
    by (simp only: h)
  thus ?thesis using bessel_coeff_rec0[of n] by (simp add: algebra_simps)
qed

subsection \<open>Sums of integrals, growth of the series, decay against a Gaussian\<close>

lemma has_integral_0_ooI:
  assumes "\<And>x. 0 < x \<Longrightarrow> (F has_real_derivative f x) (at x)"
    and "(F \<longlongrightarrow> a) (at_right 0)" "(F \<longlongrightarrow> b) at_top"
  shows "has_integral_0_oo f (b - a)"
  unfolding has_integral_0_oo_def using assms by blast

lemma has_integral_0_oo_add:
  assumes "has_integral_0_oo f L" "has_integral_0_oo g M"
  shows "has_integral_0_oo (\<lambda>x. f x + g x) (L + M)"
proof -
  from assms(1) obtain F a b where F: "\<And>x. 0 < x \<Longrightarrow> (F has_real_derivative f x) (at x)"
    "(F \<longlongrightarrow> a) (at_right 0)" "(F \<longlongrightarrow> b) at_top" "L = b - a"
    unfolding has_integral_0_oo_def by blast
  from assms(2) obtain G a' b' where G: "\<And>x. 0 < x \<Longrightarrow> (G has_real_derivative g x) (at x)"
    "(G \<longlongrightarrow> a') (at_right 0)" "(G \<longlongrightarrow> b') at_top" "M = b' - a'"
    unfolding has_integral_0_oo_def by blast
  have "has_integral_0_oo (\<lambda>x. f x + g x) ((b + b') - (a + a'))"
  proof (rule has_integral_0_ooI)
    show "((\<lambda>x. F x + G x) has_real_derivative f x + g x) (at x)" if "0 < x" for x
      by (rule DERIV_add[OF F(1)[OF that] G(1)[OF that]])
    show "((\<lambda>x. F x + G x) \<longlongrightarrow> a + a') (at_right 0)" by (intro tendsto_add F G)
    show "((\<lambda>x. F x + G x) \<longlongrightarrow> b + b') at_top" by (intro tendsto_add F G)
  qed
  moreover have "(b + b') - (a + a') = L + M" using F(4) G(4) by simp
  ultimately show ?thesis by simp
qed

lemma exp_term_le:
  assumes "0 \<le> (u::real)"
  shows "inverse (fact k) * u ^ k \<le> exp u"
proof -
  have s: "summable (\<lambda>n. inverse (fact n) * u ^ n)" by (rule summable_exp)
  have "(\<Sum>i\<in>{k}. inverse (fact i) * u ^ i) \<le> (\<Sum>n. inverse (fact n) * u ^ n)"
    by (rule sum_le_suminf[OF s]) (use assms in simp_all)
  thus ?thesis by (simp add: exp_def)
qed

lemma bessel_g_nonneg: "0 \<le> z \<Longrightarrow> 0 \<le> bessel_g n z"
  unfolding bessel_g_def
  by (intro suminf_nonneg summable_bessel mult_nonneg_nonneg zero_le_power less_imp_le[OF bessel_coeff_pos])

lemma bessel_g_le_exp:
  assumes "0 \<le> u"
  shows "bessel_g n (u ^ 2) \<le> exp (2 * u)"
proof -
  have t: "bessel_coeff n k * (u ^ 2) ^ k \<le> exp u * (inverse (fact k) * u ^ k)" for k
  proof -
    have "bessel_coeff n k \<le> inverse (fact k) * inverse (fact k)"
    proof -
      have "(fact k :: real) \<le> fact (k + n)" by (rule fact_mono) simp
      hence "(fact k :: real) * fact k \<le> fact k * fact (k + n)"
        by (intro mult_left_mono) simp_all
      thus ?thesis unfolding bessel_coeff_def by (simp add: field_simps)
    qed
    hence "bessel_coeff n k * (u ^ k * u ^ k) \<le> (inverse (fact k) * inverse (fact k)) * (u ^ k * u ^ k)"
      using assms by (intro mult_right_mono) simp_all
    also have "\<dots> = (inverse (fact k) * u ^ k) * (inverse (fact k) * u ^ k)" by simp
    also have "\<dots> \<le> exp u * (inverse (fact k) * u ^ k)"
      using assms by (intro mult_right_mono exp_term_le) simp_all
    finally have "bessel_coeff n k * (u ^ k * u ^ k) \<le> exp u * (inverse (fact k) * u ^ k)" .
    moreover have "(u ^ 2) ^ k = u ^ k * u ^ k"
      by (simp add: power2_eq_square power_mult_distrib)
    ultimately show ?thesis by simp
  qed
  have "bessel_g n (u ^ 2) \<le> (\<Sum>k. exp u * (inverse (fact k) * u ^ k))"
    unfolding bessel_g_def
    by (rule suminf_le[OF t summable_bessel summable_mult[OF summable_exp]])
  also have "\<dots> = exp u * exp u"
    unfolding suminf_mult[OF summable_exp] by (simp add: exp_def)
  finally show ?thesis by (simp add: exp_add[symmetric])
qed

lemma pow_gauss_limit:
  fixes q c :: real
  assumes "0 < q"
  shows "((\<lambda>s. s ^ m * exp (- q * s ^ 2 + c * s)) \<longlongrightarrow> 0) at_top"
proof (rule tendsto_sandwich[where f = "\<lambda>s::real. 0::real" and h = "\<lambda>s::real. s ^ m * exp (- 1 * s)"])
  show "((\<lambda>s::real. 0) \<longlongrightarrow> (0::real)) at_top" by simp
  show "((\<lambda>s::real. s ^ m * exp (- 1 * s)) \<longlongrightarrow> 0) at_top"
    using pow_exp_limit[of 1 m] by simp
  show "\<forall>\<^sub>F s in at_top. 0 \<le> s ^ m * exp (- q * s ^ 2 + c * s)"
    unfolding eventually_at_top_linorder by (intro exI[of _ 0]) simp
  show "\<forall>\<^sub>F s in at_top. s ^ m * exp (- q * s ^ 2 + c * s) \<le> s ^ m * exp (- 1 * s)"
    unfolding eventually_at_top_linorder
  proof (intro exI[of _ "max 0 ((c + 1) / q)"] allI impI)
    fix s assume s: "max 0 ((c + 1) / q) \<le> s"
    hence s0: "0 \<le> s" and s1: "(c + 1) / q \<le> s" by simp_all
    have "c + 1 \<le> q * s" using s1 assms by (simp add: field_simps)
    hence "(c + 1) * s \<le> (q * s) * s" using s0 by (intro mult_right_mono)
    hence "- q * s ^ 2 + c * s \<le> - 1 * s" by (simp add: power2_eq_square algebra_simps)
    thus "s ^ m * exp (- q * s ^ 2 + c * s) \<le> s ^ m * exp (- 1 * s)"
      using s0 by (intro mult_left_mono) simp_all
  qed
qed

subsection \<open>An antiderivative of \<open>s exp (- q s\<^sup>2) I\<^sub>0 (c s)\<close>\<close>

text \<open>
  With \<open>y = c\<^sup>2 / (4 q)\<close> and \<open>x = q s\<^sup>2\<close>, the function \<open>- exp (- x) S x / (2 q)\<close> is an
  antiderivative, where \<open>S x = \<Sum>j. t j x ^ j / j!\<close> and \<open>t j\<close> is the tail
  \<open>\<Sum>k\<ge>j. y ^ k / k!\<close> of the exponential series: \<open>S - S'\<close> has the coefficients
  \<open>(t j - t (j+1)) / j! = y ^ j / (j!)\<^sup>2\<close> of \<open>bessel_g 0 (x y)\<close>. It tends to 0 at
  infinity because the tails \<open>t j\<close> tend to 0.
\<close>

definition exp_tail :: "real \<Rightarrow> nat \<Rightarrow> real" where
  "exp_tail y j = (\<Sum>k. inverse (fact (k + j)) * y ^ (k + j))"

lemma summable_exp_shift: "summable (\<lambda>k. inverse (fact (k + j)) * (y::real) ^ (k + j))"
  by (rule summable_ignore_initial_segment[OF summable_exp])

lemma exp_tail_0: "exp_tail y 0 = exp y"
  by (simp add: exp_tail_def exp_def)

lemma exp_tail_Suc: "exp_tail y j = inverse (fact j) * y ^ j + exp_tail y (Suc j)"
proof -
  have "(\<Sum>k. inverse (fact (Suc k + j)) * y ^ (Suc k + j))
      = (\<Sum>k. inverse (fact (k + j)) * y ^ (k + j)) - inverse (fact (0 + j)) * y ^ (0 + j)"
    by (rule suminf_split_head[OF summable_exp_shift])
  thus ?thesis by (simp add: exp_tail_def)
qed

lemma exp_tail_nonneg: "0 \<le> y \<Longrightarrow> 0 \<le> exp_tail y j"
  unfolding exp_tail_def by (intro suminf_nonneg summable_exp_shift) simp

lemma exp_tail_le: 
  assumes "0 \<le> y" shows "exp_tail y j \<le> exp y"
proof -
  have "exp_tail y j = exp y - (\<Sum>i<j. inverse (fact i) * y ^ i)"
    unfolding exp_tail_def exp_def
    using suminf_minus_initial_segment[OF summable_exp[of y], of j] by simp
  moreover have "0 \<le> (\<Sum>i<j. inverse (fact i) * y ^ i)"
    using assms by (intro sum_nonneg) simp
  ultimately show ?thesis by simp
qed

lemma exp_tail_small:
  assumes "0 \<le> y" "0 < e"
  shows "\<exists>J. \<forall>j\<ge>J. exp_tail y j < e"
proof -
  from suminf_exist_split[OF assms(2) summable_exp, of y]
  obtain N where N: "\<forall>n\<ge>N. norm (\<Sum>i. inverse (fact (i + n)) * y ^ (i + n)) < e" by blast
  show ?thesis
  proof (intro exI[of _ N] allI impI)
    fix j assume "N \<le> j"
    with N have "norm (exp_tail y j) < e" by (simp add: exp_tail_def)
    thus "exp_tail y j < e" by simp
  qed
qed

definition rice_coeff :: "real \<Rightarrow> nat \<Rightarrow> real" where
  "rice_coeff y j = exp_tail y j / fact j"

definition rice_S :: "real \<Rightarrow> real \<Rightarrow> real" where
  "rice_S y x = (\<Sum>j. rice_coeff y j * x ^ j)"

lemma summable_rice:
  assumes "0 \<le> y"
  shows "summable (\<lambda>j. rice_coeff y j * x ^ j)"
proof (rule summable_comparison_test)
  show "summable (\<lambda>j. exp y * (inverse (fact j) * \<bar>x\<bar> ^ j))"
    by (rule summable_mult[OF summable_exp])
  show "\<exists>N. \<forall>j\<ge>N. norm (rice_coeff y j * x ^ j) \<le> exp y * (inverse (fact j) * \<bar>x\<bar> ^ j)"
  proof (intro exI[of _ 0] allI impI)
    fix j
    have "norm (rice_coeff y j * x ^ j) = exp_tail y j * (inverse (fact j) * \<bar>x\<bar> ^ j)"
      using exp_tail_nonneg[OF assms, of j]
      by (simp add: rice_coeff_def abs_mult power_abs divide_inverse)
    also have "\<dots> \<le> exp y * (inverse (fact j) * \<bar>x\<bar> ^ j)"
      by (intro mult_right_mono exp_tail_le[OF assms]) simp
    finally show "norm (rice_coeff y j * x ^ j) \<le> exp y * (inverse (fact j) * \<bar>x\<bar> ^ j)" .
  qed
qed

lemma diffs_rice_coeff: "diffs (rice_coeff y) j = exp_tail y (Suc j) / fact j"
proof -
  define a where "a = real (Suc j)"
  define A :: real where "A = fact j"
  have pos: "0 < a" "0 < A" by (simp_all add: a_def A_def)
  have "a * (exp_tail y (Suc j) / (a * A)) = exp_tail y (Suc j) / A" using pos by simp
  moreover have "(fact (Suc j) :: real) = a * A" by (simp add: a_def A_def)
  ultimately show ?thesis by (simp add: diffs_def rice_coeff_def a_def A_def)
qed

lemma rice_S_deriv:
  assumes "0 \<le> y"
  shows "(rice_S y has_real_derivative (\<Sum>j. diffs (rice_coeff y) j * x ^ j)) (at x)"
proof -
  have "((\<lambda>x. \<Sum>j. rice_coeff y j * x ^ j) has_field_derivative
      (\<Sum>j. diffs (rice_coeff y) j * x ^ j)) (at x)"
    by (rule termdiffs_strong_converges_everywhere) (rule summable_rice[OF assms])
  thus ?thesis unfolding rice_S_def[abs_def] .
qed

lemma rice_S_minus_deriv:
  assumes "0 \<le> y"
  shows "rice_S y x - (\<Sum>j. diffs (rice_coeff y) j * x ^ j) = bessel_g 0 (x * y)"
proof -
  have s1: "summable (\<lambda>j. rice_coeff y j * x ^ j)" by (rule summable_rice[OF assms])
  have s2: "summable (\<lambda>j. diffs (rice_coeff y) j * x ^ j)"
    by (rule termdiff_converges_all) (rule summable_rice[OF assms])
  have t: "rice_coeff y j * x ^ j - diffs (rice_coeff y) j * x ^ j = bessel_coeff 0 j * (x * y) ^ j" for j
  proof -
    have "rice_coeff y j - diffs (rice_coeff y) j = (exp_tail y j - exp_tail y (Suc j)) / fact j"
      by (simp add: rice_coeff_def diffs_rice_coeff diff_divide_distrib)
    also have "exp_tail y j - exp_tail y (Suc j) = inverse (fact j) * y ^ j"
      using exp_tail_Suc[of y j] by simp
    finally have d: "rice_coeff y j - diffs (rice_coeff y) j = bessel_coeff 0 j * y ^ j"
      by (simp add: bessel_coeff_def divide_inverse mult_ac)
    have "rice_coeff y j * x ^ j - diffs (rice_coeff y) j * x ^ j
        = (rice_coeff y j - diffs (rice_coeff y) j) * x ^ j"
      by (rule left_diff_distrib[symmetric])
    also have "\<dots> = bessel_coeff 0 j * y ^ j * x ^ j" unfolding d ..
    also have "\<dots> = bessel_coeff 0 j * (x * y) ^ j" by (simp add: power_mult_distrib mult_ac)
    finally show ?thesis .
  qed
  have "rice_S y x - (\<Sum>j. diffs (rice_coeff y) j * x ^ j)
      = (\<Sum>j. rice_coeff y j * x ^ j - diffs (rice_coeff y) j * x ^ j)"
    unfolding rice_S_def by (rule suminf_diff[OF s1 s2])
  also have "\<dots> = bessel_g 0 (x * y)" unfolding t bessel_g_def ..
  finally show ?thesis .
qed

lemma rice_S_0: "rice_S y 0 = exp y"
proof -
  have "(\<Sum>j. rice_coeff y j * 0 ^ j) = rice_coeff y 0" by (rule powser_zero)
  thus ?thesis by (simp add: rice_S_def rice_coeff_def exp_tail_0)
qed

lemma rice_coeff_nonneg: "0 \<le> y \<Longrightarrow> 0 \<le> rice_coeff y j"
  by (simp add: rice_coeff_def exp_tail_nonneg)

lemma rice_S_nonneg: "0 \<le> y \<Longrightarrow> 0 \<le> x \<Longrightarrow> 0 \<le> rice_S y x"
  unfolding rice_S_def
  by (intro suminf_nonneg summable_rice mult_nonneg_nonneg rice_coeff_nonneg zero_le_power)

lemma rice_S_bound:
  assumes y: "0 \<le> y" and x: "0 \<le> x" and e: "\<forall>j\<ge>J. exp_tail y j \<le> e"
  shows "rice_S y x \<le> exp y * (\<Sum>j<J. inverse (fact j) * x ^ j) + e * exp x"
proof -
  let ?f = "\<lambda>j. rice_coeff y j * x ^ j"
  have s: "summable ?f" by (rule summable_rice[OF y])
  have split: "rice_S y x = (\<Sum>j. ?f (j + J)) + (\<Sum>j<J. ?f j)"
    unfolding rice_S_def by (rule suminf_split_initial_segment[OF s])
  have head: "(\<Sum>j<J. ?f j) \<le> exp y * (\<Sum>j<J. inverse (fact j) * x ^ j)"
    unfolding sum_distrib_left
  proof (rule sum_mono)
    fix j
    have "?f j = exp_tail y j * (inverse (fact j) * x ^ j)"
      by (simp add: rice_coeff_def divide_inverse)
    also have "\<dots> \<le> exp y * (inverse (fact j) * x ^ j)"
      using x by (intro mult_right_mono exp_tail_le[OF y]) simp
    finally show "?f j \<le> exp y * (inverse (fact j) * x ^ j)" .
  qed
  have "(\<Sum>j. ?f (j + J)) \<le> (\<Sum>j. e * (inverse (fact (j + J)) * x ^ (j + J)))"
  proof (rule suminf_le)
    show "summable (\<lambda>j. ?f (j + J))" by (rule summable_ignore_initial_segment[OF s])
    show "summable (\<lambda>j. e * (inverse (fact (j + J)) * x ^ (j + J)))"
      by (rule summable_mult[OF summable_exp_shift])
    fix j
    have "?f (j + J) = exp_tail y (j + J) * (inverse (fact (j + J)) * x ^ (j + J))"
      by (simp add: rice_coeff_def divide_inverse)
    also have "\<dots> \<le> e * (inverse (fact (j + J)) * x ^ (j + J))"
      using x e by (intro mult_right_mono) simp_all
    finally show "?f (j + J) \<le> e * (inverse (fact (j + J)) * x ^ (j + J))" .
  qed
  also have "\<dots> = e * exp_tail x J"
    unfolding exp_tail_def by (rule suminf_mult[OF summable_exp_shift])
  also have "\<dots> \<le> e * exp x"
  proof -
    have "0 \<le> e" using e exp_tail_nonneg[OF y, of J] by (meson order_refl order_trans)
    thus ?thesis by (intro mult_left_mono exp_tail_le[OF x])
  qed
  finally show ?thesis using head split by simp
qed

lemma rice_limit:
  assumes y: "0 \<le> y"
  shows "((\<lambda>x. exp (- x) * rice_S y x) \<longlongrightarrow> 0) at_top"
proof (rule order_tendstoI)
  fix a :: real assume "a < 0"
  show "\<forall>\<^sub>F x in at_top. a < exp (- x) * rice_S y x"
    unfolding eventually_at_top_linorder
  proof (intro exI[of _ 0] allI impI)
    fix x :: real assume "0 \<le> x"
    hence "0 \<le> exp (- x) * rice_S y x" by (intro mult_nonneg_nonneg rice_S_nonneg[OF y]) simp_all
    with \<open>a < 0\<close> show "a < exp (- x) * rice_S y x" by simp
  qed
next
  fix a :: real assume a: "0 < a"
  hence a2: "0 < a / 2" by simp
  from exp_tail_small[OF y a2] obtain J where J: "\<forall>j\<ge>J. exp_tail y j < a / 2" by blast
  hence J': "\<forall>j\<ge>J. exp_tail y j \<le> a / 2" by (simp add: less_imp_le)
  define P where "P = (\<lambda>x. exp y * (\<Sum>j<J. inverse (fact j) * (x ^ j * exp (- 1 * x))))"
  have "(P \<longlongrightarrow> exp y * (\<Sum>j<J. inverse (fact j) * 0)) at_top"
    unfolding P_def by (intro tendsto_mult tendsto_const tendsto_sum pow_exp_limit) simp
  hence "(P \<longlongrightarrow> 0) at_top" by simp
  hence ev: "\<forall>\<^sub>F x in at_top. P x < a / 2" by (rule order_tendstoD(2)) (rule a2)
  have ev0: "\<forall>\<^sub>F x in at_top. (0::real) \<le> x" by (rule eventually_ge_at_top)
  show "\<forall>\<^sub>F x in at_top. exp (- x) * rice_S y x < a"
    using ev ev0
  proof eventually_elim
    case (elim x)
    have "exp (- x) * rice_S y x
        \<le> exp (- x) * (exp y * (\<Sum>j<J. inverse (fact j) * x ^ j) + a / 2 * exp x)"
      by (intro mult_left_mono rice_S_bound[OF y elim(2) J']) simp
    also have "\<dots> = P x + a / 2 * (exp (- x) * exp x)"
      by (simp add: P_def algebra_simps sum_distrib_left sum_distrib_right)
    also have "exp (- x) * exp x = 1" by (simp add: exp_minus)
    finally show ?case using elim(1) by simp
  qed
qed

subsection \<open>The integrals for every order\<close>

text \<open>\<open>bessel_P n c s\<close> is \<open>s ^ n * I\<^sub>n (c s)\<close>, written with the power series.\<close>

definition bessel_P :: "nat \<Rightarrow> real \<Rightarrow> real \<Rightarrow> real" where
  "bessel_P n c s = (c / 2) ^ n * s ^ (2 * n) * bessel_g n ((c / 2) ^ 2 * s ^ 2)"

lemma rice_Phi_deriv:
  assumes "0 \<le> y"
  shows "((\<lambda>x. - exp (- x) * rice_S y x) has_real_derivative exp (- x) * bessel_g 0 (x * y)) (at x)"
proof -
  define S1 where "S1 = (\<Sum>j. diffs (rice_coeff y) j * x ^ j)"
  have d: "(rice_S y has_real_derivative S1) (at x)"
    unfolding S1_def by (rule rice_S_deriv[OF assms])
  have "((\<lambda>x. - exp (- x) * rice_S y x) has_real_derivative
      exp (- x) * (rice_S y x - S1)) (at x)"
    by (auto intro!: derivative_eq_intros d simp: algebra_simps)
  thus ?thesis
    using rice_S_minus_deriv[OF assms, of x] by (simp add: S1_def)
qed

lemma sq_at_top:
  fixes q :: real assumes "0 < q"
  shows "filterlim (\<lambda>s::real. q * s ^ 2) at_top at_top"
proof -
  have "filterlim (\<lambda>s::real. s ^ 2) at_top at_top"
    by (rule filterlim_pow_at_top) (simp_all add: filterlim_ident)
  thus ?thesis
    by (rule filterlim_tendsto_pos_mult_at_top[OF tendsto_const assms])
qed

lemma tendsto_at_right_of_deriv:
  assumes "(F has_real_derivative D) (at (0::real))"
  shows "(F \<longlongrightarrow> F 0) (at_right 0)"
proof -
  have "isCont F 0" by (rule DERIV_isCont[OF assms])
  hence "(F \<longlongrightarrow> F 0) (at 0)" by (simp add: isCont_def)
  thus ?thesis by (simp add: filterlim_at_split)
qed

lemma rice_integral:
  assumes q: "0 < q"
  shows "has_integral_0_oo (\<lambda>s. s * exp (- q * s ^ 2) * bessel_P 0 c s)
           (exp (c ^ 2 / (4 * q)) / (2 * q))"
proof -
  define y where "y = c ^ 2 / (4 * q)"
  have y: "0 \<le> y" using q by (simp add: y_def)
  define F where "F = (\<lambda>s. (- exp (- (q * s ^ 2)) * rice_S y (q * s ^ 2)) / (2 * q))"
  have dF: "(F has_real_derivative s * exp (- q * s ^ 2) * bessel_P 0 c s) (at s)" for s
  proof -
    have "((\<lambda>s. q * s ^ 2) has_real_derivative q * (2 * s)) (at s)"
      by (auto intro!: derivative_eq_intros)
    from DERIV_chain'[OF this rice_Phi_deriv[OF y, of "q * s ^ 2"]]
    have "((\<lambda>s. - exp (- (q * s ^ 2)) * rice_S y (q * s ^ 2)) has_real_derivative
        exp (- (q * s ^ 2)) * bessel_g 0 (q * s ^ 2 * y) * (q * (2 * s))) (at s)" .
    hence "(F has_real_derivative
        exp (- (q * s ^ 2)) * bessel_g 0 (q * s ^ 2 * y) * (q * (2 * s)) / (2 * q)) (at s)"
      unfolding F_def by (rule DERIV_cdivide)
    moreover have "q * s ^ 2 * y = (c / 2) ^ 2 * s ^ 2"
      using q by (simp add: y_def power_divide field_simps)
    moreover have "exp (- (q * s ^ 2)) * bessel_g 0 ((c / 2) ^ 2 * s ^ 2) * (q * (2 * s)) / (2 * q)
        = s * exp (- q * s ^ 2) * bessel_P 0 c s"
      using q by (simp add: bessel_P_def)
    ultimately show ?thesis by simp
  qed
  have F0: "F 0 = - exp y / (2 * q)" by (simp add: F_def rice_S_0)
  have l0: "(F \<longlongrightarrow> - exp y / (2 * q)) (at_right 0)"
    using tendsto_at_right_of_deriv[OF dF[of 0]] by (simp add: F0)
  have "((\<lambda>s. exp (- (q * s ^ 2)) * rice_S y (q * s ^ 2)) \<longlongrightarrow> 0) at_top"
    by (rule filterlim_compose[OF rice_limit[OF y] sq_at_top[OF q]])
  hence "((\<lambda>s. - (exp (- (q * s ^ 2)) * rice_S y (q * s ^ 2)) / (2 * q)) \<longlongrightarrow> - 0 / (2 * q)) at_top"
    by (intro tendsto_divide tendsto_minus tendsto_const) (use q in simp_all)
  hence l1: "(F \<longlongrightarrow> 0) at_top" by (simp add: F_def)
  have "has_integral_0_oo (\<lambda>s. s * exp (- q * s ^ 2) * bessel_P 0 c s) (0 - (- exp y / (2 * q)))"
    by (rule has_integral_0_ooI[OF dF l0 l1])
  thus ?thesis by (simp add: y_def)
qed

subsection \<open>From one order to the next\<close>

lemma bessel_P_deriv:
  "((\<lambda>s. bessel_P (Suc n) c s) has_real_derivative c * s * bessel_P n c s) (at s)"
proof -
  define k where "k = (c / 2) ^ 2"
  define z where "z = k * s ^ 2"
  define g1 where "g1 = bessel_g (Suc n) z"
  define g2 where "g2 = bessel_g (Suc (Suc n)) z"
  define a where "a = (c / 2) ^ n"
  define w where "w = s ^ (2 * n)"
  have dz: "((\<lambda>s. k * s ^ 2) has_real_derivative k * (2 * s)) (at s)"
    by (auto intro!: derivative_eq_intros)
  have dg: "((\<lambda>s. bessel_g (Suc n) (k * s ^ 2)) has_real_derivative g2 * (k * (2 * s))) (at s)"
    unfolding g2_def z_def by (rule DERIV_chain'[OF dz bessel_g_deriv])
  have e: "2 * Suc n - Suc 0 = 2 * n + 1" by simp
  have dp: "((\<lambda>s. s ^ (2 * Suc n)) has_real_derivative real (2 * Suc n) * s ^ (2 * n + 1)) (at s)"
    by (rule DERIV_pow[of "2 * Suc n" s UNIV, unfolded e])
  have "((\<lambda>s. (c / 2) ^ Suc n * (s ^ (2 * Suc n) * bessel_g (Suc n) (k * s ^ 2))) has_real_derivative
      (c / 2) ^ Suc n * (s ^ (2 * Suc n) * (g2 * (k * (2 * s)))
         + real (2 * Suc n) * s ^ (2 * n + 1) * bessel_g (Suc n) (k * s ^ 2))) (at s)"
    by (rule DERIV_cmult[OF DERIV_mult'[OF dp dg]])
  hence d: "((\<lambda>s. bessel_P (Suc n) c s) has_real_derivative
      (c / 2) ^ Suc n * (real (2 * Suc n) * s ^ (2 * n + 1) * g1 + s ^ (2 * Suc n) * (g2 * (k * (2 * s))))) (at s)"
    unfolding bessel_P_def k_def[symmetric] g1_def z_def by (simp add: mult.assoc add.commute)
  have rec: "bessel_g n z = real (Suc n) * g1 + z * g2"
    unfolding g1_def g2_def by (rule bessel_g_rec)
  have p1: "s ^ (2 * n + 1) = w * s" by (simp add: w_def)
  have p2: "s ^ (2 * Suc n) = w * s * s" by (simp add: w_def)
  have "(c / 2) ^ Suc n * (real (2 * Suc n) * s ^ (2 * n + 1) * g1 + s ^ (2 * Suc n) * (g2 * (k * (2 * s))))
      = (c / 2) * a * (2 * real (Suc n) * (w * s) * g1 + (w * s * s) * (g2 * (k * (2 * s))))"
    unfolding p1 p2 a_def by simp
  also have "\<dots> = c * s * (a * w * (real (Suc n) * g1 + z * g2))"
    by (simp add: algebra_simps power2_eq_square z_def)
  also have "\<dots> = c * s * (a * w * bessel_g n z)"
    by (simp only: rec)
  also have "\<dots> = c * s * bessel_P n c s"
    by (simp add: bessel_P_def a_def w_def z_def k_def)
  finally have eq: "(c / 2) ^ Suc n * (real (2 * Suc n) * s ^ (2 * n + 1) * g1 + s ^ (2 * Suc n) * (g2 * (k * (2 * s))))
      = c * s * bessel_P n c s" .
  show ?thesis using d unfolding eq .
qed

lemma bessel_P_0_deriv:
  "((\<lambda>s. bessel_P 0 c s) has_real_derivative c * bessel_P 1 c s / s) (at s)" if "s \<noteq> 0"
proof -
  define k where "k = (c / 2) ^ 2"
  have dz: "((\<lambda>s. k * s ^ 2) has_real_derivative k * (2 * s)) (at s)"
    by (auto intro!: derivative_eq_intros)
  have "((\<lambda>s. bessel_g 0 (k * s ^ 2)) has_real_derivative bessel_g (Suc 0) (k * s ^ 2) * (k * (2 * s))) (at s)"
    by (rule DERIV_chain'[OF dz bessel_g_deriv])
  moreover have "bessel_g (Suc 0) (k * s ^ 2) * (k * (2 * s)) = c * bessel_P 1 c s / s"
    using that by (simp add: bessel_P_def k_def power2_eq_square field_simps)
  ultimately show ?thesis by (simp add: bessel_P_def k_def)
qed

lemma bessel_P_nonneg: "0 \<le> c \<Longrightarrow> 0 \<le> s \<Longrightarrow> 0 \<le> bessel_P n c s"
  unfolding bessel_P_def by (intro mult_nonneg_nonneg bessel_g_nonneg) simp_all

lemma bessel_P_le:
  assumes "0 \<le> c" "0 \<le> s"
  shows "bessel_P n c s \<le> (c / 2) ^ n * s ^ (2 * n) * exp (c * s)"
proof -
  have "bessel_g n ((c / 2) ^ 2 * s ^ 2) = bessel_g n ((c / 2 * s) ^ 2)"
    by (simp only: power_mult_distrib)
  also have "\<dots> \<le> exp (2 * (c / 2 * s))"
    using assms by (intro bessel_g_le_exp) simp
  finally have "bessel_g n ((c / 2) ^ 2 * s ^ 2) \<le> exp (c * s)" by simp
  thus ?thesis unfolding bessel_P_def using assms by (intro mult_left_mono) simp_all
qed

lemma gauss_bessel_P_limit:
  assumes q: "0 < q" and c: "0 \<le> c"
  shows "((\<lambda>s. s ^ m * exp (- q * s ^ 2) * bessel_P n c s) \<longlongrightarrow> 0) at_top"
proof (rule tendsto_sandwich[where f = "\<lambda>s::real. 0::real"
      and h = "\<lambda>s::real. (c / 2) ^ n * (s ^ (m + 2 * n) * exp (- q * s ^ 2 + c * s))"])
  show "((\<lambda>s::real. 0) \<longlongrightarrow> (0::real)) at_top" by simp
  have "((\<lambda>s::real. (c / 2) ^ n * (s ^ (m + 2 * n) * exp (- q * s ^ 2 + c * s)))
      \<longlongrightarrow> (c / 2) ^ n * 0) at_top"
    by (intro tendsto_mult tendsto_const pow_gauss_limit[OF q])
  thus "((\<lambda>s::real. (c / 2) ^ n * (s ^ (m + 2 * n) * exp (- q * s ^ 2 + c * s))) \<longlongrightarrow> 0) at_top"
    by simp
  show "\<forall>\<^sub>F s in at_top. 0 \<le> s ^ m * exp (- q * s ^ 2) * bessel_P n c s"
    using eventually_ge_at_top[of 0]
  proof eventually_elim
    case (elim s)
    thus ?case by (intro mult_nonneg_nonneg bessel_P_nonneg[OF c]) simp_all
  qed
  show "\<forall>\<^sub>F s in at_top. s ^ m * exp (- q * s ^ 2) * bessel_P n c s
      \<le> (c / 2) ^ n * (s ^ (m + 2 * n) * exp (- q * s ^ 2 + c * s))"
    using eventually_ge_at_top[of 0]
  proof eventually_elim
    case (elim s)
    have "s ^ m * exp (- q * s ^ 2) * bessel_P n c s
        \<le> s ^ m * exp (- q * s ^ 2) * ((c / 2) ^ n * s ^ (2 * n) * exp (c * s))"
      using elim by (intro mult_left_mono bessel_P_le[OF c]) simp_all
    also have "\<dots> = (c / 2) ^ n * ((s ^ m * s ^ (2 * n)) * (exp (- q * s ^ 2) * exp (c * s)))"
      by (simp only: mult_ac)
    also have "\<dots> = (c / 2) ^ n * (s ^ (m + 2 * n) * exp (- q * s ^ 2 + c * s))"
      by (simp only: power_add exp_add)
    finally show ?case .
  qed
qed

lemma bessel_P_Suc_0: "bessel_P (Suc n) c 0 = 0"
  by (simp add: bessel_P_def)

lemma gauss_bessel_step:
  assumes q: "0 < q" and c: "0 \<le> c"
    and L: "has_integral_0_oo (\<lambda>s. s * exp (- q * s ^ 2) * bessel_P n c s) L"
  shows "has_integral_0_oo (\<lambda>s. s * exp (- q * s ^ 2) * bessel_P (Suc n) c s) (c / (2 * q) * L)"
proof -
  define H where "H = (\<lambda>s. - (1 / (2 * q)) * (exp (- q * s ^ 2) * bessel_P (Suc n) c s))"
  define h where "h = (\<lambda>s. s * exp (- q * s ^ 2) * bessel_P (Suc n) c s
      - c / (2 * q) * (s * exp (- q * s ^ 2) * bessel_P n c s))"
  have dH: "(H has_real_derivative h s) (at s)" for s
  proof -
    have "((\<lambda>s. exp (- q * s ^ 2)) has_real_derivative exp (- q * s ^ 2) * (- q * (2 * s))) (at s)"
      by (auto intro!: derivative_eq_intros)
    from DERIV_mult'[OF this bessel_P_deriv[of n c s]]
    have "((\<lambda>s. exp (- q * s ^ 2) * bessel_P (Suc n) c s) has_real_derivative
        exp (- q * s ^ 2) * (c * s * bessel_P n c s)
        + exp (- q * s ^ 2) * (- q * (2 * s)) * bessel_P (Suc n) c s) (at s)" .
    from DERIV_cmult[OF this, of "- (1 / (2 * q))"]
    have "(H has_real_derivative - (1 / (2 * q)) * (exp (- q * s ^ 2) * (c * s * bessel_P n c s)
        + exp (- q * s ^ 2) * (- q * (2 * s)) * bessel_P (Suc n) c s)) (at s)"
      unfolding H_def .
    moreover have "- (1 / (2 * q)) * (exp (- q * s ^ 2) * (c * s * bessel_P n c s)
        + exp (- q * s ^ 2) * (- q * (2 * s)) * bessel_P (Suc n) c s) = h s"
      using q unfolding h_def by (simp add: field_simps)
    ultimately show ?thesis by simp
  qed
  have H0: "H 0 = 0" by (simp add: H_def bessel_P_Suc_0)
  have l0: "(H \<longlongrightarrow> 0) (at_right 0)"
    using tendsto_at_right_of_deriv[OF dH[of 0]] by (simp add: H0)
  have "((\<lambda>s. - (1 / (2 * q)) * (s ^ 0 * exp (- q * s ^ 2) * bessel_P (Suc n) c s))
      \<longlongrightarrow> - (1 / (2 * q)) * 0) at_top"
    by (intro tendsto_mult tendsto_const gauss_bessel_P_limit[OF q c])
  hence l1: "(H \<longlongrightarrow> 0) at_top" by (simp add: H_def)
  have "has_integral_0_oo h (0 - 0)"
    by (rule has_integral_0_ooI[OF dH l0 l1])
  from has_integral_0_oo_add[OF this has_integral_0_oo_cmult[OF L, of "c / (2 * q)"]]
  have "has_integral_0_oo (\<lambda>s. h s + c / (2 * q) * (s * exp (- q * s ^ 2) * bessel_P n c s))
      (0 - 0 + c / (2 * q) * L)" .
  hence "has_integral_0_oo (\<lambda>s. s * exp (- q * s ^ 2) * bessel_P (Suc n) c s) (0 - 0 + c / (2 * q) * L)"
    by (rule has_integral_0_oo_cong) (simp add: h_def)
  thus ?thesis by simp
qed

lemma gauss_bessel_integral:
  assumes q: "0 < q" and c: "0 \<le> c"
  shows "has_integral_0_oo (\<lambda>s. s * exp (- q * s ^ 2) * bessel_P n c s)
           ((c / (2 * q)) ^ n * (exp (c ^ 2 / (4 * q)) / (2 * q)))"
proof (induction n)
  case 0
  show ?case using rice_integral[OF q, of c] by simp
next
  case (Suc n)
  from gauss_bessel_step[OF q c Suc] show ?case by (simp add: mult.assoc)
qed

lemma gauss_bessel_third_moment:
  assumes q: "0 < q" and c: "0 \<le> c"
  shows "has_integral_0_oo (\<lambda>s. s ^ 3 * exp (- q * s ^ 2) * bessel_P 0 c s)
           ((1 / q + c ^ 2 / (4 * q ^ 2)) * (exp (c ^ 2 / (4 * q)) / (2 * q)))"
proof -
  define E where "E = exp (c ^ 2 / (4 * q)) / (2 * q)"
  define H where "H = (\<lambda>s. - (1 / (2 * q)) * (s ^ 2 * exp (- q * s ^ 2) * bessel_P 0 c s))"
  define h where "h = (\<lambda>s. s ^ 3 * exp (- q * s ^ 2) * bessel_P 0 c s
      - 1 / q * (s * exp (- q * s ^ 2) * bessel_P 0 c s)
      - c / (2 * q) * (s * exp (- q * s ^ 2) * bessel_P 1 c s))"
  have dH: "(H has_real_derivative h s) (at s)" if "0 < s" for s
  proof -
    have s: "s \<noteq> 0" using that by simp
    have "((\<lambda>s. s ^ 2 * exp (- q * s ^ 2)) has_real_derivative
        2 * s * exp (- q * s ^ 2) + s ^ 2 * (exp (- q * s ^ 2) * (- q * (2 * s)))) (at s)"
      by (auto intro!: derivative_eq_intros)
    from DERIV_mult'[OF this bessel_P_0_deriv[OF s, of c]]
    have "((\<lambda>s. s ^ 2 * exp (- q * s ^ 2) * bessel_P 0 c s) has_real_derivative
        s ^ 2 * exp (- q * s ^ 2) * (c * bessel_P 1 c s / s)
        + (2 * s * exp (- q * s ^ 2) + s ^ 2 * (exp (- q * s ^ 2) * (- q * (2 * s)))) * bessel_P 0 c s) (at s)" .
    from DERIV_cmult[OF this, of "- (1 / (2 * q))"]
    have "(H has_real_derivative - (1 / (2 * q)) * (s ^ 2 * exp (- q * s ^ 2) * (c * bessel_P 1 c s / s)
        + (2 * s * exp (- q * s ^ 2) + s ^ 2 * (exp (- q * s ^ 2) * (- q * (2 * s)))) * bessel_P 0 c s)) (at s)"
      unfolding H_def .
    moreover have "- (1 / (2 * q)) * (s ^ 2 * exp (- q * s ^ 2) * (c * bessel_P 1 c s / s)
        + (2 * s * exp (- q * s ^ 2) + s ^ 2 * (exp (- q * s ^ 2) * (- q * (2 * s)))) * bessel_P 0 c s) = h s"
      using q s unfolding h_def by (simp add: field_simps power2_eq_square power3_eq_cube)
    ultimately show ?thesis by simp
  qed
  have cont: "isCont H 0"
    unfolding H_def bessel_P_def bessel_g_def[symmetric]
    by (intro continuous_intros isCont_o2[OF _ DERIV_isCont[OF bessel_g_deriv]]) 
  have H0: "H 0 = 0" by (simp add: H_def)
  have l0: "(H \<longlongrightarrow> 0) (at_right 0)"
    using cont H0 by (simp add: isCont_def filterlim_at_split)
  have "((\<lambda>s. - (1 / (2 * q)) * (s ^ 2 * exp (- q * s ^ 2) * bessel_P 0 c s))
      \<longlongrightarrow> - (1 / (2 * q)) * 0) at_top"
    by (intro tendsto_mult tendsto_const gauss_bessel_P_limit[OF q c])
  hence l1: "(H \<longlongrightarrow> 0) at_top" by (simp add: H_def)
  have I0: "has_integral_0_oo (\<lambda>s. s * exp (- q * s ^ 2) * bessel_P 0 c s) E"
    using gauss_bessel_integral[OF q c, of 0] by (simp add: E_def)
  have I1: "has_integral_0_oo (\<lambda>s. s * exp (- q * s ^ 2) * bessel_P 1 c s) (c / (2 * q) * E)"
    using gauss_bessel_integral[OF q c, of 1] by (simp add: E_def)
  have "has_integral_0_oo h (0 - 0)"
    by (rule has_integral_0_ooI[OF dH l0 l1])
  from has_integral_0_oo_add[OF has_integral_0_oo_add[OF this
        has_integral_0_oo_cmult[OF I0, of "1 / q"]] has_integral_0_oo_cmult[OF I1, of "c / (2 * q)"]]
  have "has_integral_0_oo (\<lambda>s. h s + 1 / q * (s * exp (- q * s ^ 2) * bessel_P 0 c s)
        + c / (2 * q) * (s * exp (- q * s ^ 2) * bessel_P 1 c s))
      (0 - 0 + 1 / q * E + c / (2 * q) * (c / (2 * q) * E))" .
  hence "has_integral_0_oo (\<lambda>s. s ^ 3 * exp (- q * s ^ 2) * bessel_P 0 c s)
      (0 - 0 + 1 / q * E + c / (2 * q) * (c / (2 * q) * E))"
    by (rule has_integral_0_oo_cong) (simp add: h_def)
  moreover have "0 - 0 + 1 / q * E + c / (2 * q) * (c / (2 * q) * E) = (1 / q + c ^ 2 / (4 * q ^ 2)) * E"
    by (simp add: algebra_simps power2_eq_square)
  ultimately show ?thesis by (simp add: E_def)
qed

subsection \<open>The function \<^verbatim>\<open>besseli\<close>\<close>

text \<open>
  The order is a real number, as in the notebook (\<^verbatim>\<open>besseli(0, ...)\<close>, \<^verbatim>\<open>besseli(3, ...)\<close>,
  \<^verbatim>\<open>besseli(a/(2-a), ...)\<close>), and the factorial of the series is \<open>gamma\<close>. All arguments in
  the notebook are positive.
\<close>

definition besseli :: "real \<Rightarrow> real \<Rightarrow> real" where
  "besseli \<nu> x = (\<Sum>k. (x / 2) powr (2 * real k + \<nu>) / (fact k * gamma (real k + \<nu> + 1)))"

lemma gamma_fact: "gamma (real m + 1) = fact m"
proof -
  have "has_integral_0_oo (\<lambda>v. v ^ m * exp (- 1 * v)) (fact m / 1 ^ Suc m)"
    by (rule has_integral_0_oo_gamma) simp
  hence "has_integral_0_oo (\<lambda>u. u powr (real m + 1 - 1) * exp (- u)) (fact m / 1 ^ Suc m)"
    by (rule has_integral_0_oo_cong) (simp add: powr_realpow)
  from integrate_0_oo_eq[OF this] show ?thesis by (simp add: gamma_def)
qed

lemma besseli_nat:
  assumes "0 < x"
  shows "besseli (real n) x = (x / 2) ^ n * bessel_g n ((x / 2) ^ 2)"
proof -
  have x: "0 < x / 2" using assms by simp
  have t: "(x / 2) powr (2 * real k + real n) / (fact k * gamma (real k + real n + 1))
      = (x / 2) ^ n * (bessel_coeff n k * ((x / 2) ^ 2) ^ k)" for k
  proof -
    have "2 * real k + real n = real (2 * k + n)" by simp
    hence "(x / 2) powr (2 * real k + real n) = (x / 2) ^ (2 * k + n)"
      using powr_realpow[OF x, of "2 * k + n"] by simp
    also have "\<dots> = (x / 2) ^ n * ((x / 2) ^ 2) ^ k"
      by (simp add: power_add power_mult)
    finally have p: "(x / 2) powr (2 * real k + real n) = (x / 2) ^ n * ((x / 2) ^ 2) ^ k" .
    have "real k + real n + 1 = real (k + n) + 1" by simp
    hence g: "gamma (real k + real n + 1) = fact (k + n)" by (simp only: gamma_fact)
    show ?thesis unfolding p g bessel_coeff_def by simp
  qed
  show ?thesis
    unfolding besseli_def t bessel_g_def
    by (rule suminf_mult[OF summable_bessel])
qed

lemma besseli_P:
  assumes "0 < c" "0 < s"
  shows "s ^ n * besseli (real n) (c * s) = bessel_P n c s"
proof -
  have "0 < c * s" using assms by simp
  from besseli_nat[OF this, of n]
  have "s ^ n * besseli (real n) (c * s) = s ^ n * ((c * s / 2) ^ n * bessel_g n ((c * s / 2) ^ 2))"
    by simp
  also have "(c * s / 2) ^ n = (c / 2) ^ n * s ^ n" by (simp add: power_mult_distrib[symmetric])
  also have "(c * s / 2) ^ 2 = (c / 2) ^ 2 * s ^ 2" by (simp add: power_mult_distrib[symmetric])
  finally show ?thesis
    by (simp add: bessel_P_def power_mult power2_eq_square power_mult_distrib mult_ac)
qed

lemma besseli_0_P: "0 < c \<Longrightarrow> 0 < s \<Longrightarrow> besseli 0 (c * s) = bessel_P 0 c s"
  using besseli_P[of c s 0] by simp

lemma besseli_1_P: "0 < c \<Longrightarrow> 0 < s \<Longrightarrow> s * besseli 1 (c * s) = bessel_P 1 c s"
  using besseli_P[of c s 1] by simp

section \<open>Full diffusive regime (notebook section 2.3)\<close>

text \<open>
  \<^verbatim>\<open>
  p = 1.0 / (4*pi*k2*t) * exp(-(r0**2 + r**2)/(4*k2*t)) * besseli(0, (r0*r)/(2*k2*t))
  \<close>
  followed by the same six lines for \<open>ra\<close>, \<open>r2\<close>, \<open>r4\<close>, \<open>rn\<close>, \<open>Ku\<close> and \<open>K2\<close>.
\<close>

definition p_full_diffusive :: "real \<Rightarrow> real \<Rightarrow> real \<Rightarrow> real \<Rightarrow> real" where
  "p_full_diffusive k2 t r0 r =
     1 / (4 * pi * k2 * t) * exp (- (r0 ^ 2 + r ^ 2) / (4 * k2 * t)) * besseli 0 ((r0 * r) / (2 * k2 * t))"

definition ra_full_diffusive :: "real \<Rightarrow> real \<Rightarrow> real \<Rightarrow> real" where
  "ra_full_diffusive k2 t r0 = 2 * pi * integrate_0_oo (\<lambda>r. p_full_diffusive k2 t r0 r * r)"

definition r2_full_diffusive :: "real \<Rightarrow> real \<Rightarrow> real \<Rightarrow> real" where
  "r2_full_diffusive k2 t r0 = 2 * pi * integrate_0_oo (\<lambda>r. p_full_diffusive k2 t r0 r * r ^ 3)"

definition r4_full_diffusive :: "real \<Rightarrow> real \<Rightarrow> real \<Rightarrow> real" where
  "r4_full_diffusive k2 t r0 = 2 * pi * integrate_0_oo (\<lambda>r. p_full_diffusive k2 t r0 r * r ^ 5)"

definition rn_full_diffusive :: "real \<Rightarrow> real \<Rightarrow> real \<Rightarrow> real \<Rightarrow> real" where
  "rn_full_diffusive k2 t r0 n =
     2 * pi * integrate_0_oo (\<lambda>r. p_full_diffusive k2 t r0 r * r powr (n + 1))"

definition Ku_full_diffusive :: "real \<Rightarrow> real \<Rightarrow> real \<Rightarrow> real" where
  "Ku_full_diffusive k2 t r0 = r4_full_diffusive k2 t r0 / r2_full_diffusive k2 t r0 powr 2"

definition K2_full_diffusive :: "real \<Rightarrow> real \<Rightarrow> real \<Rightarrow> real" where
  "K2_full_diffusive k2 t r0 = diff (\<lambda>t. r2_full_diffusive k2 t r0) t / 2"

lemma p_full_diffusive_eq:
  assumes "0 < k2" "0 < t" "0 < r0" "0 < r"
  shows "p_full_diffusive k2 t r0 r
      = 1 / (4 * pi * k2 * t) * exp (- (1 / (4 * k2 * t)) * r0 ^ 2)
        * (exp (- (1 / (4 * k2 * t)) * r ^ 2) * bessel_P 0 (r0 / (2 * k2 * t)) r)"
proof -
  have c: "0 < r0 / (2 * k2 * t)" using assms by simp
  have "(r0 * r) / (2 * k2 * t) = r0 / (2 * k2 * t) * r" by simp
  hence b: "besseli 0 ((r0 * r) / (2 * k2 * t)) = bessel_P 0 (r0 / (2 * k2 * t)) r"
    using besseli_0_P[OF c assms(4)] by simp
  have "- (r0 ^ 2 + r ^ 2) / (4 * k2 * t)
      = - (1 / (4 * k2 * t)) * r0 ^ 2 + - (1 / (4 * k2 * t)) * r ^ 2"
    by (simp add: diff_divide_distrib)
  hence "exp (- (r0 ^ 2 + r ^ 2) / (4 * k2 * t))
      = exp (- (1 / (4 * k2 * t)) * r0 ^ 2) * exp (- (1 / (4 * k2 * t)) * r ^ 2)"
    by (simp only: exp_add)
  thus ?thesis unfolding p_full_diffusive_def b by simp
qed

lemma full_diffusive_exponent:
  fixes k2 t r0 :: real
  assumes "0 < k2" "0 < t"
  shows "(r0 / (2 * k2 * t)) ^ 2 / (4 * (1 / (4 * k2 * t))) = 1 / (4 * k2 * t) * r0 ^ 2"
  using assms by (simp add: power2_eq_square field_simps)

lemma ra_full_diffusive_eq:
  assumes "0 < k2" "0 < t" "0 < r0"
  shows "ra_full_diffusive k2 t r0 = 1"
proof -
  define q where "q = 1 / (4 * k2 * t)"
  define c where "c = r0 / (2 * k2 * t)"
  define C where "C = 1 / (4 * pi * k2 * t) * exp (- q * r0 ^ 2)"
  have q: "0 < q" and c: "0 \<le> c" using assms by (simp_all add: q_def c_def)
  have e: "c ^ 2 / (4 * q) = q * r0 ^ 2"
    unfolding c_def q_def by (rule full_diffusive_exponent[OF assms(1,2)])
  have "has_integral_0_oo (\<lambda>r. C * (r * exp (- q * r ^ 2) * bessel_P 0 c r))
      (C * ((c / (2 * q)) ^ 0 * (exp (c ^ 2 / (4 * q)) / (2 * q))))"
    by (rule has_integral_0_oo_cmult[OF gauss_bessel_integral[OF q c]])
  hence "has_integral_0_oo (\<lambda>r. p_full_diffusive k2 t r0 r * r)
      (C * ((c / (2 * q)) ^ 0 * (exp (c ^ 2 / (4 * q)) / (2 * q))))"
    by (rule has_integral_0_oo_cong)
       (simp add: p_full_diffusive_eq[OF assms] C_def q_def c_def)
  from integrate_0_oo_eq[OF this]
  have "ra_full_diffusive k2 t r0 = 2 * pi * (C * (exp (q * r0 ^ 2) / (2 * q)))"
    unfolding ra_full_diffusive_def e by simp
  also have "\<dots> = 2 * pi * (1 / (4 * pi * k2 * t) * (exp (- q * r0 ^ 2) * exp (q * r0 ^ 2)) / (2 * q))"
    by (simp add: C_def)
  also have "exp (- q * r0 ^ 2) * exp (q * r0 ^ 2) = 1"
    unfolding exp_add[symmetric] by simp
  also have "2 * pi * (1 / (4 * pi * k2 * t) * 1 / (2 * q)) = 1"
    using assms by (simp add: q_def)
  finally show ?thesis .
qed

lemma r2_full_diffusive_eq:
  assumes "0 < k2" "0 < t" "0 < r0"
  shows "r2_full_diffusive k2 t r0 = 4 * k2 * t + r0 ^ 2"
proof -
  define q where "q = 1 / (4 * k2 * t)"
  define c where "c = r0 / (2 * k2 * t)"
  define C where "C = 1 / (4 * pi * k2 * t) * exp (- q * r0 ^ 2)"
  have q: "0 < q" and c: "0 \<le> c" using assms by (simp_all add: q_def c_def)
  have e: "c ^ 2 / (4 * q) = q * r0 ^ 2"
    unfolding c_def q_def by (rule full_diffusive_exponent[OF assms(1,2)])
  have "has_integral_0_oo (\<lambda>r. C * (r ^ 3 * exp (- q * r ^ 2) * bessel_P 0 c r))
      (C * ((1 / q + c ^ 2 / (4 * q ^ 2)) * (exp (c ^ 2 / (4 * q)) / (2 * q))))"
    by (rule has_integral_0_oo_cmult[OF gauss_bessel_third_moment[OF q c]])
  hence "has_integral_0_oo (\<lambda>r. p_full_diffusive k2 t r0 r * r ^ 3)
      (C * ((1 / q + c ^ 2 / (4 * q ^ 2)) * (exp (c ^ 2 / (4 * q)) / (2 * q))))"
    by (rule has_integral_0_oo_cong)
       (simp add: p_full_diffusive_eq[OF assms] C_def q_def c_def)
  from integrate_0_oo_eq[OF this]
  have "r2_full_diffusive k2 t r0
      = 2 * pi * (C * ((1 / q + c ^ 2 / (4 * q ^ 2)) * (exp (q * r0 ^ 2) / (2 * q))))"
    unfolding r2_full_diffusive_def e by simp
  also have "\<dots> = 2 * pi * (1 / (4 * pi * k2 * t) * (exp (- q * r0 ^ 2) * exp (q * r0 ^ 2))
       * (1 / q + c ^ 2 / (4 * q ^ 2)) / (2 * q))"
    by (simp add: C_def)
  also have "exp (- q * r0 ^ 2) * exp (q * r0 ^ 2) = 1"
    unfolding exp_add[symmetric] by simp
  also have "2 * pi * (1 / (4 * pi * k2 * t) * 1 * (1 / q + c ^ 2 / (4 * q ^ 2)) / (2 * q))
      = 1 / q + c ^ 2 / (4 * q ^ 2)"
    using assms by (simp add: q_def)
  also have "1 / q + c ^ 2 / (4 * q ^ 2) = 4 * k2 * t + r0 ^ 2"
    using assms by (simp add: q_def c_def power2_eq_square field_simps)
  finally show ?thesis .
qed

text \<open>
  Claim C4. In the full diffusive regime, for all positive \<open>k2\<close>, \<open>t\<close> and \<open>r0\<close>, the second
  moment is \<open>4 k2 t + r0\<^sup>2\<close>, and it tends to the second moment \<open>4 k2 t\<close> of the asymptotic
  diffusive regime as \<open>r0\<close> tends to 0.
\<close>

theorem full_diffusive_second_moment:
  assumes "0 < k2" "0 < t" "0 < r0"
  shows "r2_full_diffusive k2 t r0 = 4 * k2 * t + r0 ^ 2
     \<and> ((\<lambda>r0. r2_full_diffusive k2 t r0) \<longlongrightarrow> 4 * k2 * t) (at_right 0)
     \<and> r2_asym_diffusive k2 t = 4 * k2 * t"
proof -
  have "((\<lambda>r0::real. 4 * k2 * t + r0 ^ 2) \<longlongrightarrow> 4 * k2 * t + 0 ^ 2) (at_right 0)"
    by (intro tendsto_intros)
  moreover have "\<forall>\<^sub>F r0 in at_right 0. 4 * k2 * t + r0 ^ 2 = r2_full_diffusive k2 t r0"
    unfolding eventually_at_right_field
  proof (intro exI[of _ 1] conjI allI impI)
    show "4 * k2 * t + y ^ 2 = r2_full_diffusive k2 t y" if "0 < y" for y
      using r2_full_diffusive_eq[OF assms(1,2) that] by simp
  qed simp
  ultimately have "((\<lambda>r0. r2_full_diffusive k2 t r0) \<longlongrightarrow> 4 * k2 * t + 0 ^ 2) (at_right 0)"
    by (rule tendsto_cong[THEN iffD1, rotated])
  thus ?thesis
    using r2_full_diffusive_eq[OF assms] r2_asym_diffusive_eq[OF assms(1,2)] by simp
qed

theorem full_diffusive_second_moment_witness:
  "r2_full_diffusive 1 1 1 = 4 * 1 * 1 + 1 ^ 2
     \<and> ((\<lambda>r0. r2_full_diffusive 1 1 r0) \<longlongrightarrow> 4 * 1 * 1) (at_right 0)
     \<and> r2_asym_diffusive 1 1 = 4 * 1 * 1"
proof -
  have one: "(0::real) < 1" by simp
  show ?thesis by (rule full_diffusive_second_moment[OF one one one])
qed

subsection \<open>The other quantities of the cell\<close>

lemma gauss_bessel_third_moment_1:
  assumes q: "0 < q" and c: "0 \<le> c"
  shows "has_integral_0_oo (\<lambda>s. s ^ 3 * exp (- q * s ^ 2) * bessel_P 1 c s)
           (c / (2 * q) * (2 / q + c ^ 2 / (4 * q ^ 2)) * (exp (c ^ 2 / (4 * q)) / (2 * q)))"
proof -
  define E where "E = exp (c ^ 2 / (4 * q)) / (2 * q)"
  define H where "H = (\<lambda>s. - (1 / (2 * q)) * (s ^ 2 * exp (- q * s ^ 2) * bessel_P 1 c s))"
  define h where "h = (\<lambda>s. s ^ 3 * exp (- q * s ^ 2) * bessel_P 1 c s
      - 1 / q * (s * exp (- q * s ^ 2) * bessel_P 1 c s)
      - c / (2 * q) * (s ^ 3 * exp (- q * s ^ 2) * bessel_P 0 c s))"
  have dH: "(H has_real_derivative h s) (at s)" if "0 < s" for s
  proof -
    have "((\<lambda>s. s ^ 2 * exp (- q * s ^ 2)) has_real_derivative
        2 * s * exp (- q * s ^ 2) + s ^ 2 * (exp (- q * s ^ 2) * (- q * (2 * s)))) (at s)"
      by (auto intro!: derivative_eq_intros)
    from DERIV_mult'[OF this bessel_P_deriv[of 0 c s]]
    have "((\<lambda>s. s ^ 2 * exp (- q * s ^ 2) * bessel_P (Suc 0) c s) has_real_derivative
        s ^ 2 * exp (- q * s ^ 2) * (c * s * bessel_P 0 c s)
        + (2 * s * exp (- q * s ^ 2) + s ^ 2 * (exp (- q * s ^ 2) * (- q * (2 * s))))
          * bessel_P (Suc 0) c s) (at s)" .
    from DERIV_cmult[OF this, of "- (1 / (2 * q))"]
    have "(H has_real_derivative - (1 / (2 * q)) * (s ^ 2 * exp (- q * s ^ 2) * (c * s * bessel_P 0 c s)
        + (2 * s * exp (- q * s ^ 2) + s ^ 2 * (exp (- q * s ^ 2) * (- q * (2 * s))))
          * bessel_P (Suc 0) c s)) (at s)"
      unfolding H_def by simp
    moreover have "- (1 / (2 * q)) * (s ^ 2 * exp (- q * s ^ 2) * (c * s * bessel_P 0 c s)
        + (2 * s * exp (- q * s ^ 2) + s ^ 2 * (exp (- q * s ^ 2) * (- q * (2 * s))))
          * bessel_P (Suc 0) c s) = h s"
      using q unfolding h_def by (simp add: field_simps power2_eq_square power3_eq_cube)
    ultimately show ?thesis by simp
  qed
  have cont: "isCont H 0"
    unfolding H_def bessel_P_def bessel_g_def[symmetric]
    by (intro continuous_intros isCont_o2[OF _ DERIV_isCont[OF bessel_g_deriv]])
  have H0: "H 0 = 0" by (simp add: H_def)
  have l0: "(H \<longlongrightarrow> 0) (at_right 0)"
    using cont H0 by (simp add: isCont_def filterlim_at_split)
  have "((\<lambda>s. - (1 / (2 * q)) * (s ^ 2 * exp (- q * s ^ 2) * bessel_P 1 c s))
      \<longlongrightarrow> - (1 / (2 * q)) * 0) at_top"
    by (intro tendsto_mult tendsto_const gauss_bessel_P_limit[OF q c])
  hence l1: "(H \<longlongrightarrow> 0) at_top" by (simp add: H_def)
  have I1: "has_integral_0_oo (\<lambda>s. s * exp (- q * s ^ 2) * bessel_P 1 c s) (c / (2 * q) * E)"
    using gauss_bessel_integral[OF q c, of 1] by (simp add: E_def)
  have M3: "has_integral_0_oo (\<lambda>s. s ^ 3 * exp (- q * s ^ 2) * bessel_P 0 c s)
      ((1 / q + c ^ 2 / (4 * q ^ 2)) * E)"
    unfolding E_def by (rule gauss_bessel_third_moment[OF q c])
  have "has_integral_0_oo h (0 - 0)"
    by (rule has_integral_0_ooI[OF dH l0 l1])
  from has_integral_0_oo_add[OF has_integral_0_oo_add[OF this
        has_integral_0_oo_cmult[OF I1, of "1 / q"]] has_integral_0_oo_cmult[OF M3, of "c / (2 * q)"]]
  have "has_integral_0_oo (\<lambda>s. h s + 1 / q * (s * exp (- q * s ^ 2) * bessel_P 1 c s)
        + c / (2 * q) * (s ^ 3 * exp (- q * s ^ 2) * bessel_P 0 c s))
      (0 - 0 + 1 / q * (c / (2 * q) * E) + c / (2 * q) * ((1 / q + c ^ 2 / (4 * q ^ 2)) * E))" .
  hence "has_integral_0_oo (\<lambda>s. s ^ 3 * exp (- q * s ^ 2) * bessel_P 1 c s)
      (0 - 0 + 1 / q * (c / (2 * q) * E) + c / (2 * q) * ((1 / q + c ^ 2 / (4 * q ^ 2)) * E))"
    by (rule has_integral_0_oo_cong) (simp add: h_def)
  moreover have "0 - 0 + 1 / q * (c / (2 * q) * E) + c / (2 * q) * ((1 / q + c ^ 2 / (4 * q ^ 2)) * E)
      = c / (2 * q) * (2 / q + c ^ 2 / (4 * q ^ 2)) * E"
    by (simp add: algebra_simps)
  ultimately show ?thesis by (simp add: E_def)
qed

lemma gauss_bessel_fifth_moment:
  assumes q: "0 < q" and c: "0 \<le> c"
  shows "has_integral_0_oo (\<lambda>s. s ^ 5 * exp (- q * s ^ 2) * bessel_P 0 c s)
           ((2 / q ^ 2 + c ^ 2 / q ^ 3 + c ^ 4 / (16 * q ^ 4)) * (exp (c ^ 2 / (4 * q)) / (2 * q)))"
proof -
  define E where "E = exp (c ^ 2 / (4 * q)) / (2 * q)"
  define H where "H = (\<lambda>s. - (1 / (2 * q)) * (s ^ 4 * exp (- q * s ^ 2) * bessel_P 0 c s))"
  define h where "h = (\<lambda>s. s ^ 5 * exp (- q * s ^ 2) * bessel_P 0 c s
      - 2 / q * (s ^ 3 * exp (- q * s ^ 2) * bessel_P 0 c s)
      - c / (2 * q) * (s ^ 3 * exp (- q * s ^ 2) * bessel_P 1 c s))"
  have dH: "(H has_real_derivative h s) (at s)" if "0 < s" for s
  proof -
    have s: "s \<noteq> 0" using that by simp
    define e where "e = exp (- q * s ^ 2)"
    define P0 where "P0 = bessel_P 0 c s"
    define P1 where "P1 = bessel_P 1 c s"
    have "((\<lambda>s. s ^ 4 * exp (- q * s ^ 2)) has_real_derivative
        4 * s ^ 3 * e + s ^ 4 * (e * (- q * (2 * s)))) (at s)"
      unfolding e_def by (auto intro!: derivative_eq_intros)
    from DERIV_mult'[OF this bessel_P_0_deriv[OF s, of c]]
    have "((\<lambda>s. s ^ 4 * exp (- q * s ^ 2) * bessel_P 0 c s) has_real_derivative
        s ^ 4 * e * (c * P1 / s) + (4 * s ^ 3 * e + s ^ 4 * (e * (- q * (2 * s)))) * P0) (at s)"
      unfolding e_def P0_def P1_def .
    from DERIV_cmult[OF this, of "- (1 / (2 * q))"]
    have "(H has_real_derivative - (1 / (2 * q)) * (s ^ 4 * e * (c * P1 / s)
        + (4 * s ^ 3 * e + s ^ 4 * (e * (- q * (2 * s)))) * P0)) (at s)"
      unfolding H_def .
    moreover have "- (1 / (2 * q)) * (s ^ 4 * e * (c * P1 / s)
        + (4 * s ^ 3 * e + s ^ 4 * (e * (- q * (2 * s)))) * P0)
        = s ^ 5 * e * P0 - 2 / q * (s ^ 3 * e * P0) - c / (2 * q) * (s ^ 3 * e * P1)"
    proof -
      have p: "s ^ 4 = s ^ 3 * s" "s ^ 5 = s ^ 3 * s * s" by (simp_all add: eval_nat_numeral)
      show ?thesis unfolding p using q s by (simp add: field_simps)
    qed
    ultimately show ?thesis unfolding h_def e_def P0_def P1_def by simp
  qed
  have cont: "isCont H 0"
    unfolding H_def bessel_P_def bessel_g_def[symmetric]
    by (intro continuous_intros isCont_o2[OF _ DERIV_isCont[OF bessel_g_deriv]])
  have H0: "H 0 = 0" by (simp add: H_def)
  have l0: "(H \<longlongrightarrow> 0) (at_right 0)"
    using cont H0 by (simp add: isCont_def filterlim_at_split)
  have "((\<lambda>s. - (1 / (2 * q)) * (s ^ 4 * exp (- q * s ^ 2) * bessel_P 0 c s))
      \<longlongrightarrow> - (1 / (2 * q)) * 0) at_top"
    by (intro tendsto_mult tendsto_const gauss_bessel_P_limit[OF q c])
  hence l1: "(H \<longlongrightarrow> 0) at_top" by (simp add: H_def)
  have M3: "has_integral_0_oo (\<lambda>s. s ^ 3 * exp (- q * s ^ 2) * bessel_P 0 c s)
      ((1 / q + c ^ 2 / (4 * q ^ 2)) * E)"
    unfolding E_def by (rule gauss_bessel_third_moment[OF q c])
  have V1: "has_integral_0_oo (\<lambda>s. s ^ 3 * exp (- q * s ^ 2) * bessel_P 1 c s)
      (c / (2 * q) * (2 / q + c ^ 2 / (4 * q ^ 2)) * E)"
    unfolding E_def by (rule gauss_bessel_third_moment_1[OF q c])
  have "has_integral_0_oo h (0 - 0)"
    by (rule has_integral_0_ooI[OF dH l0 l1])
  from has_integral_0_oo_add[OF has_integral_0_oo_add[OF this
        has_integral_0_oo_cmult[OF M3, of "2 / q"]] has_integral_0_oo_cmult[OF V1, of "c / (2 * q)"]]
  have "has_integral_0_oo (\<lambda>s. h s + 2 / q * (s ^ 3 * exp (- q * s ^ 2) * bessel_P 0 c s)
        + c / (2 * q) * (s ^ 3 * exp (- q * s ^ 2) * bessel_P 1 c s))
      (0 - 0 + 2 / q * ((1 / q + c ^ 2 / (4 * q ^ 2)) * E)
        + c / (2 * q) * (c / (2 * q) * (2 / q + c ^ 2 / (4 * q ^ 2)) * E))" .
  hence "has_integral_0_oo (\<lambda>s. s ^ 5 * exp (- q * s ^ 2) * bessel_P 0 c s)
      (0 - 0 + 2 / q * ((1 / q + c ^ 2 / (4 * q ^ 2)) * E)
        + c / (2 * q) * (c / (2 * q) * (2 / q + c ^ 2 / (4 * q ^ 2)) * E))"
    by (rule has_integral_0_oo_cong) (simp add: h_def)
  moreover have "0 - 0 + 2 / q * ((1 / q + c ^ 2 / (4 * q ^ 2)) * E)
        + c / (2 * q) * (c / (2 * q) * (2 / q + c ^ 2 / (4 * q ^ 2)) * E)
      = (2 / q ^ 2 + c ^ 2 / q ^ 3 + c ^ 4 / (16 * q ^ 4)) * E"
  proof -
    have p: "q ^ 2 = q * q" "q ^ 3 = q * q * q" "q ^ 4 = q * q * q * q"
      "c ^ 2 = c * c" "c ^ 4 = c * c * c * c"
      by (simp_all add: eval_nat_numeral)
    show ?thesis unfolding p using q by (simp add: field_simps)
  qed
  ultimately show ?thesis by (simp add: E_def)
qed

lemma r4_full_diffusive_eq:
  assumes "0 < k2" "0 < t" "0 < r0"
  shows "r4_full_diffusive k2 t r0 = 32 * k2 ^ 2 * t ^ 2 + 16 * k2 * r0 ^ 2 * t + r0 ^ 4"
proof -
  define q where "q = 1 / (4 * k2 * t)"
  define c where "c = r0 / (2 * k2 * t)"
  define C where "C = 1 / (4 * pi * k2 * t) * exp (- q * r0 ^ 2)"
  define V where "V = 2 / q ^ 2 + c ^ 2 / q ^ 3 + c ^ 4 / (16 * q ^ 4)"
  have q: "0 < q" and c: "0 \<le> c" using assms by (simp_all add: q_def c_def)
  have e: "c ^ 2 / (4 * q) = q * r0 ^ 2"
    unfolding c_def q_def by (rule full_diffusive_exponent[OF assms(1,2)])
  have "has_integral_0_oo (\<lambda>r. C * (r ^ 5 * exp (- q * r ^ 2) * bessel_P 0 c r))
      (C * (V * (exp (c ^ 2 / (4 * q)) / (2 * q))))"
    unfolding V_def by (rule has_integral_0_oo_cmult[OF gauss_bessel_fifth_moment[OF q c]])
  hence "has_integral_0_oo (\<lambda>r. p_full_diffusive k2 t r0 r * r ^ 5)
      (C * (V * (exp (c ^ 2 / (4 * q)) / (2 * q))))"
    by (rule has_integral_0_oo_cong)
       (simp add: p_full_diffusive_eq[OF assms] C_def q_def c_def)
  from integrate_0_oo_eq[OF this]
  have "r4_full_diffusive k2 t r0 = 2 * pi * (C * (V * (exp (q * r0 ^ 2) / (2 * q))))"
    unfolding r4_full_diffusive_def e by simp
  also have "\<dots> = 2 * pi * (1 / (4 * pi * k2 * t) * (exp (- q * r0 ^ 2) * exp (q * r0 ^ 2))
       * V / (2 * q))"
    by (simp add: C_def)
  also have "exp (- q * r0 ^ 2) * exp (q * r0 ^ 2) = 1"
    unfolding exp_add[symmetric] by simp
  also have "2 * pi * (1 / (4 * pi * k2 * t) * 1 * V / (2 * q)) = V"
    using assms by (simp add: q_def)
  also have "V = 32 * k2 ^ 2 * t ^ 2 + 16 * k2 * r0 ^ 2 * t + r0 ^ 4"
  proof -
    define u where "u = k2 * t"
    have u: "0 < u" using assms by (simp add: u_def)
    have qu: "q = 1 / (4 * u)" "c = r0 / (2 * u)" by (simp_all add: q_def c_def u_def)
    have p: "u ^ 2 = u * u" "u ^ 3 = u * u * u" "u ^ 4 = u * u * u * u"
      "r0 ^ 2 = r0 * r0" "r0 ^ 4 = r0 * r0 * r0 * r0"
      by (simp_all add: eval_nat_numeral)
    have "V = 32 * u ^ 2 + 16 * u * r0 ^ 2 + r0 ^ 4"
      unfolding V_def qu power_divide power_mult_distrib power_one p using u
      by (simp add: field_simps)
    thus ?thesis by (simp add: u_def power_mult_distrib algebra_simps)
  qed
  finally show ?thesis .
qed

lemma K2_full_diffusive_eq:
  assumes "0 < k2" "0 < t" "0 < r0"
  shows "K2_full_diffusive k2 t r0 = 2 * k2"
proof -
  have "((\<lambda>s. 4 * k2 * s + r0 ^ 2) has_real_derivative 4 * k2) (at t)"
    by (auto intro!: derivative_eq_intros)
  from diff_eq_on_pos[OF assms(2) _ this, of "\<lambda>t. r2_full_diffusive k2 t r0"]
  have "diff (\<lambda>t. r2_full_diffusive k2 t r0) t = 4 * k2"
    using r2_full_diffusive_eq[OF assms(1) _ assms(3)] by simp
  thus ?thesis by (simp add: K2_full_diffusive_def)
qed

lemma Ku_full_diffusive_eq:
  assumes "0 < k2" "0 < t" "0 < r0"
  shows "Ku_full_diffusive k2 t r0
     = (32 * k2 ^ 2 * t ^ 2 + 16 * k2 * r0 ^ 2 * t + r0 ^ 4) / (4 * k2 * t + r0 ^ 2) ^ 2"
proof -
  have pos: "0 < 4 * k2 * t + r0 ^ 2" using assms by (simp add: add_pos_pos)
  have "(4 * k2 * t + r0 ^ 2) powr 2 = (4 * k2 * t + r0 ^ 2) ^ 2"
    using pos by (simp add: powr_numeral)
  thus ?thesis
    by (simp only: Ku_full_diffusive_def r2_full_diffusive_eq[OF assms] r4_full_diffusive_eq[OF assms])
qed

text \<open>
  In the full diffusive regime, for all positive \<open>k2\<close>, \<open>t\<close> and \<open>r0\<close>: the density is
  normalized, the fourth moment is \<open>32 k2\<^sup>2 t\<^sup>2 + 16 k2 r0\<^sup>2 t + r0\<^sup>4\<close>, the kurtosis is the
  quotient of that by \<open>(4 k2 t + r0\<^sup>2)\<^sup>2\<close>, and \<open>K2\<close> is \<open>2 k2\<close>: the expressions the
  notebook displays.
\<close>

theorem full_diffusive_moments:
  assumes "0 < k2" "0 < t" "0 < r0"
  shows "ra_full_diffusive k2 t r0 = 1
     \<and> r4_full_diffusive k2 t r0 = 32 * k2 ^ 2 * t ^ 2 + 16 * k2 * r0 ^ 2 * t + r0 ^ 4
     \<and> Ku_full_diffusive k2 t r0
         = (32 * k2 ^ 2 * t ^ 2 + 16 * k2 * r0 ^ 2 * t + r0 ^ 4) / (4 * k2 * t + r0 ^ 2) ^ 2
     \<and> K2_full_diffusive k2 t r0 = 2 * k2"
  by (simp only: ra_full_diffusive_eq[OF assms] r4_full_diffusive_eq[OF assms]
      Ku_full_diffusive_eq[OF assms] K2_full_diffusive_eq[OF assms] simp_thms)

theorem full_diffusive_moments_witness:
  "ra_full_diffusive 1 1 1 = 1
     \<and> r4_full_diffusive 1 1 1 = 32 * 1 ^ 2 * 1 ^ 2 + 16 * 1 * 1 ^ 2 * 1 + 1 ^ 4
     \<and> Ku_full_diffusive 1 1 1
         = (32 * 1 ^ 2 * 1 ^ 2 + 16 * 1 * 1 ^ 2 * 1 + 1 ^ 4) / (4 * 1 * 1 + 1 ^ 2) ^ 2
     \<and> K2_full_diffusive 1 1 1 = 2 * 1"
proof -
  have one: "(0::real) < 1" by simp
  show ?thesis by (rule full_diffusive_moments[OF one one one])
qed

section \<open>Generalized full regime (notebook section 2.7)\<close>

text \<open>
  \<^verbatim>\<open>
  a = 1
  fst = 1 / (4 * pi * kappa * t * r**(a/2) * r0**(a/2))
  snd = exp(- (1/(a-2)**2) * (r**(2-a)+r0**(2-a))/(kappa * t))
  trd = besseli(a/(2-a), 2/(a-2)**2 * (r*r0)**(1-a/2) / (kappa * t))
  p = fst * snd * trd
  ra = 2 * pi * integrate(p * r   , (r, 0, oo))
  r2 = 2 * pi * integrate(p * r**3, (r, 0, oo))
  r4 = 2 * pi * integrate(p * r**5, (r, 0, oo))
  Ku = r4 / r2**2.0
  K2 = diff(r2, t) / 2
  \<close>
  The exponent \<open>a\<close>, assigned at the top of the cell, is an argument here.
\<close>

definition fst_gen_full :: "real \<Rightarrow> real \<Rightarrow> real \<Rightarrow> real \<Rightarrow> real \<Rightarrow> real" where
  "fst_gen_full a kappa t r0 r = 1 / (4 * pi * kappa * t * r powr (a / 2) * r0 powr (a / 2))"

definition snd_gen_full :: "real \<Rightarrow> real \<Rightarrow> real \<Rightarrow> real \<Rightarrow> real \<Rightarrow> real" where
  "snd_gen_full a kappa t r0 r =
     exp (- (1 / (a - 2) ^ 2) * (r powr (2 - a) + r0 powr (2 - a)) / (kappa * t))"

definition trd_gen_full :: "real \<Rightarrow> real \<Rightarrow> real \<Rightarrow> real \<Rightarrow> real \<Rightarrow> real" where
  "trd_gen_full a kappa t r0 r =
     besseli (a / (2 - a)) (2 / (a - 2) ^ 2 * (r * r0) powr (1 - a / 2) / (kappa * t))"

definition p_gen_full :: "real \<Rightarrow> real \<Rightarrow> real \<Rightarrow> real \<Rightarrow> real \<Rightarrow> real" where
  "p_gen_full a kappa t r0 r =
     fst_gen_full a kappa t r0 r * snd_gen_full a kappa t r0 r * trd_gen_full a kappa t r0 r"

definition ra_gen_full :: "real \<Rightarrow> real \<Rightarrow> real \<Rightarrow> real \<Rightarrow> real" where
  "ra_gen_full a kappa t r0 = 2 * pi * integrate_0_oo (\<lambda>r. p_gen_full a kappa t r0 r * r)"

definition r2_gen_full :: "real \<Rightarrow> real \<Rightarrow> real \<Rightarrow> real \<Rightarrow> real" where
  "r2_gen_full a kappa t r0 = 2 * pi * integrate_0_oo (\<lambda>r. p_gen_full a kappa t r0 r * r ^ 3)"

definition r4_gen_full :: "real \<Rightarrow> real \<Rightarrow> real \<Rightarrow> real \<Rightarrow> real" where
  "r4_gen_full a kappa t r0 = 2 * pi * integrate_0_oo (\<lambda>r. p_gen_full a kappa t r0 r * r ^ 5)"

definition Ku_gen_full :: "real \<Rightarrow> real \<Rightarrow> real \<Rightarrow> real \<Rightarrow> real" where
  "Ku_gen_full a kappa t r0 = r4_gen_full a kappa t r0 / r2_gen_full a kappa t r0 powr 2"

definition K2_gen_full :: "real \<Rightarrow> real \<Rightarrow> real \<Rightarrow> real \<Rightarrow> real" where
  "K2_gen_full a kappa t r0 = diff (\<lambda>t. r2_gen_full a kappa t r0) t / 2"

lemma gauss_bessel_integral_subst:
  assumes "0 < q" "0 \<le> c" "0 < \<alpha>"
  shows "has_integral_0_oo
     (\<lambda>r. r powr \<alpha> * exp (- q * (r powr \<alpha>) ^ 2) * bessel_P n c (r powr \<alpha>) * (\<alpha> * r powr (\<alpha> - 1)))
     ((c / (2 * q)) ^ n * (exp (c ^ 2 / (4 * q)) / (2 * q)))"
  by (rule has_integral_0_oo_powr_subst[OF gauss_bessel_integral[OF assms(1,2)] assms(3)])

lemma sqrt_powr_facts:
  assumes "0 < (r::real)"
  shows "(r powr (1 / 2)) ^ 2 = r" "r powr (1 / 2) * r powr (1 / 2 - 1) = 1" "0 < r powr (1 / 2)"
proof -
  have "(r powr (1 / 2)) ^ 2 = r powr (1 / 2) * r powr (1 / 2)" by (simp add: power2_eq_square)
  also have "\<dots> = r powr (1 / 2 + 1 / 2)" by (rule powr_add[symmetric])
  finally show "(r powr (1 / 2)) ^ 2 = r" using assms by simp
  have "r powr (1 / 2) * r powr (1 / 2 - 1) = r powr (1 / 2 + (1 / 2 - 1))" by (rule powr_add[symmetric])
  thus "r powr (1 / 2) * r powr (1 / 2 - 1) = 1" using assms by simp
  show "0 < r powr (1 / 2)" using assms by simp
qed

lemma p_gen_full_1_eq:
  assumes "0 < kappa" "0 < t" "0 < r0" "0 < r"
  shows "p_gen_full 1 kappa t r0 r * r
      = exp (- (1 / (kappa * t)) * r0) / (2 * pi * kappa * t * r0 powr (1 / 2))
        * (r powr (1 / 2) * exp (- (1 / (kappa * t)) * (r powr (1 / 2)) ^ 2)
           * bessel_P 1 (2 * r0 powr (1 / 2) / (kappa * t)) (r powr (1 / 2))
           * (1 / 2 * r powr (1 / 2 - 1)))"
proof -
  define s where "s = r powr (1 / 2)"
  define s0 where "s0 = r0 powr (1 / 2)"
  define q where "q = 1 / (kappa * t)"
  define c where "c = 2 * s0 / (kappa * t)"
  have s: "0 < s" "s ^ 2 = r" "s * r powr (1 / 2 - 1) = 1"
    using sqrt_powr_facts[OF assms(4)] by (simp_all add: s_def)
  have s0: "0 < s0" using assms by (simp add: s0_def)
  have c: "0 < c" using assms s0 by (simp add: c_def)
  have f: "fst_gen_full 1 kappa t r0 r = 1 / (4 * pi * kappa * t * s * s0)"
    by (simp add: fst_gen_full_def s_def s0_def)
  have "- (1 / (1 - 2) ^ 2) * (r powr (2 - 1) + r0 powr (2 - 1)) / (kappa * t) = - q * r0 + - q * s ^ 2"
    using assms by (simp add: q_def s(2) diff_divide_distrib)
  hence e: "snd_gen_full 1 kappa t r0 r = exp (- q * r0) * exp (- q * s ^ 2)"
    unfolding snd_gen_full_def by (simp only: exp_add)
  have "(r * r0) powr (1 - 1 / 2) = s * s0"
    using assms by (simp add: powr_mult s_def s0_def)
  hence "2 / (1 - 2) ^ 2 * (r * r0) powr (1 - 1 / 2) / (kappa * t) = c * s"
    by (simp add: c_def)
  hence b: "trd_gen_full 1 kappa t r0 r = besseli 1 (c * s)"
    by (simp add: trd_gen_full_def)
  have P: "s * besseli 1 (c * s) = bessel_P 1 c s" by (rule besseli_1_P[OF c s(1)])
  have "p_gen_full 1 kappa t r0 r * r
      = 1 / (4 * pi * kappa * t * s * s0) * (exp (- q * r0) * exp (- q * s ^ 2)) * besseli 1 (c * s) * (s * s)"
    unfolding p_gen_full_def f e b using s(2) by (simp add: power2_eq_square)
  also have "\<dots> = exp (- q * r0) / (4 * pi * kappa * t * s0) * (exp (- q * s ^ 2) * (s * besseli 1 (c * s)))"
    using s(1) s0 assms by (simp add: field_simps)
  also have "\<dots> = exp (- q * r0) / (4 * pi * kappa * t * s0) * (exp (- q * s ^ 2) * bessel_P 1 c s)"
    unfolding P ..
  also have "\<dots> = exp (- q * r0) / (2 * pi * kappa * t * s0)
      * (exp (- q * s ^ 2) * bessel_P 1 c s * (1 / 2 * (s * r powr (1 / 2 - 1))))"
    unfolding s(3) by simp
  also have "\<dots> = exp (- q * r0) / (2 * pi * kappa * t * s0)
      * (s * exp (- q * s ^ 2) * bessel_P 1 c s * (1 / 2 * r powr (1 / 2 - 1)))"
    by (simp only: mult_ac)
  finally show ?thesis unfolding s_def s0_def q_def c_def .
qed

text \<open>
  Claim C1 says that the normalization integral \<open>2 \<pi> \<integral> p r dr\<close> of every regime's density is 1.
  The density of the generalized full regime, with the value \<open>a = 1\<close> the cell assigns, does not
  have this property: for all positive \<open>\<kappa>\<close>, \<open>t\<close> and \<open>r0\<close> its normalization integral is
  \<open>1/2\<close>. (Its prefactor is \<open>1 / (4 \<pi> ...)\<close> for every \<open>a\<close>; a density of this family is
  normalized with \<open>1 / (2 \<pi> (2 - a) ...)\<close>, which is the prefactor of the full diffusive
  (\<open>a = 0\<close>), full Garrett--Munk (\<open>a = 3/2\<close>) and full Richardson (\<open>a = 4/3\<close>) cells.)
\<close>

theorem gen_full_normalization:
  assumes "0 < kappa" "0 < t" "0 < r0"
  shows "ra_gen_full 1 kappa t r0 = 1 / 2"
proof -
  define s0 where "s0 = r0 powr (1 / 2)"
  define q where "q = 1 / (kappa * t)"
  define c where "c = 2 * s0 / (kappa * t)"
  define K where "K = exp (- q * r0) / (2 * pi * kappa * t * s0)"
  have s0: "0 < s0" "s0 ^ 2 = r0" using sqrt_powr_facts[OF assms(3)] by (simp_all add: s0_def)
  have q: "0 < q" and c: "0 \<le> c" using assms s0 by (simp_all add: q_def c_def)
  have "c ^ 2 / (4 * q) = q * s0 ^ 2"
    using assms by (simp add: c_def q_def power2_eq_square field_simps)
  hence e: "c ^ 2 / (4 * q) = q * r0" unfolding s0(2) .
  have cq: "c / (2 * q) = s0" using assms by (simp add: c_def q_def)
  have "has_integral_0_oo
     (\<lambda>r. K * (r powr (1 / 2) * exp (- q * (r powr (1 / 2)) ^ 2) * bessel_P 1 c (r powr (1 / 2))
              * (1 / 2 * r powr (1 / 2 - 1))))
     (K * ((c / (2 * q)) ^ 1 * (exp (c ^ 2 / (4 * q)) / (2 * q))))"
    by (rule has_integral_0_oo_cmult[OF gauss_bessel_integral_subst[OF q c]]) simp
  hence "has_integral_0_oo (\<lambda>r. p_gen_full 1 kappa t r0 r * r)
     (K * ((c / (2 * q)) ^ 1 * (exp (c ^ 2 / (4 * q)) / (2 * q))))"
    by (rule has_integral_0_oo_cong)
       (simp only: p_gen_full_1_eq[OF assms] K_def q_def c_def s0_def)
  from integrate_0_oo_eq[OF this]
  have "ra_gen_full 1 kappa t r0 = 2 * pi * (K * (s0 * (exp (q * r0) / (2 * q))))"
    unfolding ra_gen_full_def e cq by simp
  also have "\<dots> = 2 * pi * ((exp (- q * r0) * exp (q * r0)) / (2 * pi * kappa * t * s0) * s0 / (2 * q))"
    by (simp add: K_def)
  also have "exp (- q * r0) * exp (q * r0) = 1"
    unfolding exp_add[symmetric] by simp
  also have "2 * pi * (1 / (2 * pi * kappa * t * s0) * s0 / (2 * q)) = 1 / 2"
    using assms s0(1) by (simp add: q_def)
  finally show ?thesis .
qed

theorem gen_full_normalization_witness: "ra_gen_full 1 1 1 1 = 1 / 2"
proof -
  have one: "(0::real) < 1" by simp
  show ?thesis by (rule gen_full_normalization[OF one one one])
qed

section \<open>Full Garrett--Munk and full Richardson regimes (notebook sections 2.5 and 2.9)\<close>

text \<open>
  \<^verbatim>\<open>
  fst = 1.0 / (pi * lmbd * t * (r0 * r)**(3.0/4.0))
  scd = exp(-4.0*(r0**(1.0/2.0) + r**(1.0/2.0))/(lmbd * t))
  tmp = 8.0 * ((r0 * r)**(1.0/4.0)) / (lmbd * t)
  trd = besseli(3, tmp)# * exp(-tmp)
  p = fst * scd * trd
  \<close>
  and
  \<^verbatim>\<open>
  fst = 3.0 / (4.0 * pi * beta * t * (r0 * r)**(2.0/3.0))
  scd = exp(-9.0*(r0**(2.0/3.0) + r**(2.0/3.0))/(4.0 * beta * t))
  tmp = 9.0 * ((r0 * r)**(1.0/3.0)) / (2.0 * beta * t)
  trd = besseli(2, tmp)# * exp(-tmp)
  p = fst * scd * trd
  \<close>
  each followed by the lines for \<open>ra\<close>, \<open>r2\<close>, \<open>r4\<close>, \<open>Ku\<close> and \<open>K2\<close>.
\<close>

lemma integrate_gauss_bessel_subst:
  assumes "0 < q" "0 \<le> c" "0 < \<alpha>"
    and "\<And>r. 0 < r \<Longrightarrow> f r = K * (r powr \<alpha> * exp (- q * (r powr \<alpha>) ^ 2)
            * bessel_P n c (r powr \<alpha>) * (\<alpha> * r powr (\<alpha> - 1)))"
  shows "integrate_0_oo f = K * ((c / (2 * q)) ^ n * (exp (c ^ 2 / (4 * q)) / (2 * q)))"
proof (rule integrate_0_oo_eq)
  have "has_integral_0_oo
     (\<lambda>r. K * (r powr \<alpha> * exp (- q * (r powr \<alpha>) ^ 2) * bessel_P n c (r powr \<alpha>) * (\<alpha> * r powr (\<alpha> - 1))))
     (K * ((c / (2 * q)) ^ n * (exp (c ^ 2 / (4 * q)) / (2 * q))))"
    by (rule has_integral_0_oo_cmult[OF gauss_bessel_integral_subst[OF assms(1-3)]])
  thus "has_integral_0_oo f (K * ((c / (2 * q)) ^ n * (exp (c ^ 2 / (4 * q)) / (2 * q))))"
    by (rule has_integral_0_oo_cong) (simp only: assms(4))
qed

lemma powr_power_nat: "0 < (r::real) \<Longrightarrow> (r powr a) ^ n = r powr (a * real n)"
proof -
  assume r: "0 < r"
  have "(r powr a) ^ n = (r powr a) powr real n" using r by (simp add: powr_realpow)
  also have "\<dots> = r powr (a * real n)" by (rule powr_powr)
  finally show ?thesis .
qed

definition fst_full_GM :: "real \<Rightarrow> real \<Rightarrow> real \<Rightarrow> real \<Rightarrow> real" where
  "fst_full_GM lmbd t r0 r = 1 / (pi * lmbd * t * (r0 * r) powr (3 / 4))"

definition scd_full_GM :: "real \<Rightarrow> real \<Rightarrow> real \<Rightarrow> real \<Rightarrow> real" where
  "scd_full_GM lmbd t r0 r = exp (- 4 * (r0 powr (1 / 2) + r powr (1 / 2)) / (lmbd * t))"

definition tmp_full_GM :: "real \<Rightarrow> real \<Rightarrow> real \<Rightarrow> real \<Rightarrow> real" where
  "tmp_full_GM lmbd t r0 r = 8 * ((r0 * r) powr (1 / 4)) / (lmbd * t)"

definition trd_full_GM :: "real \<Rightarrow> real \<Rightarrow> real \<Rightarrow> real \<Rightarrow> real" where
  "trd_full_GM lmbd t r0 r = besseli 3 (tmp_full_GM lmbd t r0 r)"

definition p_full_GM :: "real \<Rightarrow> real \<Rightarrow> real \<Rightarrow> real \<Rightarrow> real" where
  "p_full_GM lmbd t r0 r = fst_full_GM lmbd t r0 r * scd_full_GM lmbd t r0 r * trd_full_GM lmbd t r0 r"

definition ra_full_GM :: "real \<Rightarrow> real \<Rightarrow> real \<Rightarrow> real" where
  "ra_full_GM lmbd t r0 = 2 * pi * integrate_0_oo (\<lambda>r. p_full_GM lmbd t r0 r * r)"

definition r2_full_GM :: "real \<Rightarrow> real \<Rightarrow> real \<Rightarrow> real" where
  "r2_full_GM lmbd t r0 = 2 * pi * integrate_0_oo (\<lambda>r. p_full_GM lmbd t r0 r * r ^ 3)"

definition r4_full_GM :: "real \<Rightarrow> real \<Rightarrow> real \<Rightarrow> real" where
  "r4_full_GM lmbd t r0 = 2 * pi * integrate_0_oo (\<lambda>r. p_full_GM lmbd t r0 r * r ^ 5)"

definition Ku_full_GM :: "real \<Rightarrow> real \<Rightarrow> real \<Rightarrow> real" where
  "Ku_full_GM lmbd t r0 = r4_full_GM lmbd t r0 / r2_full_GM lmbd t r0 powr 2"

definition K2_full_GM :: "real \<Rightarrow> real \<Rightarrow> real \<Rightarrow> real" where
  "K2_full_GM lmbd t r0 = diff (\<lambda>t. r2_full_GM lmbd t r0) t / 2"

lemma quarter_powr_facts:
  assumes "0 < (r::real)"
  shows "(r powr (1 / 4)) ^ 4 = r" "(r powr (1 / 4)) ^ 2 = r powr (1 / 2)"
    "(r powr (1 / 4)) ^ 3 = r powr (3 / 4)"
    "(r powr (1 / 4)) ^ 3 * r powr (1 / 4 - 1) = 1" "0 < r powr (1 / 4)"
proof -
  show "(r powr (1 / 4)) ^ 4 = r" using assms by (simp add: powr_power_nat)
  show "(r powr (1 / 4)) ^ 2 = r powr (1 / 2)" using assms by (simp add: powr_power_nat)
  show 3: "(r powr (1 / 4)) ^ 3 = r powr (3 / 4)" using assms by (simp add: powr_power_nat)
  have "r powr (3 / 4) * r powr (1 / 4 - 1) = r powr (3 / 4 + (1 / 4 - 1))" by (rule powr_add[symmetric])
  thus "(r powr (1 / 4)) ^ 3 * r powr (1 / 4 - 1) = 1" unfolding 3 using assms by simp
  show "0 < r powr (1 / 4)" using assms by simp
qed

lemma p_full_GM_eq:
  assumes "0 < lmbd" "0 < t" "0 < r0" "0 < r"
  shows "p_full_GM lmbd t r0 r * r
      = 4 * exp (- (4 / (lmbd * t)) * (r0 powr (1 / 4)) ^ 2) / (pi * lmbd * t * (r0 powr (1 / 4)) ^ 3)
        * (r powr (1 / 4) * exp (- (4 / (lmbd * t)) * (r powr (1 / 4)) ^ 2)
           * bessel_P 3 (8 * r0 powr (1 / 4) / (lmbd * t)) (r powr (1 / 4))
           * (1 / 4 * r powr (1 / 4 - 1)))"
proof -
  define s where "s = r powr (1 / 4)"
  define s0 where "s0 = r0 powr (1 / 4)"
  define q where "q = 4 / (lmbd * t)"
  define c where "c = 8 * s0 / (lmbd * t)"
  define w where "w = r powr (1 / 4 - 1)"
  note sr = quarter_powr_facts[OF assms(4), folded s_def w_def]
  note s0r = quarter_powr_facts[OF assms(3), folded s0_def]
  have c: "0 < c" using assms s0r(5) by (simp add: c_def)
  have f: "fst_full_GM lmbd t r0 r = 1 / (pi * lmbd * t * (s0 ^ 3 * s ^ 3))"
    using assms by (simp add: fst_full_GM_def powr_mult sr(3) s0r(3))
  have "- 4 * (r0 powr (1 / 2) + r powr (1 / 2)) / (lmbd * t) = - q * s0 ^ 2 + - q * s ^ 2"
    unfolding sr(2) s0r(2) by (simp add: q_def diff_divide_distrib algebra_simps)
  hence e: "scd_full_GM lmbd t r0 r = exp (- q * s0 ^ 2) * exp (- q * s ^ 2)"
    unfolding scd_full_GM_def by (simp only: exp_add)
  have "(r0 * r) powr (1 / 4) = s0 * s" using assms by (simp add: powr_mult s_def s0_def)
  hence "tmp_full_GM lmbd t r0 r = c * s" by (simp add: tmp_full_GM_def c_def)
  hence b: "trd_full_GM lmbd t r0 r = besseli (real 3) (c * s)" by (simp add: trd_full_GM_def)
  have P: "s ^ 3 * besseli (real 3) (c * s) = bessel_P 3 c s" by (rule besseli_P[OF c sr(5)])
  have r4: "r = s ^ 3 * s" using sr(1) by (simp add: power_eq_if)
  have "p_full_GM lmbd t r0 r * r
      = 1 / (pi * lmbd * t * (s0 ^ 3 * s ^ 3)) * (exp (- q * s0 ^ 2) * exp (- q * s ^ 2))
          * besseli (real 3) (c * s) * (s ^ 3 * s)"
    unfolding p_full_GM_def f e b using r4 by simp
  also have "\<dots> = exp (- q * s0 ^ 2) / (pi * lmbd * t * s0 ^ 3) * (s * exp (- q * s ^ 2) * besseli (real 3) (c * s))"
    using sr(5) s0r(5) assms by (simp add: field_simps)
  finally have 1: "p_full_GM lmbd t r0 r * r
      = exp (- q * s0 ^ 2) / (pi * lmbd * t * s0 ^ 3) * (s * exp (- q * s ^ 2) * besseli (real 3) (c * s))" .
  have "s * exp (- q * s ^ 2) * bessel_P 3 c s * (1 / 4 * w)
      = 1 / 4 * (s * exp (- q * s ^ 2) * besseli (real 3) (c * s)) * (s ^ 3 * w)"
    unfolding P[symmetric] by (simp only: mult_ac)
  hence 2: "s * exp (- q * s ^ 2) * bessel_P 3 c s * (1 / 4 * w)
      = 1 / 4 * (s * exp (- q * s ^ 2) * besseli (real 3) (c * s))"
    unfolding sr(4) by simp
  have "p_full_GM lmbd t r0 r * r
      = 4 * exp (- q * s0 ^ 2) / (pi * lmbd * t * s0 ^ 3)
        * (s * exp (- q * s ^ 2) * bessel_P 3 c s * (1 / 4 * w))"
    unfolding 1 2 by simp
  thus ?thesis unfolding s_def s0_def q_def c_def w_def .
qed

lemma ra_full_GM_eq:
  assumes "0 < lmbd" "0 < t" "0 < r0"
  shows "ra_full_GM lmbd t r0 = 1"
proof -
  define s0 where "s0 = r0 powr (1 / 4)"
  define q where "q = 4 / (lmbd * t)"
  define c where "c = 8 * s0 / (lmbd * t)"
  define K where "K = 4 * exp (- q * s0 ^ 2) / (pi * lmbd * t * s0 ^ 3)"
  have s0: "0 < s0" using assms by (simp add: s0_def)
  have q: "0 < q" and c: "0 \<le> c" using assms s0 by (simp_all add: q_def c_def)
  have e: "c ^ 2 / (4 * q) = q * s0 ^ 2"
    using assms by (simp add: c_def q_def power2_eq_square field_simps)
  have cq: "c / (2 * q) = s0" using assms by (simp add: c_def q_def)
  have ident: "p_full_GM lmbd t r0 r * r
      = K * (r powr (1 / 4) * exp (- q * (r powr (1 / 4)) ^ 2) * bessel_P 3 c (r powr (1 / 4))
              * (1 / 4 * r powr (1 / 4 - 1)))" if "0 < r" for r
    unfolding K_def q_def c_def s0_def by (rule p_full_GM_eq[OF assms that])
  have "integrate_0_oo (\<lambda>r. p_full_GM lmbd t r0 r * r)
      = K * ((c / (2 * q)) ^ 3 * (exp (c ^ 2 / (4 * q)) / (2 * q)))"
    by (rule integrate_gauss_bessel_subst[OF q c _ ident]) simp_all
  hence "ra_full_GM lmbd t r0 = 2 * pi * (K * (s0 ^ 3 * (exp (q * s0 ^ 2) / (2 * q))))"
    unfolding ra_full_GM_def e cq by simp
  also have "\<dots> = 2 * pi * (4 * (exp (- q * s0 ^ 2) * exp (q * s0 ^ 2)) / (pi * lmbd * t * s0 ^ 3) * s0 ^ 3 / (2 * q))"
    by (simp add: K_def)
  also have "exp (- q * s0 ^ 2) * exp (q * s0 ^ 2) = 1"
    unfolding exp_add[symmetric] by simp
  also have "2 * pi * (4 * 1 / (pi * lmbd * t * s0 ^ 3) * s0 ^ 3 / (2 * q)) = 1"
    using assms s0 by (simp add: q_def)
  finally show ?thesis .
qed

definition fst_full_Richardson :: "real \<Rightarrow> real \<Rightarrow> real \<Rightarrow> real \<Rightarrow> real" where
  "fst_full_Richardson beta t r0 r = 3 / (4 * pi * beta * t * (r0 * r) powr (2 / 3))"

definition scd_full_Richardson :: "real \<Rightarrow> real \<Rightarrow> real \<Rightarrow> real \<Rightarrow> real" where
  "scd_full_Richardson beta t r0 r = exp (- 9 * (r0 powr (2 / 3) + r powr (2 / 3)) / (4 * beta * t))"

definition tmp_full_Richardson :: "real \<Rightarrow> real \<Rightarrow> real \<Rightarrow> real \<Rightarrow> real" where
  "tmp_full_Richardson beta t r0 r = 9 * ((r0 * r) powr (1 / 3)) / (2 * beta * t)"

definition trd_full_Richardson :: "real \<Rightarrow> real \<Rightarrow> real \<Rightarrow> real \<Rightarrow> real" where
  "trd_full_Richardson beta t r0 r = besseli 2 (tmp_full_Richardson beta t r0 r)"

definition p_full_Richardson :: "real \<Rightarrow> real \<Rightarrow> real \<Rightarrow> real \<Rightarrow> real" where
  "p_full_Richardson beta t r0 r =
     fst_full_Richardson beta t r0 r * scd_full_Richardson beta t r0 r * trd_full_Richardson beta t r0 r"

definition ra_full_Richardson :: "real \<Rightarrow> real \<Rightarrow> real \<Rightarrow> real" where
  "ra_full_Richardson beta t r0 = 2 * pi * integrate_0_oo (\<lambda>r. p_full_Richardson beta t r0 r * r)"

definition r2_full_Richardson :: "real \<Rightarrow> real \<Rightarrow> real \<Rightarrow> real" where
  "r2_full_Richardson beta t r0 = 2 * pi * integrate_0_oo (\<lambda>r. p_full_Richardson beta t r0 r * r ^ 3)"

definition r4_full_Richardson :: "real \<Rightarrow> real \<Rightarrow> real \<Rightarrow> real" where
  "r4_full_Richardson beta t r0 = 2 * pi * integrate_0_oo (\<lambda>r. p_full_Richardson beta t r0 r * r ^ 5)"

definition Ku_full_Richardson :: "real \<Rightarrow> real \<Rightarrow> real \<Rightarrow> real" where
  "Ku_full_Richardson beta t r0 = r4_full_Richardson beta t r0 / r2_full_Richardson beta t r0 powr 2"

definition K2_full_Richardson :: "real \<Rightarrow> real \<Rightarrow> real \<Rightarrow> real" where
  "K2_full_Richardson beta t r0 = diff (\<lambda>t. r2_full_Richardson beta t r0) t / 2"

lemma third_powr_facts:
  assumes "0 < (r::real)"
  shows "(r powr (1 / 3)) ^ 3 = r" "(r powr (1 / 3)) ^ 2 = r powr (2 / 3)"
    "(r powr (1 / 3)) ^ 2 * r powr (1 / 3 - 1) = 1" "0 < r powr (1 / 3)"
proof -
  show "(r powr (1 / 3)) ^ 3 = r" using assms by (simp add: powr_power_nat)
  show 2: "(r powr (1 / 3)) ^ 2 = r powr (2 / 3)" using assms by (simp add: powr_power_nat)
  have "r powr (2 / 3) * r powr (1 / 3 - 1) = r powr (2 / 3 + (1 / 3 - 1))" by (rule powr_add[symmetric])
  thus "(r powr (1 / 3)) ^ 2 * r powr (1 / 3 - 1) = 1" unfolding 2 using assms by simp
  show "0 < r powr (1 / 3)" using assms by simp
qed

lemma p_full_Richardson_eq:
  assumes "0 < beta" "0 < t" "0 < r0" "0 < r"
  shows "p_full_Richardson beta t r0 r * r
      = 9 * exp (- (9 / (4 * beta * t)) * (r0 powr (1 / 3)) ^ 2) / (4 * pi * beta * t * (r0 powr (1 / 3)) ^ 2)
        * (r powr (1 / 3) * exp (- (9 / (4 * beta * t)) * (r powr (1 / 3)) ^ 2)
           * bessel_P 2 (9 * r0 powr (1 / 3) / (2 * beta * t)) (r powr (1 / 3))
           * (1 / 3 * r powr (1 / 3 - 1)))"
proof -
  define s where "s = r powr (1 / 3)"
  define s0 where "s0 = r0 powr (1 / 3)"
  define q where "q = 9 / (4 * beta * t)"
  define c where "c = 9 * s0 / (2 * beta * t)"
  define w where "w = r powr (1 / 3 - 1)"
  note sr = third_powr_facts[OF assms(4), folded s_def w_def]
  note s0r = third_powr_facts[OF assms(3), folded s0_def]
  have c: "0 < c" using assms s0r(4) by (simp add: c_def)
  have f: "fst_full_Richardson beta t r0 r = 3 / (4 * pi * beta * t * (s0 ^ 2 * s ^ 2))"
    using assms by (simp add: fst_full_Richardson_def powr_mult sr(2) s0r(2))
  have "- 9 * (r0 powr (2 / 3) + r powr (2 / 3)) / (4 * beta * t) = - q * s0 ^ 2 + - q * s ^ 2"
    unfolding sr(2) s0r(2) by (simp add: q_def diff_divide_distrib algebra_simps)
  hence e: "scd_full_Richardson beta t r0 r = exp (- q * s0 ^ 2) * exp (- q * s ^ 2)"
    unfolding scd_full_Richardson_def by (simp only: exp_add)
  have "(r0 * r) powr (1 / 3) = s0 * s" using assms by (simp add: powr_mult s_def s0_def)
  hence "tmp_full_Richardson beta t r0 r = c * s" by (simp add: tmp_full_Richardson_def c_def)
  hence b: "trd_full_Richardson beta t r0 r = besseli (real 2) (c * s)"
    by (simp add: trd_full_Richardson_def)
  have P: "s ^ 2 * besseli (real 2) (c * s) = bessel_P 2 c s" by (rule besseli_P[OF c sr(4)])
  have r3: "r = s ^ 2 * s" using sr(1) by (simp add: power_eq_if)
  have "p_full_Richardson beta t r0 r * r
      = 3 / (4 * pi * beta * t * (s0 ^ 2 * s ^ 2)) * (exp (- q * s0 ^ 2) * exp (- q * s ^ 2))
          * besseli (real 2) (c * s) * (s ^ 2 * s)"
    unfolding p_full_Richardson_def f e b using r3 by simp
  also have "\<dots> = 3 * exp (- q * s0 ^ 2) / (4 * pi * beta * t * s0 ^ 2)
      * (s * exp (- q * s ^ 2) * besseli (real 2) (c * s))"
    using sr(4) s0r(4) assms by (simp add: field_simps)
  finally have 1: "p_full_Richardson beta t r0 r * r
      = 3 * exp (- q * s0 ^ 2) / (4 * pi * beta * t * s0 ^ 2)
      * (s * exp (- q * s ^ 2) * besseli (real 2) (c * s))" .
  have "s * exp (- q * s ^ 2) * bessel_P 2 c s * (1 / 3 * w)
      = 1 / 3 * (s * exp (- q * s ^ 2) * besseli (real 2) (c * s)) * (s ^ 2 * w)"
    unfolding P[symmetric] by (simp only: mult_ac)
  hence 2: "s * exp (- q * s ^ 2) * bessel_P 2 c s * (1 / 3 * w)
      = 1 / 3 * (s * exp (- q * s ^ 2) * besseli (real 2) (c * s))"
    unfolding sr(3) by simp
  have "p_full_Richardson beta t r0 r * r
      = 9 * exp (- q * s0 ^ 2) / (4 * pi * beta * t * s0 ^ 2)
        * (s * exp (- q * s ^ 2) * bessel_P 2 c s * (1 / 3 * w))"
    unfolding 1 2 by (simp add: mult_ac)
  thus ?thesis unfolding s_def s0_def q_def c_def w_def .
qed

lemma ra_full_Richardson_eq:
  assumes "0 < beta" "0 < t" "0 < r0"
  shows "ra_full_Richardson beta t r0 = 1"
proof -
  define s0 where "s0 = r0 powr (1 / 3)"
  define q where "q = 9 / (4 * beta * t)"
  define c where "c = 9 * s0 / (2 * beta * t)"
  define K where "K = 9 * exp (- q * s0 ^ 2) / (4 * pi * beta * t * s0 ^ 2)"
  have s0: "0 < s0" using assms by (simp add: s0_def)
  have q: "0 < q" and c: "0 \<le> c" using assms s0 by (simp_all add: q_def c_def)
  have e: "c ^ 2 / (4 * q) = q * s0 ^ 2"
    using assms by (simp add: c_def q_def power2_eq_square field_simps)
  have cq: "c / (2 * q) = s0" using assms by (simp add: c_def q_def)
  have ident: "p_full_Richardson beta t r0 r * r
      = K * (r powr (1 / 3) * exp (- q * (r powr (1 / 3)) ^ 2) * bessel_P 2 c (r powr (1 / 3))
              * (1 / 3 * r powr (1 / 3 - 1)))" if "0 < r" for r
    unfolding K_def q_def c_def s0_def by (rule p_full_Richardson_eq[OF assms that])
  have "integrate_0_oo (\<lambda>r. p_full_Richardson beta t r0 r * r)
      = K * ((c / (2 * q)) ^ 2 * (exp (c ^ 2 / (4 * q)) / (2 * q)))"
    by (rule integrate_gauss_bessel_subst[OF q c _ ident]) simp_all
  hence "ra_full_Richardson beta t r0 = 2 * pi * (K * (s0 ^ 2 * (exp (q * s0 ^ 2) / (2 * q))))"
    unfolding ra_full_Richardson_def e cq by simp
  also have "\<dots> = 2 * pi * (9 * (exp (- q * s0 ^ 2) * exp (q * s0 ^ 2)) / (4 * pi * beta * t * s0 ^ 2) * s0 ^ 2 / (2 * q))"
    by (simp add: K_def)
  also have "exp (- q * s0 ^ 2) * exp (q * s0 ^ 2) = 1"
    unfolding exp_add[symmetric] by simp
  also have "2 * pi * (9 * 1 / (4 * pi * beta * t * s0 ^ 2) * s0 ^ 2 / (2 * q)) = 1"
    using assms s0 by (simp add: q_def)
  finally show ?thesis .
qed

section \<open>The Gaussian integral\<close>

text \<open>
  The Lundgren regime needs the integral of \<open>exp (- x\<^sup>2)\<close> over the real line. It is derived
  here from an antiderivative given by a power series, whose limit at infinity is found by
  comparing \<open>exp (- x\<^sup>2)\<close> with \<open>(1 - x\<^sup>2 / n) ^ n\<close> on \<open>[0, sqrt n]\<close> and evaluating the
  integrals of the latter with the integrals of the powers of the sine.
\<close>

subsection \<open>An antiderivative of \<open>exp (- x\<^sup>2)\<close>\<close>

definition erf_coeff :: "nat \<Rightarrow> real" where
  "erf_coeff k = (- 1) ^ k / (fact k * real (2 * k + 1))"

definition erf_series :: "real \<Rightarrow> real" where
  "erf_series z = (\<Sum>k. erf_coeff k * z ^ k)"

definition gauss_anti :: "real \<Rightarrow> real" where
  "gauss_anti x = x * erf_series (x ^ 2)"

lemma erf_coeff_abs_le: "\<bar>erf_coeff k\<bar> \<le> inverse (fact k)"
proof -
  define A :: real where "A = fact k"
  define b where "b = real (2 * k + 1)"
  have pos: "0 < A" "1 \<le> b" by (simp_all add: A_def b_def)
  have "A * 1 \<le> A * b" using pos by (intro mult_left_mono) simp_all
  hence "inverse (A * b) \<le> inverse A" using pos by (intro le_imp_inverse_le) simp_all
  moreover have "\<bar>(- 1) ^ k / (A * b)\<bar> = inverse (A * b)"
    using pos by (simp add: power_abs inverse_eq_divide)
  ultimately show ?thesis unfolding erf_coeff_def A_def[symmetric] b_def[symmetric] by simp
qed

lemma summable_erf: "summable (\<lambda>k. erf_coeff k * z ^ k)"
proof (rule summable_comparison_test)
  show "summable (\<lambda>k. inverse (fact k) * \<bar>z\<bar> ^ k)" by (rule summable_exp)
  show "\<exists>N. \<forall>k\<ge>N. norm (erf_coeff k * z ^ k) \<le> inverse (fact k) * \<bar>z\<bar> ^ k"
  proof (intro exI[of _ 0] allI impI)
    fix k
    have "norm (erf_coeff k * z ^ k) = \<bar>erf_coeff k\<bar> * \<bar>z\<bar> ^ k"
      by (simp add: abs_mult power_abs)
    also have "\<dots> \<le> inverse (fact k) * \<bar>z\<bar> ^ k"
      by (intro mult_right_mono erf_coeff_abs_le) simp
    finally show "norm (erf_coeff k * z ^ k) \<le> inverse (fact k) * \<bar>z\<bar> ^ k" .
  qed
qed

lemma erf_series_deriv:
  "(erf_series has_real_derivative (\<Sum>k. diffs erf_coeff k * z ^ k)) (at z)"
proof -
  have "((\<lambda>z. \<Sum>k. erf_coeff k * z ^ k) has_field_derivative
      (\<Sum>k. diffs erf_coeff k * z ^ k)) (at z)"
    by (rule termdiffs_strong_converges_everywhere) (rule summable_erf)
  thus ?thesis unfolding erf_series_def[abs_def] .
qed

lemma erf_term: "real (2 * k + 1) * (erf_coeff k * z ^ k) = (- z) ^ k /\<^sub>R fact k"
proof -
  define A :: real where "A = fact k"
  define b where "b = real (2 * k + 1)"
  define s :: real where "s = (- 1) ^ k"
  define Z where "Z = z ^ k"
  have pos: "0 < A" "0 < b" by (simp_all add: A_def b_def)
  have m: "(- z) ^ k = s * Z" unfolding s_def Z_def by (rule power_minus)
  have "b * (s / (A * b) * Z) = inverse A * (s * Z)"
    using pos by (simp add: field_simps)
  thus ?thesis
    unfolding erf_coeff_def m real_scaleR_def A_def[symmetric] b_def[symmetric]
      s_def[symmetric] Z_def[symmetric] .
qed

lemma erf_series_ode:
  "erf_series z + 2 * z * (\<Sum>k. diffs erf_coeff k * z ^ k) = exp (- z)"
proof -
  let ?c = "\<lambda>k. erf_coeff k * z ^ k"
  let ?e = "\<lambda>k. (- z) ^ k /\<^sub>R fact k"
  let ?g = "\<lambda>k. real k * (erf_coeff k * z ^ k)"
  have sc: "summable ?c" by (rule summable_erf)
  have se: "summable ?e" by (rule summable_exp_generic)
  have ge: "?g k = (?e k - ?c k) / 2" for k
    using erf_term[of k z] by (simp add: algebra_simps)
  have sg: "summable ?g"
    unfolding ge by (intro summable_divide summable_diff se sc)
  have sumg: "(\<Sum>k. ?g k) = (exp (- z) - erf_series z) / 2"
    unfolding ge erf_series_def exp_def
    using suminf_diff[OF se sc] suminf_divide[OF summable_diff[OF se sc], of 2] by simp
  have d: "z * (diffs erf_coeff k * z ^ k) = ?g (Suc k)" for k
    by (simp add: diffs_def algebra_simps)
  have sd: "summable (\<lambda>k. diffs erf_coeff k * z ^ k)"
    by (rule termdiff_converges_all) (rule summable_erf)
  have "z * (\<Sum>k. diffs erf_coeff k * z ^ k) = (\<Sum>k. z * (diffs erf_coeff k * z ^ k))"
    by (rule suminf_mult[symmetric, OF sd])
  also have "\<dots> = (\<Sum>k. ?g (Suc k))" by (simp only: d)
  also have "\<dots> = (\<Sum>k. ?g k) - ?g 0" by (rule suminf_split_head[OF sg])
  finally have "z * (\<Sum>k. diffs erf_coeff k * z ^ k) = (exp (- z) - erf_series z) / 2"
    using sumg by simp
  thus ?thesis by simp
qed

lemma gauss_anti_deriv: "(gauss_anti has_real_derivative exp (- (x ^ 2))) (at x)"
proof -
  let ?D = "\<Sum>k. diffs erf_coeff k * (x ^ 2) ^ k"
  have sq: "((\<lambda>x. x ^ 2) has_real_derivative 2 * x) (at x)"
    by (auto intro!: derivative_eq_intros)
  have comp: "((\<lambda>x. erf_series (x ^ 2)) has_real_derivative ?D * (2 * x)) (at x)"
    by (rule DERIV_chain2[OF erf_series_deriv sq])
  have "((\<lambda>x. x * erf_series (x ^ 2)) has_real_derivative
      x * (?D * (2 * x)) + 1 * erf_series (x ^ 2)) (at x)"
    by (rule DERIV_mult'[OF DERIV_ident comp])
  moreover have "x * (?D * (2 * x)) + 1 * erf_series (x ^ 2) = exp (- (x ^ 2))"
    using erf_series_ode[of "x ^ 2"] by (simp add: power2_eq_square algebra_simps)
  ultimately show ?thesis unfolding gauss_anti_def[abs_def] by simp
qed

lemma gauss_anti_0: "gauss_anti 0 = 0"
  by (simp add: gauss_anti_def)

lemma gauss_anti_odd: "gauss_anti (- x) = - gauss_anti x"
  by (simp add: gauss_anti_def)

subsection \<open>Its limit at infinity exists\<close>

lemma deriv_compare:
  fixes F G :: "real \<Rightarrow> real"
  assumes ab: "a \<le> b"
    and F: "\<And>x. a \<le> x \<Longrightarrow> x \<le> b \<Longrightarrow> (F has_real_derivative f x) (at x)"
    and G: "\<And>x. a \<le> x \<Longrightarrow> x \<le> b \<Longrightarrow> (G has_real_derivative g x) (at x)"
    and le: "\<And>x. a \<le> x \<Longrightarrow> x \<le> b \<Longrightarrow> f x \<le> g x"
  shows "F b - F a \<le> G b - G a"
proof -
  have "G a - F a \<le> G b - F b"
  proof (rule DERIV_nonneg_imp_nondecreasing[OF ab, of "\<lambda>x. G x - F x"])
    fix x assume x: "a \<le> x" "x \<le> b"
    have "((\<lambda>x. G x - F x) has_real_derivative g x - f x) (at x)"
      by (rule DERIV_diff[OF G[OF x] F[OF x]])
    moreover have "0 \<le> g x - f x" using le[OF x] by simp
    ultimately show "\<exists>y. ((\<lambda>x. G x - F x) has_real_derivative y) (at x) \<and> 0 \<le> y"
      by blast
  qed
  thus ?thesis by simp
qed

lemma gauss_anti_mono: "mono gauss_anti"
proof (rule monoI)
  fix x y :: real assume xy: "x \<le> y"
  show "gauss_anti x \<le> gauss_anti y"
  proof (rule DERIV_nonneg_imp_nondecreasing[OF xy])
    fix u
    show "\<exists>d. (gauss_anti has_real_derivative d) (at u) \<and> 0 \<le> d"
      using gauss_anti_deriv[of u] by (intro exI[of _ "exp (- (u ^ 2))"]) simp
  qed
qed

lemma gauss_anti_nonneg: "0 \<le> x \<Longrightarrow> 0 \<le> gauss_anti x"
  using monoD[OF gauss_anti_mono, of 0 x] by (simp add: gauss_anti_0)

lemma exp_minus_square_le: "exp (- (x ^ 2)) \<le> exp (1 / 4) * exp (- x)" for x :: real
proof -
  have "0 \<le> (x - 1 / 2) ^ 2" by simp
  hence "- (x ^ 2) \<le> 1 / 4 + - x" by (simp add: power2_eq_square algebra_simps)
  hence "exp (- (x ^ 2)) \<le> exp (1 / 4 + - x)" by (simp only: exp_le_cancel_iff)
  thus ?thesis by (simp only: exp_add)
qed

lemma gauss_anti_bound: "gauss_anti x \<le> exp (1 / 4)"
proof (cases "0 \<le> x")
  case True
  let ?G = "\<lambda>x::real. - (exp (1 / 4) * exp (- x))"
  have G: "(?G has_real_derivative exp (1 / 4) * exp (- u)) (at u)" for u
    by (auto intro!: derivative_eq_intros)
  define E where "E = exp (1 / 4) * exp (- x)"
  have "gauss_anti x - gauss_anti 0 \<le> ?G x - ?G 0"
    by (rule deriv_compare[OF True gauss_anti_deriv G exp_minus_square_le])
  hence "gauss_anti x \<le> exp (1 / 4) - E" by (simp add: gauss_anti_0 E_def)
  moreover have "0 \<le> E" by (simp add: E_def)
  ultimately show ?thesis by linarith
next
  case False
  hence "gauss_anti x \<le> gauss_anti 0" by (intro monoD[OF gauss_anti_mono]) simp
  also have "\<dots> \<le> exp (1 / 4)" by (simp add: gauss_anti_0)
  finally show ?thesis .
qed

definition gauss_limit :: real where
  "gauss_limit = lim (\<lambda>n. gauss_anti (real n))"

lemma gauss_anti_seq_tendsto: "(\<lambda>n. gauss_anti (real n)) \<longlonglongrightarrow> gauss_limit"
proof -
  have "Bseq (\<lambda>n. gauss_anti (real n))"
  proof (rule BseqI'[of _ "exp (1 / 4)"])
    fix n
    show "norm (gauss_anti (real n)) \<le> exp (1 / 4)"
      using gauss_anti_nonneg[of "real n"] gauss_anti_bound[of "real n"] by simp
  qed
  moreover have "\<forall>m n. m \<le> n \<longrightarrow> gauss_anti (real m) \<le> gauss_anti (real n)"
    by (auto intro!: monoD[OF gauss_anti_mono])
  ultimately have "convergent (\<lambda>n. gauss_anti (real n))" by (rule Bseq_mono_convergent)
  thus ?thesis unfolding gauss_limit_def by (simp only: convergent_LIMSEQ_iff)
qed

lemma gauss_anti_tendsto: "(gauss_anti \<longlongrightarrow> gauss_limit) at_top"
  by (rule tendsto_at_topI_sequentially_real[OF gauss_anti_mono gauss_anti_seq_tendsto])

lemma gauss_anti_le_limit: "gauss_anti x \<le> gauss_limit"
proof (rule tendsto_lowerbound[OF gauss_anti_tendsto])
  show "\<forall>\<^sub>F y in at_top. gauss_anti x \<le> gauss_anti y"
    unfolding eventually_at_top_linorder
    by (intro exI[of _ x] allI impI monoD[OF gauss_anti_mono])
qed simp

lemma gauss_limit_nonneg: "0 \<le> gauss_limit"
  using gauss_anti_le_limit[of 0] by (simp add: gauss_anti_0)

lemma gauss_anti_tendsto_bot: "(gauss_anti \<longlongrightarrow> - gauss_limit) at_bot"
proof -
  have "((\<lambda>x. - gauss_anti (- x)) \<longlongrightarrow> - gauss_limit) at_bot"
    by (intro tendsto_minus filterlim_compose[OF gauss_anti_tendsto] filterlim_uminus_at_top_at_bot)
  thus ?thesis by (simp add: gauss_anti_odd)
qed

subsection \<open>The integrals of \<open>sin ^ m\<close> over \<open>[0, \<pi>/2]\<close> and of \<open>(1 - y\<^sup>2) ^ n\<close> over \<open>[0, 1]\<close>\<close>

fun wallis :: "nat \<Rightarrow> real" where
  "wallis 0 = pi / 2"
| "wallis (Suc 0) = 1"
| "wallis (Suc (Suc m)) = real (Suc m) / real (Suc (Suc m)) * wallis m"

fun sin_anti :: "nat \<Rightarrow> real \<Rightarrow> real" where
  "sin_anti 0 x = x"
| "sin_anti (Suc 0) x = - cos x"
| "sin_anti (Suc (Suc m)) x =
     - (sin x ^ Suc m * cos x) / real (Suc (Suc m)) + real (Suc m) / real (Suc (Suc m)) * sin_anti m x"

lemma sin_anti_deriv: "(sin_anti m has_real_derivative sin x ^ m) (at x)"
proof (induction m arbitrary: x rule: wallis.induct)
  case 1
  have "((\<lambda>x::real. x) has_real_derivative 1) (at x)" by (rule DERIV_ident)
  thus ?case by (simp add: sin_anti.simps(1)[abs_def])
next
  case 2
  have "((\<lambda>x::real. - cos x) has_real_derivative sin x) (at x)"
    by (auto intro!: derivative_eq_intros)
  thus ?case by (simp add: sin_anti.simps(2)[abs_def])
next
  case (3 m)
  define a where "a = real (Suc m)"
  define b where "b = real (Suc (Suc m))"
  define S where "S = sin x ^ m"
  define s where "s = sin x"
  define c where "c = cos x"
  have b: "0 < b" "b = a + 1" by (simp_all add: a_def b_def)
  have cs: "c * c = 1 - s * s"
    using sin_cos_squared_add[of x] by (simp add: s_def c_def power2_eq_square)
  have "((\<lambda>x. sin x ^ Suc m) has_real_derivative
      real (Suc m) * (cos x * sin x ^ (Suc m - Suc 0))) (at x)"
    by (rule DERIV_power[OF DERIV_sin])
  moreover have "real (Suc m) * (cos x * sin x ^ (Suc m - Suc 0)) = a * S * c"
    by (simp add: a_def S_def c_def)
  ultimately have d1: "((\<lambda>x. sin x ^ Suc m) has_real_derivative a * S * c) (at x)"
    by (simp only:)
  have d2: "((\<lambda>x. sin x ^ Suc m * cos x) has_real_derivative
      sin x ^ Suc m * - sin x + a * S * c * cos x) (at x)"
    by (rule DERIV_mult'[OF d1 DERIV_cos])
  have d3: "((\<lambda>x. - (sin x ^ Suc m * cos x) / b + a / b * sin_anti m x) has_real_derivative
      - (sin x ^ Suc m * - sin x + a * S * c * cos x) / b + a / b * sin x ^ m) (at x)"
    by (intro DERIV_add DERIV_cdivide DERIV_minus d2 DERIV_cmult "3.IH")
  have e1: "a * S * c * c = a * S * (1 - s * s)" using cs by (simp add: mult.assoc)
  have "- (s * S * - s + a * S * (1 - s * s)) / b + a / b * S = (a + 1) * (s * (s * S)) / b"
    using b(1) by (simp add: field_simps)
  also have "\<dots> = s * (s * S)" using b by simp
  finally have main: "- (s * S * - s + a * S * c * c) / b + a / b * S = s * (s * S)"
    by (simp only: e1)
  have r: "sin x = s" "cos x = c" "s ^ m = S" by (simp_all add: s_def c_def S_def)
  have "- (sin x ^ Suc m * - sin x + a * S * c * cos x) / b + a / b * sin x ^ m
      = sin x ^ Suc (Suc m)"
    unfolding power_Suc r by (rule main)
  with d3 show ?case
    unfolding sin_anti.simps(3)[abs_def] a_def[symmetric] b_def[symmetric] by simp
qed

lemma sin_anti_wallis: "sin_anti m (pi / 2) - sin_anti m 0 = wallis m"
proof (induction m rule: wallis.induct)
  case 1
  show ?case by simp
next
  case 2
  show ?case by simp
next
  case (3 m)
  define q where "q = real (Suc m) / real (Suc (Suc m))"
  have "sin_anti (Suc (Suc m)) (pi / 2) - sin_anti (Suc (Suc m)) 0
      = q * (sin_anti m (pi / 2) - sin_anti m 0)"
    unfolding sin_anti.simps q_def[symmetric] by (simp add: right_diff_distrib)
  also have "\<dots> = q * wallis m" by (simp only: "3.IH")
  finally show ?case by (simp add: q_def)
qed

lemma wallis_pos: "0 < wallis m"
  by (induction m rule: wallis.induct) simp_all

lemma wallis_Suc_le: "wallis (Suc m) \<le> wallis m"
proof -
  have h: "(0::real) \<le> pi / 2" by simp
  have "sin_anti (Suc m) (pi / 2) - sin_anti (Suc m) 0 \<le> sin_anti m (pi / 2) - sin_anti m 0"
  proof (rule deriv_compare[OF h sin_anti_deriv sin_anti_deriv])
    fix x :: real assume x: "0 \<le> x" "x \<le> pi / 2"
    have s: "0 \<le> sin x" "sin x \<le> 1" using x by (auto intro!: sin_ge_zero)
    have "sin x ^ m * sin x \<le> sin x ^ m * 1"
      using s by (intro mult_left_mono) simp_all
    thus "sin x ^ Suc m \<le> sin x ^ m" by (simp add: mult.commute)
  qed
  thus ?thesis by (simp only: sin_anti_wallis)
qed

lemma wallis_prod: "wallis m * wallis (Suc m) = pi / (2 * real (Suc m))"
proof (induction m)
  case 0
  show ?case by simp
next
  case (Suc m)
  define a where "a = real (Suc m)"
  define b where "b = real (Suc (Suc m))"
  have pos: "0 < a" "0 < b" by (simp_all add: a_def b_def)
  have "wallis (Suc m) * wallis (Suc (Suc m)) = a / b * (wallis m * wallis (Suc m))"
    by (simp add: a_def b_def)
  also have "\<dots> = a / b * (pi / (2 * a))" by (simp only: Suc.IH a_def)
  also have "\<dots> = pi / (2 * b)" using pos by (simp add: field_simps)
  finally show ?case by (simp only: b_def)
qed

lemma wallis_odd_upper: "wallis (2 * n + 1) ^ 2 \<le> pi / (2 * real (2 * n + 1))"
proof -
  have "wallis (2 * n + 1) * wallis (2 * n + 1) \<le> wallis (2 * n) * wallis (2 * n + 1)"
    using wallis_Suc_le[of "2 * n"] wallis_pos[of "2 * n + 1"]
    by (intro mult_right_mono) simp_all
  also have "\<dots> = pi / (2 * real (2 * n + 1))"
    using wallis_prod[of "2 * n"] by simp
  finally show ?thesis by (simp only: power2_eq_square)
qed

lemma wallis_odd_lower: "pi / (2 * real (2 * n + 2)) \<le> wallis (2 * n + 1) ^ 2"
proof -
  have "pi / (2 * real (2 * n + 2)) = wallis (2 * n + 1) * wallis (Suc (2 * n + 1))"
    using wallis_prod[of "2 * n + 1"] by simp
  also have "\<dots> \<le> wallis (2 * n + 1) * wallis (2 * n + 1)"
    using wallis_Suc_le[of "2 * n + 1"] wallis_pos[of "2 * n + 1"]
    by (intro mult_left_mono) simp_all
  finally show ?thesis by (simp only: power2_eq_square)
qed

fun poly_anti :: "nat \<Rightarrow> real \<Rightarrow> real" where
  "poly_anti 0 y = y"
| "poly_anti (Suc n) y =
     (y * (1 - y ^ 2) ^ Suc n + real (2 * Suc n) * poly_anti n y) / real (2 * Suc n + 1)"

lemma poly_anti_deriv: "(poly_anti n has_real_derivative (1 - y ^ 2) ^ n) (at y)"
proof (induction n arbitrary: y)
  case 0
  have "((\<lambda>y::real. y) has_real_derivative 1) (at y)" by (rule DERIV_ident)
  thus ?case by (simp add: poly_anti.simps(1)[abs_def])
next
  case (Suc n)
  define a where "a = real (2 * Suc n)"
  define q where "q = 1 - y ^ 2"
  define Q where "Q = q ^ n"
  have a: "0 < a + 1" "real (2 * Suc n + 1) = a + 1" "real (Suc n) = a / 2"
    by (simp_all add: a_def)
  have dq: "((\<lambda>y. 1 - y ^ 2) has_real_derivative - (2 * y)) (at y)"
    by (auto intro!: derivative_eq_intros)
  have "((\<lambda>y. (1 - y ^ 2) ^ Suc n) has_real_derivative
      real (Suc n) * (- (2 * y) * (1 - y ^ 2) ^ (Suc n - Suc 0))) (at y)"
    by (rule DERIV_power[OF dq])
  moreover have "real (Suc n) * (- (2 * y) * (1 - y ^ 2) ^ (Suc n - Suc 0)) = - (a * y * Q)"
    by (simp add: a_def Q_def q_def)
  ultimately have d1: "((\<lambda>y. (1 - y ^ 2) ^ Suc n) has_real_derivative - (a * y * Q)) (at y)"
    by (simp only:)
  have d2: "((\<lambda>y. y * (1 - y ^ 2) ^ Suc n) has_real_derivative
      y * - (a * y * Q) + 1 * (1 - y ^ 2) ^ Suc n) (at y)"
    by (rule DERIV_mult'[OF DERIV_ident d1])
  have d3: "((\<lambda>y. (y * (1 - y ^ 2) ^ Suc n + a * poly_anti n y) / (a + 1)) has_real_derivative
      (y * - (a * y * Q) + 1 * (1 - y ^ 2) ^ Suc n + a * (1 - y ^ 2) ^ n) / (a + 1)) (at y)"
    by (intro DERIV_cdivide DERIV_add d2 DERIV_cmult Suc.IH)
  have yy: "y * y = 1 - q" by (simp add: q_def power2_eq_square)
  have "y * - (a * y * Q) = - (a * (y * y) * Q)" by simp
  also have "\<dots> = - (a * (1 - q) * Q)" by (simp only: yy)
  finally have e1: "y * - (a * y * Q) = - (a * (1 - q) * Q)" .
  have "(- (a * (1 - q) * Q) + 1 * (q * Q) + a * Q) / (a + 1) = (a + 1) * (q * Q) / (a + 1)"
    by (simp add: algebra_simps)
  also have "\<dots> = q * Q" using a(1) by simp
  finally have main: "(y * - (a * y * Q) + 1 * (q * Q) + a * Q) / (a + 1) = q * Q"
    by (simp only: e1)
  have r: "1 - y ^ 2 = q" "q ^ n = Q" by (simp_all add: q_def Q_def)
  have "(y * - (a * y * Q) + 1 * (1 - y ^ 2) ^ Suc n + a * (1 - y ^ 2) ^ n) / (a + 1)
      = (1 - y ^ 2) ^ Suc n"
    unfolding power_Suc r by (rule main)
  with d3 show ?case
    unfolding poly_anti.simps(2)[abs_def] a(2) a_def[symmetric] by simp
qed

lemma poly_anti_0: "poly_anti n 0 = 0"
  by (induction n) simp_all

lemma poly_anti_1: "poly_anti n 1 = wallis (2 * n + 1)"
proof (induction n)
  case 0
  show ?case by simp
next
  case (Suc n)
  have i: "2 * Suc n + 1 = Suc (Suc (2 * n + 1))" by simp
  have "poly_anti (Suc n) 1 = real (2 * Suc n) * wallis (2 * n + 1) / real (2 * Suc n + 1)"
    by (simp add: Suc.IH)
  also have "\<dots> = wallis (Suc (Suc (2 * n + 1)))"
    by (simp add: algebra_simps)
  finally show ?case by (simp only: i)
qed

definition scaled_poly_anti :: "nat \<Rightarrow> real \<Rightarrow> real" where
  "scaled_poly_anti n x = sqrt (real n) * poly_anti n (x / sqrt (real n))"

lemma scaled_poly_anti_deriv:
  assumes n: "0 < n"
  shows "(scaled_poly_anti n has_real_derivative (1 - x ^ 2 / real n) ^ n) (at x)"
proof -
  define s where "s = sqrt (real n)"
  have s: "0 < s" "s ^ 2 = real n" using n by (simp_all add: s_def)
  have lin: "((\<lambda>x. x / s) has_real_derivative 1 / s) (at x)"
    by (rule DERIV_cdivide[OF DERIV_ident])
  have "((\<lambda>x. poly_anti n (x / s)) has_real_derivative (1 - (x / s) ^ 2) ^ n * (1 / s)) (at x)"
    by (rule DERIV_chain2[OF poly_anti_deriv lin])
  hence "((\<lambda>x. s * poly_anti n (x / s)) has_real_derivative
      s * ((1 - (x / s) ^ 2) ^ n * (1 / s))) (at x)"
    by (rule DERIV_cmult)
  moreover have "s * ((1 - (x / s) ^ 2) ^ n * (1 / s)) = (1 - x ^ 2 / real n) ^ n"
    using s by (simp add: power_divide)
  ultimately show ?thesis
    unfolding scaled_poly_anti_def[abs_def] s_def[symmetric] by simp
qed

lemma scaled_poly_anti_0: "scaled_poly_anti n 0 = 0"
  by (simp add: scaled_poly_anti_def poly_anti_0)

lemma scaled_poly_anti_sqrt:
  "0 < n \<Longrightarrow> scaled_poly_anti n (sqrt (real n)) = sqrt (real n) * wallis (2 * n + 1)"
  by (simp add: scaled_poly_anti_def poly_anti_1)

subsection \<open>The value of the limit\<close>

text \<open>
  For \<open>0 \<le> x \<le> sqrt n\<close>,
  \<open>exp (- x\<^sup>2) - x\<^sup>4 exp (- x\<^sup>2) / n \<le> (1 - x\<^sup>2 / n) ^ n \<le> exp (- x\<^sup>2)\<close>.
  Integrating over \<open>[0, sqrt n]\<close> encloses \<open>sqrt n * wallis (2 n + 1)\<close> between two sequences
  with the limit of the antiderivative, and the square of that sequence tends to \<open>\<pi> / 4\<close>.
\<close>

lemma gauss_upper_pointwise:
  assumes n: "0 < n" and x: "0 \<le> x" "x \<le> sqrt (real n)"
  shows "(1 - x ^ 2 / real n) ^ n \<le> exp (- (x ^ 2))"
proof -
  define u where "u = x ^ 2 / real n"
  have "x ^ 2 \<le> sqrt (real n) ^ 2" using x by (intro power_mono) simp_all
  hence x2: "x ^ 2 \<le> real n" by simp
  have u: "0 \<le> u" "u \<le> 1" using n x2 by (simp_all add: u_def)
  have nu: "real n * u = x ^ 2" using n by (simp add: u_def)
  have "1 + - u \<le> exp (- u)" by (rule exp_ge_add_one_self)
  hence "(1 - u) ^ n \<le> exp (- u) ^ n" using u by (intro power_mono) simp_all
  also have "\<dots> = exp (real n * - u)" by (rule exp_of_nat_mult[symmetric])
  also have "\<dots> = exp (- (x ^ 2))" using nu by simp
  finally show ?thesis by (simp only: u_def)
qed

lemma gauss_lower_pointwise:
  assumes n: "0 < n" and x: "0 \<le> x" "x \<le> sqrt (real n)"
  shows "exp (- (x ^ 2)) - 1 / real n * (x ^ 4 * exp (- (x ^ 2))) \<le> (1 - x ^ 2 / real n) ^ n"
proof -
  define u where "u = x ^ 2 / real n"
  define E where "E = exp (- (x ^ 2))"
  have "x ^ 2 \<le> sqrt (real n) ^ 2" using x by (intro power_mono) simp_all
  hence x2: "x ^ 2 \<le> real n" by simp
  have u: "0 \<le> u" "u \<le> 1" using n x2 by (simp_all add: u_def)
  have nu: "real n * u = x ^ 2" using n by (simp add: u_def)
  have x4: "x ^ 4 = (x ^ 2) ^ 2" by simp
  have nu2: "real n * (u * u) = 1 / real n * x ^ 4"
    unfolding x4 using n by (simp add: u_def power2_eq_square)
  have E: "0 < E" "E * exp (x ^ 2) = 1" by (simp_all add: E_def exp_minus field_simps)
  have uu: "u * u \<le> 1" using u mult_mono[of u 1 u 1] by simp
  have "1 + real n * (- (u * u)) \<le> (1 + - (u * u)) ^ n"
    by (rule Bernoulli_inequality) (use uu in simp)
  also have "\<dots> \<le> ((1 - u) * exp u) ^ n"
  proof (rule power_mono)
    have "(1 - u) * (1 + u) \<le> (1 - u) * exp u"
      using u by (intro mult_left_mono exp_ge_add_one_self) simp
    thus "1 + - (u * u) \<le> (1 - u) * exp u" by (simp add: algebra_simps)
    show "0 \<le> 1 + - (u * u)" using uu by simp
  qed
  also have "\<dots> = (1 - u) ^ n * exp u ^ n" by (rule power_mult_distrib)
  also have "exp u ^ n = exp (real n * u)" by (rule exp_of_nat_mult[symmetric])
  also have "\<dots> = exp (x ^ 2)" by (simp only: nu)
  finally have "1 - 1 / real n * x ^ 4 \<le> (1 - u) ^ n * exp (x ^ 2)"
    using nu2 by simp
  hence "E * (1 - 1 / real n * x ^ 4) \<le> E * ((1 - u) ^ n * exp (x ^ 2))"
    using E(1) by (intro mult_left_mono) simp_all
  also have "\<dots> = (1 - u) ^ n * (E * exp (x ^ 2))" by simp
  also have "\<dots> = (1 - u) ^ n" by (simp only: E(2) mult_1_right)
  finally have "E - 1 / real n * (x ^ 4 * E) \<le> (1 - u) ^ n" by (simp add: algebra_simps)
  thus ?thesis by (simp only: u_def E_def)
qed

definition gauss4_anti :: "real \<Rightarrow> real" where
  "gauss4_anti x = - ((x ^ 3 / 2 + 3 * x / 4) * exp (- (x ^ 2))) + 3 / 4 * gauss_anti x"

lemma gauss4_anti_deriv: "(gauss4_anti has_real_derivative x ^ 4 * exp (- (x ^ 2))) (at x)"
proof -
  define E where "E = exp (- (x ^ 2))"
  have dE: "((\<lambda>x. exp (- (x ^ 2))) has_real_derivative - (2 * x) * E) (at x)"
    unfolding E_def by (auto intro!: derivative_eq_intros)
  have dp: "((\<lambda>x. x ^ 3 / 2 + 3 * x / 4) has_real_derivative 3 * x ^ 2 / 2 + 3 / 4) (at x)"
    by (auto intro!: derivative_eq_intros)
  have d1: "((\<lambda>x. (x ^ 3 / 2 + 3 * x / 4) * exp (- (x ^ 2))) has_real_derivative
      (x ^ 3 / 2 + 3 * x / 4) * (- (2 * x) * E) + (3 * x ^ 2 / 2 + 3 / 4) * exp (- (x ^ 2))) (at x)"
    by (rule DERIV_mult'[OF dp dE])
  have d2: "((\<lambda>x. - ((x ^ 3 / 2 + 3 * x / 4) * exp (- (x ^ 2))) + 3 / 4 * gauss_anti x)
      has_real_derivative
      - ((x ^ 3 / 2 + 3 * x / 4) * (- (2 * x) * E) + (3 * x ^ 2 / 2 + 3 / 4) * exp (- (x ^ 2)))
        + 3 / 4 * exp (- (x ^ 2))) (at x)"
    by (intro DERIV_add DERIV_minus d1 DERIV_cmult gauss_anti_deriv)
  have x4: "x ^ 4 = x * x * x * x" "x ^ 3 = x * x * x" "x ^ 2 = x * x"
    by (simp_all add: power4_eq_xxxx power3_eq_cube power2_eq_square)
  have "- ((x ^ 3 / 2 + 3 * x / 4) * (- (2 * x) * E) + (3 * x ^ 2 / 2 + 3 / 4) * E) + 3 / 4 * E
      = x ^ 4 * E"
    unfolding x4 by (simp add: algebra_simps)
  with d2 show ?thesis unfolding gauss4_anti_def[abs_def] E_def by simp
qed

lemma gauss4_anti_0: "gauss4_anti 0 = 0"
  by (simp add: gauss4_anti_def gauss_anti_0)

lemma gauss4_anti_le: "0 \<le> x \<Longrightarrow> gauss4_anti x \<le> 3 / 4 * gauss_limit"
proof -
  assume x: "0 \<le> x"
  have "0 \<le> (x ^ 3 / 2 + 3 * x / 4) * exp (- (x ^ 2))" using x by simp
  moreover have "3 / 4 * gauss_anti x \<le> 3 / 4 * gauss_limit"
    using gauss_anti_le_limit[of x] by simp
  ultimately show ?thesis unfolding gauss4_anti_def by linarith
qed

definition wallis_seq :: "nat \<Rightarrow> real" where
  "wallis_seq n = sqrt (real n) * wallis (2 * n + 1)"

lemma wallis_seq_upper:
  assumes n: "0 < n"
  shows "wallis_seq n \<le> gauss_anti (sqrt (real n))"
proof -
  have s: "0 \<le> sqrt (real n)" by simp
  have "scaled_poly_anti n (sqrt (real n)) - scaled_poly_anti n 0
      \<le> gauss_anti (sqrt (real n)) - gauss_anti 0"
    by (rule deriv_compare[OF s scaled_poly_anti_deriv[OF n] gauss_anti_deriv
          gauss_upper_pointwise[OF n]])
  thus ?thesis
    by (simp add: wallis_seq_def scaled_poly_anti_0 scaled_poly_anti_sqrt[OF n] gauss_anti_0)
qed

lemma wallis_seq_lower:
  assumes n: "0 < n"
  shows "gauss_anti (sqrt (real n)) - 3 / 4 * gauss_limit / real n \<le> wallis_seq n"
proof -
  let ?F = "\<lambda>x. gauss_anti x - 1 / real n * gauss4_anti x"
  have s: "0 \<le> sqrt (real n)" by simp
  have dF: "(?F has_real_derivative exp (- (x ^ 2)) - 1 / real n * (x ^ 4 * exp (- (x ^ 2)))) (at x)"
    for x
    by (intro DERIV_diff DERIV_cmult gauss_anti_deriv gauss4_anti_deriv)
  have "?F (sqrt (real n)) - ?F 0 \<le> scaled_poly_anti n (sqrt (real n)) - scaled_poly_anti n 0"
    by (rule deriv_compare[OF s dF scaled_poly_anti_deriv[OF n] gauss_lower_pointwise[OF n]])
  hence 1: "gauss_anti (sqrt (real n)) - 1 / real n * gauss4_anti (sqrt (real n)) \<le> wallis_seq n"
    by (simp add: wallis_seq_def scaled_poly_anti_0 scaled_poly_anti_sqrt[OF n] gauss_anti_0
        gauss4_anti_0)
  have "1 / real n * gauss4_anti (sqrt (real n)) \<le> 1 / real n * (3 / 4 * gauss_limit)"
    using n by (intro mult_left_mono gauss4_anti_le) simp_all
  with 1 show ?thesis by simp
qed

lemma wallis_seq_tendsto: "wallis_seq \<longlonglongrightarrow> gauss_limit"
proof -
  have sq: "filterlim (\<lambda>n. sqrt (real n)) at_top sequentially"
    by (rule filterlim_compose[OF sqrt_at_top filterlim_real_sequentially])
  have u: "(\<lambda>n. gauss_anti (sqrt (real n))) \<longlonglongrightarrow> gauss_limit"
    by (rule filterlim_compose[OF gauss_anti_tendsto sq])
  have "(\<lambda>n. 3 / 4 * gauss_limit * (1 / real n)) \<longlonglongrightarrow> 3 / 4 * gauss_limit * 0"
    by (intro tendsto_mult tendsto_const lim_1_over_n)
  hence z: "(\<lambda>n. 3 / 4 * gauss_limit / real n) \<longlonglongrightarrow> 0" by simp
  have "(\<lambda>n. gauss_anti (sqrt (real n)) - 3 / 4 * gauss_limit / real n)
      \<longlonglongrightarrow> gauss_limit - 0"
    by (rule tendsto_diff[OF u z])
  hence l: "(\<lambda>n. gauss_anti (sqrt (real n)) - 3 / 4 * gauss_limit / real n)
      \<longlonglongrightarrow> gauss_limit" by simp
  have e1: "\<forall>\<^sub>F n in sequentially.
      gauss_anti (sqrt (real n)) - 3 / 4 * gauss_limit / real n \<le> wallis_seq n"
    unfolding eventually_sequentially
    by (intro exI[of _ 1] allI impI wallis_seq_lower) simp
  have e2: "\<forall>\<^sub>F n in sequentially. wallis_seq n \<le> gauss_anti (sqrt (real n))"
    unfolding eventually_sequentially
    by (intro exI[of _ 1] allI impI wallis_seq_upper) simp
  show ?thesis by (rule tendsto_sandwich[OF e1 e2 l u])
qed

lemma wallis_seq_square_upper: "wallis_seq n ^ 2 \<le> pi / 4"
proof -
  define a where "a = real n"
  have a: "0 \<le> a" by (simp add: a_def)
  have "wallis_seq n ^ 2 = a * wallis (2 * n + 1) ^ 2"
    by (simp add: wallis_seq_def power_mult_distrib a_def)
  also have "\<dots> \<le> a * (pi / (2 * real (2 * n + 1)))"
    by (intro mult_left_mono wallis_odd_upper a)
  also have "\<dots> = pi * (a / (4 * a + 2))" by (simp add: a_def algebra_simps)
  also have "\<dots> \<le> pi * (1 / 4)"
    using a by (intro mult_left_mono) (simp_all add: field_simps)
  finally show ?thesis by simp
qed

lemma wallis_seq_square_lower: "pi / 4 * (real n / real (Suc n)) \<le> wallis_seq n ^ 2"
proof -
  define a where "a = real n"
  have a: "0 \<le> a" by (simp add: a_def)
  have "pi / 4 * (real n / real (Suc n)) = a * (pi / (2 * real (2 * n + 2)))"
    by (simp add: a_def field_simps)
  also have "\<dots> \<le> a * wallis (2 * n + 1) ^ 2"
    by (intro mult_left_mono wallis_odd_lower a)
  also have "\<dots> = wallis_seq n ^ 2"
    by (simp add: wallis_seq_def power_mult_distrib a_def)
  finally show ?thesis .
qed

lemma gauss_limit_eq: "gauss_limit = sqrt pi / 2"
proof -
  have "(\<lambda>n. pi / 4 * (real n / real (Suc n))) \<longlonglongrightarrow> pi / 4 * 1"
    by (intro tendsto_mult tendsto_const LIMSEQ_n_over_Suc_n)
  hence l: "(\<lambda>n. pi / 4 * (real n / real (Suc n))) \<longlonglongrightarrow> pi / 4" by simp
  have u: "(\<lambda>n::nat. pi / 4) \<longlonglongrightarrow> pi / 4" by (rule tendsto_const)
  have e1: "\<forall>\<^sub>F n in sequentially. pi / 4 * (real n / real (Suc n)) \<le> wallis_seq n ^ 2"
    by (rule always_eventually) (intro allI wallis_seq_square_lower)
  have e2: "\<forall>\<^sub>F n in sequentially. wallis_seq n ^ 2 \<le> pi / 4"
    by (rule always_eventually) (intro allI wallis_seq_square_upper)
  have "(\<lambda>n. wallis_seq n ^ 2) \<longlonglongrightarrow> pi / 4"
    by (rule tendsto_sandwich[OF e1 e2 l u])
  moreover have "(\<lambda>n. wallis_seq n ^ 2) \<longlonglongrightarrow> gauss_limit ^ 2"
    by (rule tendsto_power[OF wallis_seq_tendsto])
  ultimately have "gauss_limit ^ 2 = pi / 4" by (rule LIMSEQ_unique[rotated])
  hence "sqrt (gauss_limit ^ 2) = sqrt (pi / 4)" by (simp only:)
  moreover have "sqrt (pi / 4) = sqrt pi / 2"
    using real_sqrt_divide[of pi 4] by simp
  ultimately show ?thesis using gauss_limit_nonneg by simp
qed

section \<open>Integrals over the real line\<close>

text \<open>
  \<^verbatim>\<open>integrate(e, (x, -oo, oo))\<close>: the value is given by an antiderivative on the whole line and
  its limits at both ends, and is unique.
\<close>

definition has_integral_moo_oo :: "(real \<Rightarrow> real) \<Rightarrow> real \<Rightarrow> bool" where
  "has_integral_moo_oo f L \<longleftrightarrow>
     (\<exists>F a b. (\<forall>x. (F has_real_derivative f x) (at x)) \<and>
        (F \<longlongrightarrow> a) at_bot \<and> (F \<longlongrightarrow> b) at_top \<and> L = b - a)"

definition integrate_moo_oo :: "(real \<Rightarrow> real) \<Rightarrow> real" where
  "integrate_moo_oo f = (THE L. has_integral_moo_oo f L)"

lemma has_integral_moo_oo_unique:
  assumes "has_integral_moo_oo f L" "has_integral_moo_oo f L'"
  shows "L = L'"
proof -
  from assms(1) obtain F a b where F: "\<And>x. (F has_real_derivative f x) (at x)"
    "(F \<longlongrightarrow> a) at_bot" "(F \<longlongrightarrow> b) at_top" "L = b - a"
    unfolding has_integral_moo_oo_def by blast
  from assms(2) obtain G a' b' where G: "\<And>x. (G has_real_derivative f x) (at x)"
    "(G \<longlongrightarrow> a') at_bot" "(G \<longlongrightarrow> b') at_top" "L' = b' - a'"
    unfolding has_integral_moo_oo_def by blast
  define H where "H = (\<lambda>x. F x - G x)"
  have dH: "(H has_real_derivative 0) (at x)" for x
    using DERIV_diff[OF F(1)[of x] G(1)[of x]] by (simp add: H_def)
  have cH: "H x = H 0" for x
    by (rule DERIV_isconst_all) (simp add: dH)
  have H: "H = (\<lambda>x. H 0)" by (rule ext) (rule cH)
  have l0: "(H \<longlongrightarrow> a - a') at_bot"
    unfolding H_def by (intro tendsto_diff F G)
  have l0': "(H \<longlongrightarrow> H 0) at_bot" by (subst H) (rule tendsto_const)
  have l1: "(H \<longlongrightarrow> b - b') at_top"
    unfolding H_def by (intro tendsto_diff F G)
  have l1': "(H \<longlongrightarrow> H 0) at_top" by (subst H) (rule tendsto_const)
  have "a - a' = H 0" using tendsto_unique[OF _ l0 l0'] by simp
  moreover have "b - b' = H 0" using tendsto_unique[OF _ l1 l1'] by simp
  ultimately show ?thesis using F(4) G(4) by simp
qed

lemma integrate_moo_oo_eq: "has_integral_moo_oo f L \<Longrightarrow> integrate_moo_oo f = L"
  unfolding integrate_moo_oo_def by (rule the_equality) (auto intro: has_integral_moo_oo_unique)

lemma has_integral_moo_oo_cmult:
  assumes "has_integral_moo_oo f L"
  shows "has_integral_moo_oo (\<lambda>x. c * f x) (c * L)"
proof -
  from assms obtain F a b where F: "\<And>x. (F has_real_derivative f x) (at x)"
    "(F \<longlongrightarrow> a) at_bot" "(F \<longlongrightarrow> b) at_top" "L = b - a"
    unfolding has_integral_moo_oo_def by blast
  show ?thesis unfolding has_integral_moo_oo_def
  proof (intro exI conjI allI)
    show "((\<lambda>x. c * F x) has_real_derivative c * f x) (at x)" for x
      using DERIV_cmult[OF F(1)[of x], of c] by simp
    show "((\<lambda>x. c * F x) \<longlongrightarrow> c * a) at_bot" by (intro tendsto_intros F)
    show "((\<lambda>x. c * F x) \<longlongrightarrow> c * b) at_top" by (intro tendsto_intros F)
    show "c * L = c * b - c * a" using F(4) by (simp add: right_diff_distrib)
  qed
qed

lemma has_integral_moo_oo_cong:
  assumes "has_integral_moo_oo f L" "\<And>x. f x = g x"
  shows "has_integral_moo_oo g L"
proof -
  have "f = g" by (rule ext) (rule assms(2))
  thus ?thesis using assms(1) by simp
qed

lemma affine_at_top: "0 < s \<Longrightarrow> filterlim (\<lambda>x::real. d + s * x) at_top at_top"
  by (intro filterlim_tendsto_add_at_top[OF tendsto_const]
      filterlim_tendsto_pos_mult_at_top[OF tendsto_const _ filterlim_ident])

lemma affine_at_bot: "0 < s \<Longrightarrow> filterlim (\<lambda>x::real. d + s * x) at_bot at_bot"
  by (intro filterlim_tendsto_add_at_bot_iff[THEN iffD2, OF tendsto_const]
      filterlim_tendsto_pos_mult_at_bot[OF tendsto_const _ filterlim_ident])

lemma has_integral_moo_oo_gauss:
  assumes q: "0 < q"
  shows "has_integral_moo_oo (\<lambda>x. exp (- (q * (x - m) ^ 2))) (sqrt (pi / q))"
proof -
  define s where "s = sqrt q"
  define d where "d = - (s * m)"
  have s: "0 < s" "s * s = q" using q by (simp_all add: s_def)
  let ?F = "\<lambda>x. gauss_anti (d + s * x) / s"
  show ?thesis unfolding has_integral_moo_oo_def
  proof (rule exI[of _ ?F], rule exI[of _ "- gauss_limit / s"], rule exI[of _ "gauss_limit / s"],
      intro conjI allI)
    fix x
    have lin: "((\<lambda>x. d + s * x) has_real_derivative s) (at x)"
      by (auto intro!: derivative_eq_intros)
    have "((\<lambda>x. gauss_anti (d + s * x)) has_real_derivative exp (- ((d + s * x) ^ 2)) * s) (at x)"
      by (rule DERIV_chain2[OF gauss_anti_deriv lin])
    hence "(?F has_real_derivative exp (- ((d + s * x) ^ 2)) * s / s) (at x)"
      by (rule DERIV_cdivide)
    moreover have "(d + s * x) ^ 2 = q * (x - m) ^ 2"
    proof -
      have "d + s * x = s * (x - m)" by (simp add: d_def algebra_simps)
      hence "(d + s * x) ^ 2 = (s * s) * (x - m) ^ 2" by (simp add: power2_eq_square)
      thus ?thesis by (simp only: s(2))
    qed
    ultimately show "(?F has_real_derivative exp (- (q * (x - m) ^ 2))) (at x)"
      using s(1) by simp
  next
    show "(?F \<longlongrightarrow> - gauss_limit / s) at_bot"
      by (intro tendsto_divide tendsto_const filterlim_compose[OF gauss_anti_tendsto_bot]
          affine_at_bot s(1)) (use s(1) in simp)
    show "(?F \<longlongrightarrow> gauss_limit / s) at_top"
      by (intro tendsto_divide tendsto_const filterlim_compose[OF gauss_anti_tendsto]
          affine_at_top s(1)) (use s(1) in simp)
    have "gauss_limit / s - - gauss_limit / s = sqrt pi / s"
      by (simp add: gauss_limit_eq)
    also have "\<dots> = sqrt (pi / q)" by (simp add: s_def real_sqrt_divide)
    finally show "sqrt (pi / q) = gauss_limit / s - - gauss_limit / s" by (rule sym)
  qed
qed

lemma has_integral_0_oo_exp_subst:
  assumes "has_integral_moo_oo (\<lambda>x. f (exp x) * exp x) L"
  shows "has_integral_0_oo f L"
proof -
  from assms obtain F a b where F: "\<And>x. (F has_real_derivative f (exp x) * exp x) (at x)"
    "(F \<longlongrightarrow> a) at_bot" "(F \<longlongrightarrow> b) at_top" "L = b - a"
    unfolding has_integral_moo_oo_def by blast
  show ?thesis unfolding has_integral_0_oo_def
  proof (rule exI[of _ "\<lambda>r. F (ln r)"], rule exI[of _ a], rule exI[of _ b],
      intro conjI allI impI)
    fix r :: real assume r: "0 < r"
    have "((\<lambda>r. F (ln r)) has_real_derivative f (exp (ln r)) * exp (ln r) * (1 / r)) (at r)"
      by (rule DERIV_chain2[OF F(1) DERIV_ln_divide[OF r]])
    thus "((\<lambda>r. F (ln r)) has_real_derivative f r) (at r)" using r by simp
  next
    show "((\<lambda>r. F (ln r)) \<longlongrightarrow> a) (at_right 0)"
      by (rule filterlim_compose[OF F(2) ln_at_0])
    show "((\<lambda>r. F (ln r)) \<longlongrightarrow> b) at_top"
      by (rule filterlim_compose[OF F(3) ln_at_top])
    show "L = b - a" by fact
  qed
qed

lemma has_integral_moo_oo_lognormal:
  assumes tau: "0 < tau"
  shows "has_integral_moo_oo (\<lambda>x. exp (- ((x + 2 * tau) ^ 2) / (4 * tau)) * exp (k * x))
     (exp (tau * k * (k - 2)) * sqrt (4 * pi * tau))"
proof -
  define m where "m = 2 * tau * (k - 1)"
  define q where "q = 1 / (4 * tau)"
  have q: "0 < q" using tau by (simp add: q_def)
  have "has_integral_moo_oo (\<lambda>x. exp (tau * k * (k - 2)) * exp (- (q * (x - m) ^ 2)))
      (exp (tau * k * (k - 2)) * sqrt (pi / q))"
    by (rule has_integral_moo_oo_cmult[OF has_integral_moo_oo_gauss[OF q]])
  moreover have "pi / q = 4 * pi * tau" using tau by (simp add: q_def)
  moreover have "exp (tau * k * (k - 2)) * exp (- (q * (x - m) ^ 2))
      = exp (- ((x + 2 * tau) ^ 2) / (4 * tau)) * exp (k * x)" for x
  proof -
    have "tau * k * (k - 2) + - (q * (x - m) ^ 2) = - ((x + 2 * tau) ^ 2) / (4 * tau) + k * x"
      using tau unfolding q_def m_def by (simp add: field_simps power2_eq_square)
    thus ?thesis by (simp only: exp_add[symmetric])
  qed
  ultimately show ?thesis by (simp only:)
qed

section \<open>Full Lundgren regime (notebook section 2.10)\<close>

text \<open>
  The section has two cells. The second one is the first after the change of variable
  \<open>x = ln (r / r0)\<close>, with the time scale \<open>T\<close> and the initial separation \<open>r0\<close> written out:
  \<^verbatim>\<open>
  p = 1 / (4 * pi**1.5 * r0**2 * (t/T)**0.5) * exp(-(x + 2*(t/T))**2 / (4*(t/T)))
  ra = 2 * pi * integrate(p * (r0*exp(x))**2, (x, -oo, oo))
  r2 = 2 * pi * integrate(p * (r0*exp(x))**4, (x, -oo, oo))
  r4 = 2 * pi * integrate(p * (r0*exp(x))**6, (x, -oo, oo))
  Ku = r4 / r2**2.0
  K2 = diff(simplify(r2), t) / 2
  \<close>
  The first one integrates over the separation itself:
  \<^verbatim>\<open>
  p = 1 / (4 * pi**1.5 * (t)**0.5) * exp(-(log(r) + 2*t)**2 / (4*t))
  ra = 2 * pi * integrate(p * r   , (r, 0, oo))
  r2 = 2 * pi * integrate(p * r**3, (r, 0, oo))
  r4 = 2 * pi * integrate(p * r**5, (r, 0, oo))
  Ku = r4 / r2**2.0
  K2 = diff(r2, t) / 2
  \<close>
\<close>

definition p_Lundgren :: "real \<Rightarrow> real \<Rightarrow> real \<Rightarrow> real \<Rightarrow> real" where
  "p_Lundgren r0 T t x =
     1 / (4 * pi powr 1.5 * r0 ^ 2 * (t / T) powr 0.5) * exp (- ((x + 2 * (t / T)) ^ 2) / (4 * (t / T)))"

definition ra_Lundgren :: "real \<Rightarrow> real \<Rightarrow> real \<Rightarrow> real" where
  "ra_Lundgren r0 T t = 2 * pi * integrate_moo_oo (\<lambda>x. p_Lundgren r0 T t x * (r0 * exp x) ^ 2)"

definition r2_Lundgren :: "real \<Rightarrow> real \<Rightarrow> real \<Rightarrow> real" where
  "r2_Lundgren r0 T t = 2 * pi * integrate_moo_oo (\<lambda>x. p_Lundgren r0 T t x * (r0 * exp x) ^ 4)"

definition r4_Lundgren :: "real \<Rightarrow> real \<Rightarrow> real \<Rightarrow> real" where
  "r4_Lundgren r0 T t = 2 * pi * integrate_moo_oo (\<lambda>x. p_Lundgren r0 T t x * (r0 * exp x) ^ 6)"

definition Ku_Lundgren :: "real \<Rightarrow> real \<Rightarrow> real \<Rightarrow> real" where
  "Ku_Lundgren r0 T t = r4_Lundgren r0 T t / r2_Lundgren r0 T t powr 2"

definition K2_Lundgren :: "real \<Rightarrow> real \<Rightarrow> real \<Rightarrow> real" where
  "K2_Lundgren r0 T t = diff (\<lambda>t. r2_Lundgren r0 T t) t / 2"

definition p_Lundgren_raw :: "real \<Rightarrow> real \<Rightarrow> real" where
  "p_Lundgren_raw t r = 1 / (4 * pi powr 1.5 * t powr 0.5) * exp (- ((ln r + 2 * t) ^ 2) / (4 * t))"

definition ra_Lundgren_raw :: "real \<Rightarrow> real" where
  "ra_Lundgren_raw t = 2 * pi * integrate_0_oo (\<lambda>r. p_Lundgren_raw t r * r)"

definition r2_Lundgren_raw :: "real \<Rightarrow> real" where
  "r2_Lundgren_raw t = 2 * pi * integrate_0_oo (\<lambda>r. p_Lundgren_raw t r * r ^ 3)"

definition r4_Lundgren_raw :: "real \<Rightarrow> real" where
  "r4_Lundgren_raw t = 2 * pi * integrate_0_oo (\<lambda>r. p_Lundgren_raw t r * r ^ 5)"

definition Ku_Lundgren_raw :: "real \<Rightarrow> real" where
  "Ku_Lundgren_raw t = r4_Lundgren_raw t / r2_Lundgren_raw t powr 2"

definition K2_Lundgren_raw :: "real \<Rightarrow> real" where
  "K2_Lundgren_raw t = diff (\<lambda>t. r2_Lundgren_raw t) t / 2"

lemma pi_powr_three_halves: "pi powr 1.5 = pi * sqrt pi"
proof -
  have "(1.5::real) = 1 + 1 / 2" by simp
  hence "pi powr 1.5 = pi powr 1 * pi powr (1 / 2)" by (simp only: powr_add)
  thus ?thesis by (simp add: powr_half_sqrt)
qed

lemma powr_point_five: "0 \<le> x \<Longrightarrow> x powr 0.5 = sqrt x"
proof -
  assume x: "0 \<le> x"
  have "(0.5::real) = 1 / 2" by simp
  thus ?thesis using powr_half_sqrt[OF x] by (simp only:)
qed

lemma lognormal_constant:
  assumes tau: "0 < tau"
  shows "2 * pi * (1 / (4 * pi powr 1.5 * tau powr 0.5) * sqrt (4 * pi * tau)) = 1"
proof -
  define a where "a = sqrt pi"
  define b where "b = sqrt tau"
  have pos: "0 < a" "0 < b" using tau by (simp_all add: a_def b_def)
  have aa: "pi = a * a" by (simp add: a_def)
  have s: "sqrt (4 * pi * tau) = 2 * a * b"
    by (simp add: real_sqrt_mult a_def b_def)
  have p: "pi powr 1.5 = a * a * a" unfolding pi_powr_three_halves a_def by simp
  have t: "tau powr 0.5 = b" unfolding b_def by (rule powr_point_five) (use tau in simp)
  have "2 * (a * a) * (1 / (4 * (a * a * a) * b) * (2 * a * b)) = 1"
    using pos by (simp add: field_simps)
  thus ?thesis unfolding s p t using aa by simp
qed

lemma Lundgren_moment:
  assumes r0: "0 < r0" and T: "0 < T" and t: "0 < t"
  shows "2 * pi * integrate_moo_oo (\<lambda>x. p_Lundgren r0 T t x * (r0 * exp x) ^ (2 * Suc j))
     = r0 ^ (2 * j) * exp (t / T * real (2 * Suc j) * (real (2 * Suc j) - 2))"
proof -
  define tau where "tau = t / T"
  define k where "k = real (2 * Suc j)"
  define C where "C = 1 / (4 * pi powr 1.5 * tau powr 0.5)"
  define c where "c = C / r0 ^ 2 * r0 ^ (2 * Suc j)"
  have tau: "0 < tau" using T t by (simp add: tau_def)
  have c: "c = C * r0 ^ (2 * j)" using r0 by (simp add: c_def power2_eq_square)
  have i: "p_Lundgren r0 T t x * (r0 * exp x) ^ (2 * Suc j)
      = c * (exp (- ((x + 2 * tau) ^ 2) / (4 * tau)) * exp (k * x))" for x
  proof -
    have "exp x ^ (2 * Suc j) = exp (k * x)" unfolding k_def by (rule exp_of_nat_mult[symmetric])
    hence "(r0 * exp x) ^ (2 * Suc j) = r0 ^ (2 * Suc j) * exp (k * x)"
      by (simp only: power_mult_distrib)
    moreover have "p_Lundgren r0 T t x = C / r0 ^ 2 * exp (- ((x + 2 * tau) ^ 2) / (4 * tau))"
      by (simp add: p_Lundgren_def tau_def C_def)
    ultimately show ?thesis by (simp add: c_def)
  qed
  have "has_integral_moo_oo (\<lambda>x. c * (exp (- ((x + 2 * tau) ^ 2) / (4 * tau)) * exp (k * x)))
      (c * (exp (tau * k * (k - 2)) * sqrt (4 * pi * tau)))"
    by (rule has_integral_moo_oo_cmult[OF has_integral_moo_oo_lognormal[OF tau]])
  hence "integrate_moo_oo (\<lambda>x. p_Lundgren r0 T t x * (r0 * exp x) ^ (2 * Suc j))
      = c * (exp (tau * k * (k - 2)) * sqrt (4 * pi * tau))"
    unfolding i by (rule integrate_moo_oo_eq)
  hence "2 * pi * integrate_moo_oo (\<lambda>x. p_Lundgren r0 T t x * (r0 * exp x) ^ (2 * Suc j))
      = (2 * pi * (C * sqrt (4 * pi * tau))) * (r0 ^ (2 * j) * exp (tau * k * (k - 2)))"
    by (simp add: c)
  also have "2 * pi * (C * sqrt (4 * pi * tau)) = 1"
    unfolding C_def by (rule lognormal_constant[OF tau])
  finally show ?thesis by (simp add: tau_def k_def)
qed

lemma ra_Lundgren_eq: "0 < r0 \<Longrightarrow> 0 < T \<Longrightarrow> 0 < t \<Longrightarrow> ra_Lundgren r0 T t = 1"
  using Lundgren_moment[of r0 T t 0] by (simp add: ra_Lundgren_def)

lemma r2_Lundgren_eq:
  "0 < r0 \<Longrightarrow> 0 < T \<Longrightarrow> 0 < t \<Longrightarrow> r2_Lundgren r0 T t = r0 ^ 2 * exp (8 * t / T)"
  using Lundgren_moment[of r0 T t 1] by (simp add: r2_Lundgren_def)

lemma r4_Lundgren_eq:
  "0 < r0 \<Longrightarrow> 0 < T \<Longrightarrow> 0 < t \<Longrightarrow> r4_Lundgren r0 T t = r0 ^ 4 * exp (24 * t / T)"
  using Lundgren_moment[of r0 T t 2] by (simp add: r4_Lundgren_def eval_nat_numeral)

lemma Lundgren_raw_moment:
  assumes t: "0 < t"
  shows "2 * pi * integrate_0_oo (\<lambda>r. p_Lundgren_raw t r * r ^ (2 * j + 1))
     = exp (t * real (2 * Suc j) * (real (2 * Suc j) - 2))"
proof -
  define k where "k = real (2 * Suc j)"
  define C where "C = 1 / (4 * pi powr 1.5 * t powr 0.5)"
  let ?f = "\<lambda>r. p_Lundgren_raw t r * r ^ (2 * j + 1)"
  have i: "?f (exp x) * exp x = C * (exp (- ((x + 2 * t) ^ 2) / (4 * t)) * exp (k * x))" for x
  proof -
    have "exp x ^ (2 * j + 1) * exp x = exp x ^ (2 * Suc j)" by simp
    also have "\<dots> = exp (k * x)" unfolding k_def by (rule exp_of_nat_mult[symmetric])
    finally have "exp x ^ (2 * j + 1) * exp x = exp (k * x)" .
    moreover have "p_Lundgren_raw t (exp x) = C * exp (- ((x + 2 * t) ^ 2) / (4 * t))"
      by (simp add: p_Lundgren_raw_def C_def)
    ultimately show ?thesis by (simp only: mult.assoc)
  qed
  have "has_integral_moo_oo (\<lambda>x. C * (exp (- ((x + 2 * t) ^ 2) / (4 * t)) * exp (k * x)))
      (C * (exp (t * k * (k - 2)) * sqrt (4 * pi * t)))"
    by (rule has_integral_moo_oo_cmult[OF has_integral_moo_oo_lognormal[OF t]])
  hence "has_integral_moo_oo (\<lambda>x. ?f (exp x) * exp x)
      (C * (exp (t * k * (k - 2)) * sqrt (4 * pi * t)))"
    by (simp only: i)
  hence "has_integral_0_oo ?f (C * (exp (t * k * (k - 2)) * sqrt (4 * pi * t)))"
    by (rule has_integral_0_oo_exp_subst)
  hence "integrate_0_oo ?f = C * (exp (t * k * (k - 2)) * sqrt (4 * pi * t))"
    by (rule integrate_0_oo_eq)
  hence "2 * pi * integrate_0_oo ?f
      = (2 * pi * (C * sqrt (4 * pi * t))) * exp (t * k * (k - 2))"
    by simp
  also have "2 * pi * (C * sqrt (4 * pi * t)) = 1"
    unfolding C_def by (rule lognormal_constant[OF t])
  finally show ?thesis by (simp add: k_def)
qed

lemma ra_Lundgren_raw_eq: "0 < t \<Longrightarrow> ra_Lundgren_raw t = 1"
  using Lundgren_raw_moment[of t 0] by (simp add: ra_Lundgren_raw_def)

lemma r2_Lundgren_raw_eq: "0 < t \<Longrightarrow> r2_Lundgren_raw t = exp (8 * t)"
  using Lundgren_raw_moment[of t 1] by (simp add: r2_Lundgren_raw_def)

lemma r4_Lundgren_raw_eq: "0 < t \<Longrightarrow> r4_Lundgren_raw t = exp (24 * t)"
  using Lundgren_raw_moment[of t 2] by (simp add: r4_Lundgren_raw_def eval_nat_numeral)

subsection \<open>The quantities of the two cells\<close>

lemma Ku_Lundgren_eq:
  assumes "0 < r0" "0 < T" "0 < t"
  shows "Ku_Lundgren r0 T t = exp (8 * t / T)"
proof -
  define E where "E = exp (8 * t / T)"
  have E: "0 < E" by (simp add: E_def)
  have e24: "exp (24 * t / T) = E * E * E"
  proof -
    have "24 * t / T = 8 * t / T + 8 * t / T + 8 * t / T" by simp
    thus ?thesis unfolding E_def by (simp only: exp_add)
  qed
  have pos: "0 < r0 ^ 2 * E" using assms(1) E by simp
  have "Ku_Lundgren r0 T t = r0 ^ 4 * (E * E * E) / (r0 ^ 2 * E) powr 2"
    by (simp only: Ku_Lundgren_def r2_Lundgren_eq[OF assms] r4_Lundgren_eq[OF assms] e24 E_def)
  also have "(r0 ^ 2 * E) powr 2 = (r0 ^ 2 * E) ^ 2"
    using pos by (simp add: powr_numeral)
  also have "r0 ^ 4 * (E * E * E) / (r0 ^ 2 * E) ^ 2 = E"
    using assms(1) E by (simp add: power2_eq_square power4_eq_xxxx)
  finally show ?thesis by (simp only: E_def)
qed

lemma K2_Lundgren_eq:
  assumes "0 < r0" "0 < T" "0 < t"
  shows "K2_Lundgren r0 T t = 4 * r0 ^ 2 * exp (8 * t / T) / T"
proof -
  have "((\<lambda>s. r0 ^ 2 * exp (8 * s / T)) has_real_derivative r0 ^ 2 * (exp (8 * t / T) * (8 / T))) (at t)"
    using assms(2) by (auto intro!: derivative_eq_intros)
  from diff_eq_on_pos[OF assms(3) _ this, of "\<lambda>t. r2_Lundgren r0 T t"]
  have "diff (\<lambda>t. r2_Lundgren r0 T t) t = r0 ^ 2 * (exp (8 * t / T) * (8 / T))"
    using r2_Lundgren_eq[OF assms(1,2)] by simp
  thus ?thesis by (simp add: K2_Lundgren_def)
qed

lemma Ku_Lundgren_raw_eq:
  assumes "0 < t"
  shows "Ku_Lundgren_raw t = exp (8 * t)"
proof -
  define E where "E = exp (8 * t)"
  have E: "0 < E" by (simp add: E_def)
  have e24: "exp (24 * t) = E * E * E"
  proof -
    have "24 * t = 8 * t + 8 * t + 8 * t" by simp
    thus ?thesis unfolding E_def by (simp only: exp_add)
  qed
  have "Ku_Lundgren_raw t = E * E * E / E powr 2"
    by (simp only: Ku_Lundgren_raw_def r2_Lundgren_raw_eq[OF assms] r4_Lundgren_raw_eq[OF assms]
        e24 E_def)
  also have "E powr 2 = E ^ 2" using E by (simp add: powr_numeral)
  also have "E * E * E / E ^ 2 = E" using E by (simp add: power2_eq_square)
  finally show ?thesis by (simp only: E_def)
qed

lemma K2_Lundgren_raw_eq:
  assumes "0 < t"
  shows "K2_Lundgren_raw t = 4 * exp (8 * t)"
proof -
  have "((\<lambda>s. exp (8 * s)) has_real_derivative exp (8 * t) * 8) (at t)"
    by (auto intro!: derivative_eq_intros)
  from diff_eq_on_pos[OF assms _ this, of "\<lambda>t. r2_Lundgren_raw t"]
  have "diff (\<lambda>t. r2_Lundgren_raw t) t = exp (8 * t) * 8"
    using r2_Lundgren_raw_eq by simp
  thus ?thesis by (simp add: K2_Lundgren_raw_def)
qed

text \<open>
  In the Lundgren regime after the change of variable, for all positive \<open>r0\<close>, \<open>T\<close> and \<open>t\<close>:
  the density is normalized, the second moment is \<open>r0\<^sup>2 exp (8 t / T)\<close>, the fourth moment is
  \<open>r0\<^sup>4 exp (24 t / T)\<close>, the kurtosis is \<open>exp (8 t / T)\<close> and \<open>K2\<close> is
  \<open>4 r0\<^sup>2 exp (8 t / T) / T\<close>. These are the five expressions the notebook displays.
\<close>

theorem Lundgren_moments:
  assumes "0 < r0" "0 < T" "0 < t"
  shows "ra_Lundgren r0 T t = 1
     \<and> r2_Lundgren r0 T t = r0 ^ 2 * exp (8 * t / T)
     \<and> r4_Lundgren r0 T t = r0 ^ 4 * exp (24 * t / T)
     \<and> Ku_Lundgren r0 T t = exp (8 * t / T)
     \<and> K2_Lundgren r0 T t = 4 * r0 ^ 2 * exp (8 * t / T) / T"
  by (simp only: ra_Lundgren_eq[OF assms] r2_Lundgren_eq[OF assms] r4_Lundgren_eq[OF assms]
      Ku_Lundgren_eq[OF assms] K2_Lundgren_eq[OF assms] simp_thms)

theorem Lundgren_moments_witness:
  "ra_Lundgren 1 1 1 = 1
     \<and> r2_Lundgren 1 1 1 = 1 ^ 2 * exp (8 * 1 / 1)
     \<and> r4_Lundgren 1 1 1 = 1 ^ 4 * exp (24 * 1 / 1)
     \<and> Ku_Lundgren 1 1 1 = exp (8 * 1 / 1)
     \<and> K2_Lundgren 1 1 1 = 4 * 1 ^ 2 * exp (8 * 1 / 1) / 1"
proof -
  have one: "(0::real) < 1" by simp
  show ?thesis by (rule Lundgren_moments[OF one one one])
qed

text \<open>
  The integrals of the Lundgren cell over the separation itself, for which the notebook
  displays integrals that were not carried out, have values: for every positive \<open>t\<close> the
  density is normalized, the second moment is \<open>exp (8 t)\<close>, the fourth moment is
  \<open>exp (24 t)\<close>, the kurtosis is \<open>exp (8 t)\<close> and \<open>K2\<close> is \<open>4 exp (8 t)\<close>: the values of the
  other cell at \<open>r0 = 1\<close> and \<open>T = 1\<close>.
\<close>

theorem Lundgren_raw_moments:
  assumes "0 < t"
  shows "ra_Lundgren_raw t = 1
     \<and> r2_Lundgren_raw t = exp (8 * t)
     \<and> r4_Lundgren_raw t = exp (24 * t)
     \<and> Ku_Lundgren_raw t = exp (8 * t)
     \<and> K2_Lundgren_raw t = 4 * exp (8 * t)"
  by (simp only: ra_Lundgren_raw_eq[OF assms] r2_Lundgren_raw_eq[OF assms]
      r4_Lundgren_raw_eq[OF assms] Ku_Lundgren_raw_eq[OF assms] K2_Lundgren_raw_eq[OF assms]
      simp_thms)

theorem Lundgren_raw_moments_witness:
  "ra_Lundgren_raw 1 = 1
     \<and> r2_Lundgren_raw 1 = exp (8 * 1)
     \<and> r4_Lundgren_raw 1 = exp (24 * 1)
     \<and> Ku_Lundgren_raw 1 = exp (8 * 1)
     \<and> K2_Lundgren_raw 1 = 4 * exp (8 * 1)"
proof -
  have one: "(0::real) < 1" by simp
  show ?thesis by (rule Lundgren_raw_moments[OF one])
qed

section \<open>Normalization of the other regimes\<close>

text \<open>
  The densities of the asymptotic and full diffusive, asymptotic and full Garrett--Munk,
  generalized asymptotic (\<open>a = 2\<close>), asymptotic and full Richardson, and Lundgren regimes are
  normalized: for all positive parameters, \<open>2 \<pi> \<integral> p r dr = 1\<close> (for the Lundgren density after
  the change of variable, \<open>2 \<pi> \<integral> p (r0 exp x)\<^sup>2 dx = 1\<close> over the real line).
\<close>

theorem regimes_normalized:
  assumes "0 < k2" "0 < lmbd" "0 < beta" "0 < t" "0 < r0" "0 < T"
  shows "ra_asym_diffusive k2 t = 1 \<and> ra_full_diffusive k2 t r0 = 1
     \<and> ra_asym_GM lmbd t = 1 \<and> ra_full_GM lmbd t r0 = 1
     \<and> ra_gen_asym 2 lmbd t = 1
     \<and> ra_asym_Richardson beta t = 1 \<and> ra_full_Richardson beta t r0 = 1
     \<and> ra_Lundgren r0 T t = 1 \<and> ra_Lundgren_raw t = 1"
proof -
  have "ra_gen_asym 2 lmbd t = ra_asym_GM lmbd t"
    by (simp add: ra_gen_asym_def ra_asym_GM_def p_gen_asym_2[OF assms(2,4)])
  thus ?thesis
    using ra_asym_diffusive_eq[OF assms(1,4)] ra_full_diffusive_eq[OF assms(1,4,5)]
      ra_asym_GM_eq[OF assms(2,4)] ra_full_GM_eq[OF assms(2,4,5)]
      ra_asym_Richardson_eq[OF assms(3,4)] ra_full_Richardson_eq[OF assms(3,4,5)]
      ra_Lundgren_eq[OF assms(5,6,4)] ra_Lundgren_raw_eq[OF assms(4)]
    by simp
qed

theorem regimes_normalized_witness:
  "ra_asym_diffusive 1 1 = 1 \<and> ra_full_diffusive 1 1 1 = 1
     \<and> ra_asym_GM 1 1 = 1 \<and> ra_full_GM 1 1 1 = 1
     \<and> ra_gen_asym 2 1 1 = 1
     \<and> ra_asym_Richardson 1 1 = 1 \<and> ra_full_Richardson 1 1 1 = 1
     \<and> ra_Lundgren 1 1 1 = 1 \<and> ra_Lundgren_raw 1 = 1"
proof -
  have one: "(0::real) < 1" by simp
  show ?thesis by (rule regimes_normalized[OF one one one one one one])
qed

end
